(* ===== verification/Prelude.thy ===== *)
theory Prelude
  imports Main "HOL-Library.AList" "HOL-Library.List_Lexorder" "HOL-Library.Char_ord"
    "HOL-Library.Multiset" "HOL-Library.Sublist"
begin

text \<open>
  What every component of the development shares.

  \<^item> Go maps: an association list, read with \<open>map_of\<close>, written with \<open>mput\<close> and
    \<open>mdel\<close>. A value of that type also fixes one iteration order of the map; Go leaves that
    order open, so a theorem that holds for every association list holds for every order. The
    locale \<open>go_map\<close> states the interface of a map and proves what a loop of writes does to it.
  \<^item> Go strings: byte strings, so Isabelle's \<open>string\<close>. Their order is the bytewise
    lexicographic one (\<open>List_Lexorder\<close> over \<open>Char_ord\<close>), and \<open>sort\<close> is
    \<open>sort.Strings\<close>.
  \<^item> The routines of \<open>strings\<close>, \<open>strconv\<close> and \<open>fmt\<close> that the
    program calls: \<open>join\<close>, \<open>split_on\<close>, \<open>trim_space\<close>, \<open>atoi\<close>,
    decimal printing with and without zero padding, quoting.
  \<^item> Go's 64-bit \<open>int\<close>: HOL integers, with \<open>wrap64\<close> where an operation may
    leave the range.
  \<^item> Results: \<open>string + 'a\<close> for Go's \<open>error\<close>, \<open>http_error + 'a\<close> for
    \<open>httperr.Error\<close> (theory \<open>Httpreq\<close>).
\<close>

named_theorems go_str \<open>rules on the string routines\<close>
named_theorems go_int \<open>rules on decimal printing and parsing\<close>

section \<open>Maps\<close>

subsection \<open>The interface\<close>

locale go_map =
  fixes get :: "'m \<Rightarrow> 'k \<Rightarrow> 'v option"
    and put :: "'k \<Rightarrow> 'v \<Rightarrow> 'm \<Rightarrow> 'm"
    and del :: "'k \<Rightarrow> 'm \<Rightarrow> 'm"
  assumes get_put: "get (put k v m) = (get m)(k \<mapsto> v)"
    and get_del: "get (del k m) = (get m)(k := None)"
begin

lemma put_all_other:
  "k \<notin> f ` set xs \<Longrightarrow> get (fold (\<lambda>x. put (f x) (g x)) xs m) k = get m k"
  by (induction xs arbitrary: m) (auto simp: get_put)

lemma put_all_const:
  assumes "\<And>x. x \<in> set xs \<Longrightarrow> g x = h (f x)"
  shows "get (fold (\<lambda>x. put (f x) (g x)) xs m) k =
    (if k \<in> f ` set xs then Some (h k) else get m k)"
  using assms by (induction xs arbitrary: m) (auto simp: get_put)

lemma put_all_inj:
  assumes "inj_on f (set xs)" and "x \<in> set xs"
  shows "get (fold (\<lambda>x. put (f x) (g x)) xs m) (f x) = Some (g x)"
proof -
  have "g y = g (the_inv_into (set xs) f (f y))" if "y \<in> set xs" for y
    using assms(1) that by (simp add: the_inv_into_f_f)
  then have "get (fold (\<lambda>x. put (f x) (g x)) xs m) (f x) =
      Some (g (the_inv_into (set xs) f (f x)))"
    using put_all_const [of xs g "\<lambda>k. g (the_inv_into (set xs) f k)"] assms(2) by simp
  then show ?thesis using assms by (simp add: the_inv_into_f_f)
qed

lemma put_all_dom: "dom (get (fold (\<lambda>x. put (f x) (g x)) xs m)) = f ` set xs \<union> dom (get m)"
  by (induction xs arbitrary: m) (auto simp: get_put)

lemma put_all_SomeD:
  "get (fold (\<lambda>x. put (f x) (g x)) xs m) k = Some v \<Longrightarrow>
    (\<exists>x \<in> set xs. f x = k \<and> g x = v) \<or> get m k = Some v"
  by (induction xs arbitrary: m) (fastforce simp: get_put split: if_splits)+

text \<open>A loop that reads an entry and writes it back: each key sees only its own updates.\<close>

lemma upsert_all:
  "get (fold (\<lambda>x m. put (f x) (upd x (get m (f x))) m) xs m) k =
    fold (\<lambda>x r. if f x = k then Some (upd x r) else r) xs (get m k)"
  by (induction xs arbitrary: m) (simp_all add: get_put)

lemma del_all: "get (fold del ks m) k = (if k \<in> set ks then None else get m k)"
  by (induction ks arbitrary: m) (auto simp: get_del)

end

text \<open>The option-valued loop of \<open>upsert_all\<close> when each update appends to a list.\<close>

lemma fold_append_group:
  "fold (\<lambda>x r. if f x = k then Some ((case r of None \<Rightarrow> [] | Some ys \<Rightarrow> ys) @ [g x]) else r) xs r =
    (if k \<in> f ` set xs
     then Some ((case r of None \<Rightarrow> [] | Some ys \<Rightarrow> ys) @ map g (filter (\<lambda>x. f x = k) xs)) else r)"
  by (induction xs arbitrary: r) (auto simp: filter_empty_conv image_iff split: option.splits)

subsection \<open>Association lists\<close>

type_synonym ('k, 'v) gomap = "('k \<times> 'v) list"

abbreviation mput :: "'k \<Rightarrow> 'v \<Rightarrow> ('k, 'v) gomap \<Rightarrow> ('k, 'v) gomap" where
  "mput \<equiv> AList.update"

abbreviation mdel :: "'k \<Rightarrow> ('k, 'v) gomap \<Rightarrow> ('k, 'v) gomap" where
  "mdel \<equiv> AList.delete"

abbreviation mkeys :: "('k, 'v) gomap \<Rightarrow> 'k list" where
  "mkeys m \<equiv> map fst m"

abbreviation mvals :: "('k, 'v) gomap \<Rightarrow> 'v list" where
  "mvals m \<equiv> map snd m"

text \<open>A map read with a zero value for a missing key, and \<open>maps.Copy\<close>.\<close>

definition mget0 :: "'v \<Rightarrow> ('k, 'v) gomap \<Rightarrow> 'k \<Rightarrow> 'v" where
  "mget0 z m k = (case map_of m k of None \<Rightarrow> z | Some v \<Rightarrow> v)"

definition mcopy :: "('k, 'v) gomap \<Rightarrow> ('k, 'v) gomap \<Rightarrow> ('k, 'v) gomap" where
  "mcopy src dst = fold (\<lambda>(k, v). mput k v) src dst"

interpretation alm: go_map map_of mput mdel
  by unfold_locales (simp_all add: update_conv' delete_conv')

lemma mput_distinct [simp]: "distinct (mkeys m) \<Longrightarrow> distinct (mkeys (mput k v m))"
  by (rule distinct_update)

lemma mdel_distinct [simp]: "distinct (mkeys m) \<Longrightarrow> distinct (mkeys (mdel k m))"
  by (rule distinct_delete)

lemma mkeys_mput [simp]: "set (mkeys (mput k v m)) = insert k (set (mkeys m))"
  using dom_update [of k v m] by (auto simp: dom_map_of_conv_image_fst)

lemma mkeys_mdel [simp]: "set (mkeys (mdel k m)) = set (mkeys m) - {k}"
  by (auto simp: delete_keys)

lemma update_append_new: "k \<notin> set (mkeys m) \<Longrightarrow> mput k v m = m @ [(k, v)]"
  by (induction m) auto

lemma fold_mput_distinct:
  "distinct (mkeys m) \<Longrightarrow> distinct (mkeys (fold (\<lambda>x. mput (f x) (g x)) xs m))"
  by (induction xs arbitrary: m) (simp_all add: distinct_update)

lemma set_fst_map_of: "k \<in> set (mkeys m) \<longleftrightarrow> map_of m k \<noteq> None"
  by (metis map_of_eq_None_iff set_map)

lemma map_of_mcopy: "distinct (mkeys src) \<Longrightarrow> map_of (mcopy src dst) = map_of dst ++ map_of src"
proof (induction src arbitrary: dst)
  case Nil
  then show ?case by (simp add: mcopy_def)
next
  case (Cons p src)
  obtain k v where p: "p = (k, v)" by (cases p)
  have "map_of (mcopy (p # src) dst) = map_of (mput k v dst) ++ map_of src"
    using Cons by (simp add: mcopy_def p)
  moreover have "map_of src k = None"
    using Cons.prems by (simp add: p map_of_eq_None_iff)
  ultimately show ?case
    by (auto simp: p update_conv' map_add_def fun_eq_iff split: option.splits)
qed

lemma gomap_eq_mset:
  assumes "map_of m = map_of m'" and "distinct (mkeys m)" and "distinct (mkeys m')"
  shows "mset m = mset m'"
proof -
  have "set m = set m'"
    using assms by (simp add: map_of_inject_set)
  moreover have "distinct m" and "distinct m'"
    using assms by (simp_all add: distinct_map)
  ultimately show ?thesis by (simp add: set_eq_iff_mset_eq_distinct)
qed

text \<open>Ranging over a map in any order and sorting the keys gives the same list.\<close>

lemma sorted_keys_cong:
  fixes m :: "('k :: linorder, 'v) gomap"
  assumes "map_of m = map_of m'" and "distinct (mkeys m)" and "distinct (mkeys m')"
  shows "sort (mkeys m) = sort (mkeys m')"
proof -
  have "mset (mkeys m) = mset (mkeys m')"
    using gomap_eq_mset [OF assms] by (metis mset_map)
  then show ?thesis by (metis mset_sort properties_for_sort sorted_sort)
qed

section \<open>Sorting\<close>

lemma sort_mset_cong: "mset xs = mset ys \<Longrightarrow> sort xs = sort ys"
  by (metis mset_sort properties_for_sort sorted_sort)

lemma map_sort_key: "map f (sort_key f xs) = sort (map f xs)"
  by (metis mset_map mset_sort properties_for_sort sorted_sort_key)

lemma sort_key_Nil_iff [simp]: "sort_key f xs = [] \<longleftrightarrow> xs = []"
  by (metis mset_sort mset_zero_iff)

lemma filter_eq_replicate: "filter (\<lambda>x. k = x) xs = replicate (count (mset xs) k) k"
  by (induction xs) auto

lemma sort_key_mset_cong:
  fixes f :: "'a \<Rightarrow> 'b :: linorder"
  assumes "mset xs = mset ys" and "inj_on f (set xs)"
  shows "sort_key f xs = sort_key f ys"
proof (rule properties_for_sort_key)
  show "mset (sort_key f ys) = mset xs" using assms(1) by simp
  have set_eq: "set xs = set ys" using assms(1) by (rule mset_eq_setD)
  have only: "filter (\<lambda>x. f k = f x) zs = replicate (count (mset zs) k) k"
    if "set zs = set ys" and "k \<in> set ys" for k zs
  proof -
    have "filter (\<lambda>x. f k = f x) zs = filter (\<lambda>x. k = x) zs"
      using that assms(2) set_eq by (intro filter_cong) (auto simp: inj_on_def)
    then show ?thesis by (simp only: filter_eq_replicate)
  qed
  show "filter (\<lambda>x. f k = f x) (sort_key f ys) = filter (\<lambda>x. f k = f x) xs"
    if "k \<in> set (sort_key f ys)" for k
    using that set_eq assms(1) only [of "sort_key f ys" k] only [of xs k]
    by (simp only: set_sort mset_sort)
  show "sorted (map f (sort_key f ys))" by simp
qed

section \<open>Strings\<close>

subsection \<open>Join and split\<close>

text \<open>\<open>strings.Join\<close>, and \<open>strings.Split\<close> with a separator of one byte.\<close>

fun join :: "string \<Rightarrow> string list \<Rightarrow> string" where
  "join sep [] = []"
| "join sep [x] = x"
| "join sep (x # y # ys) = x @ sep @ join sep (y # ys)"

fun split_on :: "char \<Rightarrow> string \<Rightarrow> string list" where
  "split_on c [] = [[]]"
| "split_on c (x # xs) =
     (if x = c then [] # split_on c xs
      else (case split_on c xs of [] \<Rightarrow> [[x]] | y # ys \<Rightarrow> (x # y) # ys))"

lemma split_on_not_Nil [simp]: "split_on c s \<noteq> []"
  by (induction s) (auto split: list.splits)

lemma split_on_none: "c \<notin> set s \<Longrightarrow> split_on c s = [s]"
  by (induction s) auto

lemma split_on_append: "c \<notin> set s \<Longrightarrow> split_on c (s @ c # t) = s # split_on c t"
  by (induction s) auto

lemma split_on_join:
  assumes "xs \<noteq> []" and "\<And>x. x \<in> set xs \<Longrightarrow> c \<notin> set x"
  shows "split_on c (join [c] xs) = xs"
  using assms
  by (induction "[c]" xs rule: join.induct) (simp_all add: split_on_none split_on_append)

lemma join_split_on: "join [c] (split_on c s) = s"
proof (induction s)
  case Nil
  show ?case by simp
next
  case (Cons x xs)
  obtain y ys where ys: "split_on c xs = y # ys"
    by (cases "split_on c xs") auto
  then show ?case using Cons by (cases ys) auto
qed

lemma split_on_two: "c \<in> set s \<Longrightarrow> \<exists>a b rest. split_on c s = a # b # rest"
proof (induction s)
  case Nil
  then show ?case by simp
next
  case (Cons x xs)
  obtain y ys where ys: "split_on c xs = y # ys"
    by (cases "split_on c xs") auto
  with Cons show ?case by (cases "x = c") auto
qed

lemma set_join: "set (join sep xs) \<subseteq> set sep \<union> (\<Union>x \<in> set xs. set x)"
  by (induction sep xs rule: join.induct) auto

text \<open>\<open>strings.Index\<close> as the split it is used for: the text before the first occurrence of
  a separator and the text after it; \<open>strings.Split\<close> and \<open>strings.Contains\<close> for a
  separator of any length.\<close>

fun cut :: "string \<Rightarrow> string \<Rightarrow> (string \<times> string) option" where
  "cut sep [] = (if sep = [] then Some ([], []) else None)"
| "cut sep (x # xs) =
     (if prefix sep (x # xs) then Some ([], drop (length sep) (x # xs))
      else map_option (\<lambda>(a, b). (x # a, b)) (cut sep xs))"

lemma cut_Some: "cut sep s = Some (a, b) \<Longrightarrow> s = a @ sep @ b"
proof (induction s arbitrary: a b)
  case Nil
  then show ?case by (simp split: if_splits)
next
  case (Cons x xs)
  then show ?case by (auto split: if_splits elim: prefixE)
qed

lemma cut_shorter: "sep \<noteq> [] \<Longrightarrow> cut sep s = Some (a, b) \<Longrightarrow> length b < length s"
  by (drule cut_Some) simp

definition str_contains :: "string \<Rightarrow> string \<Rightarrow> bool" where
  "str_contains s sub \<longleftrightarrow> cut sub s \<noteq> None"

function split_str :: "string \<Rightarrow> string \<Rightarrow> string list" where
  "split_str sep s =
     (if sep = [] then [s]
      else (case cut sep s of None \<Rightarrow> [s] | Some (a, b) \<Rightarrow> a # split_str sep b))"
  by pat_completeness auto
termination
  by (relation "measure (\<lambda>(sep, s). length s)") (auto dest: cut_shorter)

declare split_str.simps [simp del]

subsection \<open>Trimming\<close>

text \<open>\<open>strings.TrimSpace\<close> on ASCII text: tab, newline, vertical tab, form feed, carriage
  return and space.\<close>

definition is_space :: "char \<Rightarrow> bool" where
  "is_space c \<longleftrightarrow> (of_char c :: nat) \<in> {9, 10, 11, 12, 13, 32}"

definition trim_space :: "string \<Rightarrow> string" where
  "trim_space s = rev (dropWhile is_space (rev (dropWhile is_space s)))"

lemma trim_space_id:
  "s \<noteq> [] \<Longrightarrow> \<not> is_space (hd s) \<Longrightarrow> \<not> is_space (last s) \<Longrightarrow> trim_space s = s"
proof -
  assume "s \<noteq> []" "\<not> is_space (hd s)" "\<not> is_space (last s)"
  then have "dropWhile is_space s = s" and "dropWhile is_space (rev s) = rev s"
    by (cases s, simp_all) (cases "rev s", simp_all add: last_rev [symmetric] hd_rev)
  then show ?thesis by (simp add: trim_space_def)
qed

subsection \<open>Decimal numbers\<close>

definition is_digit :: "char \<Rightarrow> bool" where
  "is_digit c \<longleftrightarrow> 48 \<le> (of_char c :: nat) \<and> (of_char c :: nat) \<le> 57"

definition digit_val :: "char \<Rightarrow> nat" where
  "digit_val c = of_char c - 48"

definition digit_char :: "nat \<Rightarrow> char" where
  "digit_char n = ''0123456789'' ! n"

definition digits_val :: "string \<Rightarrow> nat" where
  "digits_val s = foldl (\<lambda>a c. 10 * a + digit_val c) 0 s"

fun show_nat :: "nat \<Rightarrow> string" where
  "show_nat n = (if n < 10 then [digit_char n] else show_nat (n div 10) @ [digit_char (n mod 10)])"

declare show_nat.simps [simp del]

text \<open>\<open>%d\<close> and \<open>%0*d\<close> of a non-negative number.\<close>

definition show_int :: "int \<Rightarrow> string" where
  "show_int i = (if i < 0 then CHR ''-'' # show_nat (nat (- i)) else show_nat (nat i))"

definition zpad :: "nat \<Rightarrow> nat \<Rightarrow> string" where
  "zpad w n = replicate (w - length (show_nat n)) CHR ''0'' @ show_nat n"

lemma less_10_cases:
  "(n :: nat) < 10 \<Longrightarrow> n \<in> {0, 1, 2, 3, 4, 5, 6, 7, 8, 9}"
  by auto

lemma digit_char_val [simp, go_int]:
  assumes "n < 10"
  shows "is_digit (digit_char n)" and "digit_val (digit_char n) = n"
  using less_10_cases [OF assms] by (auto simp: is_digit_def digit_val_def digit_char_def)

lemma digit_val_char [go_int]: "is_digit c \<Longrightarrow> digit_char (digit_val c) = c"
proof -
  assume c: "is_digit c"
  have "(of_char (digit_char (digit_val c)) :: nat) = of_char c"
  proof -
    have "digit_val c < 10" using c by (auto simp: is_digit_def digit_val_def)
    then have "(of_char (digit_char (digit_val c)) :: nat) = 48 + digit_val c"
      using less_10_cases [of "digit_val c"] by (auto simp: digit_char_def)
    then show ?thesis using c by (simp add: is_digit_def digit_val_def)
  qed
  then show ?thesis by simp
qed

lemma digit_val_less: "is_digit c \<Longrightarrow> digit_val c < 10"
  by (auto simp: is_digit_def digit_val_def)

lemma digits_val_Nil [simp]: "digits_val [] = 0"
  by (simp add: digits_val_def)

lemma digits_val_snoc [simp]: "digits_val (s @ [c]) = 10 * digits_val s + digit_val c"
  by (simp add: digits_val_def)

lemma show_nat_digits [go_int]: "c \<in> set (show_nat n) \<Longrightarrow> is_digit c"
proof (induction n rule: show_nat.induct)
  case (1 n)
  then show ?case by (subst (asm) (2) show_nat.simps) (auto split: if_splits)
qed

lemma show_nat_not_Nil [simp]: "show_nat n \<noteq> []"
  by (subst show_nat.simps) simp

lemma digits_val_show [simp, go_int]: "digits_val (show_nat n) = n"
proof (induction n rule: show_nat.induct)
  case (1 n)
  show ?case
  proof (cases "n < 10")
    case True
    then show ?thesis
      using digits_val_snoc [of "[]"] by (subst show_nat.simps) simp
  next
    case False
    with 1 show ?thesis by (subst show_nat.simps) simp
  qed
qed

lemma digits_val_zeros [simp]: "digits_val (replicate k CHR ''0'' @ s) = digits_val s"
proof -
  have "foldl (\<lambda>a c. 10 * a + digit_val c) 0 (replicate k CHR ''0'') = 0"
    by (induction k) (simp_all add: digit_val_def)
  then show ?thesis by (simp add: digits_val_def)
qed

lemma digits_val_zpad [simp, go_int]: "digits_val (zpad w n) = n"
  by (simp add: zpad_def)

lemma zpad_digits [go_int]: "c \<in> set (zpad w n) \<Longrightarrow> is_digit c"
  by (auto simp: zpad_def show_nat_digits) (simp add: is_digit_def)

lemma show_nat_0: "show_nat 0 = ''0''"
  by (subst show_nat.simps) (simp add: digit_char_def)

lemma show_nat_inj: "show_nat m = show_nat n \<Longrightarrow> m = n"
  by (metis digits_val_show)

text \<open>A string of digits is its own value, printed at its own width.\<close>

lemma zpad_Suc_snoc:
  assumes "d < 10" and "w \<noteq> 0"
  shows "zpad (Suc w) (10 * n + d) = zpad w n @ [digit_char d]"
proof (cases "10 * n + d < 10")
  case True
  then have n: "n = 0" by simp
  have "show_nat d = [digit_char d]" using assms by (subst show_nat.simps) simp
  then show ?thesis
    using n assms(2) by (cases w) (simp_all add: zpad_def show_nat_0 replicate_append_same)
next
  case False
  have "show_nat (10 * n + d) = show_nat n @ [digit_char d]"
    using False assms(1) by (subst show_nat.simps) (simp add: div_mult_self2 mod_mult_self2)
  then show ?thesis by (simp add: zpad_def)
qed

lemma zpad_self [go_int]:
  "s \<noteq> [] \<Longrightarrow> list_all is_digit s \<Longrightarrow> zpad (length s) (digits_val s) = s"
proof (induction s rule: rev_induct)
  case Nil
  then show ?case by simp
next
  case (snoc c s)
  then have c: "is_digit c" by simp
  show ?case
  proof (cases "s = []")
    case True
    have "show_nat (digit_val c) = [digit_char (digit_val c)]"
      using digit_val_less [OF c] by (subst show_nat.simps) simp
    moreover have "digits_val [c] = digit_val c"
      using digits_val_snoc [of "[]" c] by simp
    ultimately show ?thesis using True c by (simp add: zpad_def digit_val_char)
  next
    case False
    then show ?thesis
      using snoc c digit_val_less [OF c]
      by (simp add: zpad_Suc_snoc digit_val_char)
  qed
qed

subsection \<open>Go's int and strconv.Atoi\<close>

definition max_int64 :: int where
  "max_int64 = 2 ^ 63 - 1"

definition min_int64 :: int where
  "min_int64 = - (2 ^ 63)"

text \<open>Two's complement wrap-around of a 64-bit \<open>int\<close>.\<close>

definition wrap64 :: "int \<Rightarrow> int" where
  "wrap64 i = (i + 2 ^ 63) mod 2 ^ 64 - 2 ^ 63"

lemma wrap64_id [go_int]: "min_int64 \<le> i \<Longrightarrow> i \<le> max_int64 \<Longrightarrow> wrap64 i = i"
  by (simp add: wrap64_def min_int64_def max_int64_def)

lemma wrap64_range: "min_int64 \<le> wrap64 i \<and> wrap64 i \<le> max_int64"
  using pos_mod_bound [of "2 ^ 64" "i + 2 ^ 63"] pos_mod_sign [of "2 ^ 64" "i + 2 ^ 63"]
  by (simp add: wrap64_def min_int64_def max_int64_def)

text \<open>
  \<open>strconv.Atoi\<close>: an optional sign and decimal digits; the value is 0 on a syntax error
  and the nearest bound on a range error, and the flag tells whether there was no error.
\<close>

definition strconv_atoi :: "string \<Rightarrow> int \<times> bool" where
  "strconv_atoi s =
     (let (neg, ds) =
        (case s of [] \<Rightarrow> (False, [])
         | c # t \<Rightarrow> if c = CHR ''-'' then (True, t) else if c = CHR ''+'' then (False, t) else (False, s))
      in if ds = [] \<or> \<not> list_all is_digit ds then (0, False)
         else let v = int (digits_val ds)
              in if neg then (if v > 2 ^ 63 then (min_int64, False) else (- v, True))
                 else (if v > max_int64 then (max_int64, False) else (v, True)))"

lemma sign_not_digit [simp]: "\<not> is_digit CHR ''-''" "\<not> is_digit CHR ''+''"
  by (simp_all add: is_digit_def)

lemma strconv_atoi_digits:
  assumes "s \<noteq> []" and "list_all is_digit s"
  shows "strconv_atoi s =
    (if int (digits_val s) > max_int64 then (max_int64, False) else (int (digits_val s), True))"
proof -
  obtain c t where s: "s = c # t" using assms(1) by (cases s) auto
  then have "c \<noteq> CHR ''-''" and "c \<noteq> CHR ''+''" using assms(2) by auto
  with s assms show ?thesis by (simp add: strconv_atoi_def Let_def)
qed

lemma strconv_atoi_range:
  "min_int64 \<le> fst (strconv_atoi s) \<and> fst (strconv_atoi s) \<le> max_int64"
  by (auto simp: strconv_atoi_def Let_def min_int64_def max_int64_def split: list.splits)

text \<open>Parsing what was printed.\<close>

lemma show_nat_all_digits: "list_all is_digit (show_nat n)"
  by (simp add: list_all_iff show_nat_digits)

lemma strconv_atoi_show:
  assumes "min_int64 \<le> i" and "i \<le> max_int64"
  shows "strconv_atoi (show_int i) = (i, True)"
proof (cases "i < 0")
  case True
  then show ?thesis
    using assms(1) by (simp add: show_int_def strconv_atoi_def Let_def show_nat_all_digits min_int64_def)
next
  case False
  then show ?thesis
    using assms(2) by (simp add: show_int_def strconv_atoi_digits show_nat_all_digits)
qed

lemma show_int_chars: "c \<in> set (show_int i) \<Longrightarrow> is_digit c \<or> c = CHR ''-''"
  by (auto simp: show_int_def show_nat_digits split: if_splits)

subsection \<open>Quoting\<close>

text \<open>\<open>%q\<close> on ASCII text: the string in double quotes, with Go's escapes.\<close>

definition hex_digit :: "nat \<Rightarrow> char" where
  "hex_digit n = ''0123456789abcdef'' ! n"

definition quote_char :: "char \<Rightarrow> string" where
  "quote_char c =
     (let n = (of_char c :: nat)
      in if c = CHR 0x22 then [CHR 0x5C, CHR 0x22]
         else if c = CHR 0x5C then [CHR 0x5C, CHR 0x5C]
         else if n = 7 then [CHR 0x5C, CHR ''a'']
         else if n = 8 then [CHR 0x5C, CHR ''b'']
         else if n = 9 then [CHR 0x5C, CHR ''t'']
         else if n = 10 then [CHR 0x5C, CHR ''n'']
         else if n = 11 then [CHR 0x5C, CHR ''v'']
         else if n = 12 then [CHR 0x5C, CHR ''f'']
         else if n = 13 then [CHR 0x5C, CHR ''r'']
         else if n < 32 \<or> n = 127
           then [CHR 0x5C, CHR ''x'', hex_digit (n div 16), hex_digit (n mod 16)]
         else [c])"

definition quote :: "string \<Rightarrow> string" where
  "quote s = [CHR 0x22] @ concat (map quote_char s) @ [CHR 0x22]"

definition newline :: string where
  "newline = [CHR 0x0A]"

section \<open>Results\<close>

text \<open>Go's pair of a value and an \<open>error\<close>: the error's message, or the value.\<close>

type_synonym 'a res = "string + 'a"

definition bind_sum :: "'e + 'a \<Rightarrow> ('a \<Rightarrow> 'e + 'b) \<Rightarrow> 'e + 'b" where
  "bind_sum r f = (case r of Inl e \<Rightarrow> Inl e | Inr x \<Rightarrow> f x)"

lemma bind_sum_simps [simp]:
  "bind_sum (Inl e) f = Inl e"
  "bind_sum (Inr x) f = f x"
  by (simp_all add: bind_sum_def)

lemma bind_sum_Inr [simp]: "bind_sum r Inr = r"
  by (cases r) simp_all

lemma bind_sum_InrE:
  assumes "bind_sum r f = Inr y"
  obtains x where "r = Inr x" and "f x = Inr y"
  using assms by (cases r) auto

text \<open>A loop whose body may return an error stops at the first one.\<close>

fun fold_sum :: "('a \<Rightarrow> 's \<Rightarrow> 'e + 's) \<Rightarrow> 'a list \<Rightarrow> 's \<Rightarrow> 'e + 's" where
  "fold_sum f [] s = Inr s"
| "fold_sum f (x # xs) s = (case f x s of Inl e \<Rightarrow> Inl e | Inr s' \<Rightarrow> fold_sum f xs s')"

lemma fold_sum_cong [fundef_cong]:
  "xs = ys \<Longrightarrow> s = t \<Longrightarrow> (\<And>x s. x \<in> set ys \<Longrightarrow> f x s = g x s) \<Longrightarrow> fold_sum f xs s = fold_sum g ys t"
proof (induction ys arbitrary: xs s t)
  case (Cons y ys)
  then show ?case by (auto split: sum.split)
qed simp

lemma fold_sum_map: "fold_sum f (map g xs) s = fold_sum (\<lambda>x. f (g x)) xs s"
  by (induction xs arbitrary: s) (auto split: sum.split)

lemma fold_sum_one: "fold_sum f [x] s = f x s"
  by (cases "f x s") simp_all

lemma fold_sum_two: "fold_sum f [x, y] s = bind_sum (f x s) (f y)"
  by (cases "f x s") (simp_all split: sum.split)

lemma fold_sum_append:
  "fold_sum f (xs @ ys) s = bind_sum (fold_sum f xs s) (fold_sum f ys)"
  by (induction xs arbitrary: s) (auto split: sum.splits)

lemma fold_sum_concat: "fold_sum f (concat xss) s = fold_sum (\<lambda>xs. fold_sum f xs) xss s"
  by (induction xss arbitrary: s) (auto simp: fold_sum_append split: sum.split)

lemma fold_sum_total:
  "(\<And>x s. x \<in> set xs \<Longrightarrow> f x s = Inr (g x s)) \<Longrightarrow> fold_sum f xs s = Inr (fold g xs s)"
  by (induction xs arbitrary: s) auto

lemma fold_sum_invariant:
  assumes "fold_sum f xs s = Inr t" and "P s"
    and "\<And>x s s'. x \<in> set xs \<Longrightarrow> P s \<Longrightarrow> f x s = Inr s' \<Longrightarrow> P s'"
  shows "P t"
  using assms
proof (induction xs arbitrary: s)
  case Nil
  then show ?case by simp
next
  case (Cons x xs)
  then obtain s' where "f x s = Inr s'" and "fold_sum f xs s' = Inr t"
    by (auto split: sum.splits)
  moreover from this(1) have "P s'" using Cons.prems by auto
  ultimately show ?case using Cons.prems(3) by (intro Cons.IH [of s']) auto
qed

end
