(* ===== verification/Cluset.thy ===== *)
theory Cluset
  imports Prelude
begin

text \<open>
  \<open>internal/cluset/cluset.go\<close>: the compact notation for sets of node names
  (\<open>abc[0482-0484,0507]\<close>).

  \<open>Compact\<close> groups the names by the text before their trailing digits, sorts each group by
  number and writes runs of consecutive numbers as ranges; \<open>Expand\<close> and \<open>ExpandList\<close>
  read that notation back. The two regular expressions of the file are modelled by what they match:
  \<open>compact_match\<close> for \<open>^(.*?)(0*\d+)$\<close> and \<open>expand_match\<close> for
  \<open>^(.*?)\[(.*?)\]$\<close>, where \<open>.\<close> matches anything but a newline.

  The main results: on lists of names that are \<open>compactable\<close> the round trip through
  \<open>Compact\<close> and \<open>Expand\<close>, and through the comma-separated text and
  \<open>ExpandList\<close>, gives back the same multiset of names, and \<open>Compact\<close> does not depend
  on the order of its input; outside that domain names are lost.

  \<open>sort.Slice\<close> leaves the order of elements with equal keys open; the model is stable there.
  A range up to the largest 64-bit integer would never end in the code, and is the finite list of its
  numbers here.
\<close>

section \<open>Definitions\<close>

definition compact_match :: "string \<Rightarrow> (string \<times> string) option" where
  "compact_match node =
     (let num = rev (takeWhile is_digit (rev node));
          pre = rev (dropWhile is_digit (rev node))
      in if num = [] \<or> CHR 0x0A \<in> set pre then None else Some (pre, num))"

definition expand_match :: "string \<Rightarrow> (string \<times> string) option" where
  "expand_match entry =
     (if entry \<noteq> [] \<and> last entry = CHR '']'' \<and> CHR ''['' \<in> set entry \<and> CHR 0x0A \<notin> set entry
      then Some (takeWhile (\<lambda>c. c \<noteq> CHR ''['') entry,
                 tl (dropWhile (\<lambda>c. c \<noteq> CHR ''['') (butlast entry)))
      else None)"

text \<open>\<open>atoi\<close> drops the error of \<open>strconv.Atoi\<close>.\<close>

definition atoi :: "string \<Rightarrow> int" where
  "atoi s = fst (strconv_atoi s)"

definition formatRange :: "string \<Rightarrow> string \<Rightarrow> string" where
  "formatRange start end' = (if start = end' then start else start @ ''-'' @ end')"

text \<open>The loop of \<open>compressRange\<close>: the current run and the numbers still to come.\<close>

fun compress_loop :: "string \<Rightarrow> string \<Rightarrow> string list \<Rightarrow> string list" where
  "compress_loop start end' [] = [formatRange start end']"
| "compress_loop start end' (n # ns) =
     (if atoi n = wrap64 (atoi end' + 1) then compress_loop start n ns
      else formatRange start end' # compress_loop n n ns)"

definition compressRange :: "string list \<Rightarrow> string" where
  "compressRange numbers =
     (case numbers of
        [] \<Rightarrow> []
      | [n] \<Rightarrow> n
      | n # ns \<Rightarrow> ''['' @ join '','' (compress_loop n n ns) @ '']'')"

definition add_to_group :: "string \<Rightarrow> (string, string list) gomap \<Rightarrow> (string, string list) gomap" where
  "add_to_group node groups =
     (case compact_match node of
        Some (pre, num) \<Rightarrow> mput pre (mget0 [] groups pre @ [num]) groups
      | None \<Rightarrow> mput node [] groups)"

definition Compact :: "string list \<Rightarrow> string list" where
  "Compact nodes =
     (let groups = fold add_to_group nodes [];
          prefixes = sort (mkeys groups)
      in map (\<lambda>pre. pre @ compressRange (sort_key atoi (mget0 [] groups pre))) prefixes)"

definition expand_part :: "string \<Rightarrow> string \<Rightarrow> string list" where
  "expand_part pre part =
     (if CHR ''-'' \<in> set part
      then (case split_on CHR ''-'' part of
              b0 # b1 # _ \<Rightarrow> map (\<lambda>i. pre @ zpad (length b0) (nat i)) [atoi b0 .. atoi b1]
            | _ \<Rightarrow> [])
      else [pre @ part])"

definition expand_entry :: "string \<Rightarrow> string list" where
  "expand_entry entry =
     (case expand_match entry of
        Some (pre, ranges) \<Rightarrow> concat (map (expand_part pre) (split_on CHR '','' ranges))
      | None \<Rightarrow> [entry])"

definition Expand :: "string list \<Rightarrow> string list" where
  "Expand compressed = concat (map expand_entry compressed)"

text \<open>
  \<open>splitList\<close> splits at commas outside brackets and drops blank parts. The state of the loop is
  the result so far, the current part and the bracket depth.
\<close>

fun split_step :: "char \<Rightarrow> string list \<times> string \<times> nat \<Rightarrow> string list \<times> string \<times> nat" where
  "split_step ch (result, current, depth) =
     (if ch = CHR ''['' then (result, current @ [ch], Suc depth)
      else if ch = CHR '']'' then (result, current @ [ch], depth - 1)
      else if ch = CHR '','' then
        (if depth = 0
         then (let part = trim_space current
               in (if part \<noteq> [] then result @ [part] else result, [], depth))
         else (result, current @ [ch], depth))
      else (result, current @ [ch], depth))"

definition splitList :: "string \<Rightarrow> string list" where
  "splitList list =
     (let (result, current, depth) = fold split_step list ([], [], 0)
      in if current \<noteq> []
         then (let part = trim_space current in if part \<noteq> [] then result @ [part] else result)
         else result)"

definition ExpandList :: "string \<Rightarrow> string list" where
  "ExpandList compressed = Expand (splitList compressed)"

section \<open>The two patterns\<close>

lemma compact_match_SomeD:
  assumes "compact_match n = Some (p, d)"
  shows "n = p @ d" and "d \<noteq> []" and "list_all is_digit d" and "CHR 0x0A \<notin> set p"
proof -
  have n: "rev n = takeWhile is_digit (rev n) @ dropWhile is_digit (rev n)" by simp
  have pd: "p = rev (dropWhile is_digit (rev n))" "d = rev (takeWhile is_digit (rev n))"
    and ok: "d \<noteq> []" "CHR 0x0A \<notin> set p"
    using assms by (auto simp: compact_match_def Let_def split: if_splits)
  show "n = p @ d" using n pd by (metis rev_append rev_rev_ident)
  show "list_all is_digit d" by (auto simp: pd list_all_iff dest: set_takeWhileD)
  show "d \<noteq> []" and "CHR 0x0A \<notin> set p" using ok by auto
qed

lemma compact_match_append:
  assumes "list_all is_digit d" and "d \<noteq> []" and "CHR 0x0A \<notin> set p"
    and "p = [] \<or> \<not> is_digit (last p)"
  shows "compact_match (p @ d) = Some (p, d)"
proof -
  have t: "takeWhile is_digit (rev d @ rev p) = rev d"
    using assms(1,4) by (cases p rule: rev_cases) (auto simp: takeWhile_append list_all_iff)
  have "dropWhile is_digit (rev d @ rev p) = rev p"
    using assms(1,4) by (cases p rule: rev_cases) (auto simp: dropWhile_append list_all_iff)
  with t assms show ?thesis by (simp add: compact_match_def Let_def)
qed

lemma compact_match_None_last: "n \<noteq> [] \<Longrightarrow> \<not> is_digit (last n) \<Longrightarrow> compact_match n = None"
  by (cases n rule: rev_cases) (simp_all add: compact_match_def)

lemma expand_match_plain: "CHR ''['' \<notin> set e \<Longrightarrow> expand_match e = None"
  by (simp add: expand_match_def)

lemma expand_match_bracket:
  assumes "CHR ''['' \<notin> set p" and "CHR 0x0A \<notin> set p" and "CHR 0x0A \<notin> set r"
  shows "expand_match (p @ ''['' @ r @ '']'') = Some (p, r)"
proof -
  have "takeWhile (\<lambda>c. c \<noteq> CHR ''['') (p @ CHR ''['' # r @ '']'') = p"
    using assms(1) by (induction p) auto
  moreover have "dropWhile (\<lambda>c. c \<noteq> CHR ''['') (p @ CHR ''['' # r) = CHR ''['' # r"
    using assms(1) by (induction p) auto
  moreover have "butlast (p @ CHR ''['' # r @ '']'') = p @ CHR ''['' # r"
    by (simp add: butlast_append)
  ultimately show ?thesis using assms by (simp add: expand_match_def)
qed

section \<open>Runs of numbers\<close>

text \<open>
  Numbers of one group can share a range only if writing a larger one at the width of a smaller
  one gives that number back: equal widths, or no leading zeros.
\<close>

definition numbers :: "string list \<Rightarrow> bool" where
  "numbers ns \<longleftrightarrow> (\<forall>d \<in> set ns. d \<noteq> [] \<and> list_all is_digit d)"

definition regular_numbers :: "string list \<Rightarrow> bool" where
  "regular_numbers ns \<longleftrightarrow>
     (\<forall>a \<in> set ns. int (digits_val a) < max_int64 \<and>
        (\<forall>b \<in> set ns. digits_val a \<le> digits_val b \<longrightarrow> zpad (length a) (digits_val b) = b))"

lemma atoi_number:
  "d \<noteq> [] \<Longrightarrow> list_all is_digit d \<Longrightarrow> int (digits_val d) < max_int64 \<Longrightarrow> atoi d = int (digits_val d)"
  by (simp add: atoi_def strconv_atoi_digits)

lemma number_no_sep:
  "list_all is_digit d \<Longrightarrow> c \<in> {CHR ''-'', CHR '','', CHR ''['', CHR '']'', CHR 0x0A} \<Longrightarrow> c \<notin> set d"
  by (auto simp: list_all_iff is_digit_def)

lemma expand_part_range:
  assumes "numbers [s, e]" and "regular_numbers [s, e]"
    and "digits_val s \<le> digits_val e" and "digits_val s = digits_val e \<longrightarrow> s = e"
  shows "expand_part p (formatRange s e) =
    map (\<lambda>i. p @ zpad (length s) (nat i)) [int (digits_val s) .. int (digits_val e)]"
proof (cases "s = e")
  case True
  have "CHR ''-'' \<notin> set s" using assms(1) number_no_sep by (auto simp: numbers_def)
  moreover have "zpad (length s) (digits_val s) = s"
    using assms(1) by (simp add: numbers_def zpad_self)
  ultimately show ?thesis using True by (simp add: formatRange_def expand_part_def)
next
  case False
  have no: "CHR ''-'' \<notin> set s" "CHR ''-'' \<notin> set e"
    using assms(1) number_no_sep by (auto simp: numbers_def)
  have "split_on CHR ''-'' (s @ ''-'' @ e) = [s, e]"
    using no by (simp add: split_on_append split_on_none)
  moreover have "atoi s = int (digits_val s)" and "atoi e = int (digits_val e)"
    using assms(1,2) by (auto simp: numbers_def regular_numbers_def atoi_number)
  ultimately show ?thesis using False by (simp add: formatRange_def expand_part_def)
qed

lemma regular_pair:
  "numbers ns \<Longrightarrow> regular_numbers ns \<Longrightarrow> s \<in> set ns \<Longrightarrow> e \<in> set ns \<Longrightarrow>
    numbers [s, e] \<and> regular_numbers [s, e]"
  by (auto simp: numbers_def regular_numbers_def)

lemma compress_loop_expand:
  assumes "numbers (s # e # ns)" and "regular_numbers (s # e # ns)"
    and "sorted (map digits_val (e # ns))"
    and "digits_val s \<le> digits_val e" and "digits_val s = digits_val e \<longrightarrow> s = e"
  shows "concat (map (expand_part p) (compress_loop s e ns)) =
    map (\<lambda>i. p @ zpad (length s) (nat i)) [int (digits_val s) .. int (digits_val e)] @ map ((@) p) ns"
  using assms
proof (induction ns arbitrary: s e)
  case Nil
  then show ?case using regular_pair [OF Nil(1,2)] by (simp add: expand_part_range)
next
  case (Cons n ns)
  have len: "e \<noteq> []" "list_all is_digit e" "n \<noteq> []" "list_all is_digit n"
    and small: "int (digits_val e) < max_int64" "int (digits_val n) < max_int64"
    using Cons.prems(1,2) by (auto simp: numbers_def regular_numbers_def)
  have at: "atoi e = int (digits_val e)" "atoi n = int (digits_val n)"
    using len small by (simp_all add: atoi_number)
  have wrap: "wrap64 (atoi e + 1) = int (digits_val e) + 1"
    using small(1) by (simp add: at wrap64_id min_int64_def)
  have reg: "numbers (x # n # ns)" "regular_numbers (x # n # ns)" if "x \<in> {s, n}" for x
    using Cons.prems(1,2) that by (auto simp: numbers_def regular_numbers_def)
  show ?case
  proof (cases "digits_val n = Suc (digits_val e)")
    case True
    have "zpad (length s) (digits_val n) = n"
      using Cons.prems True by (auto simp: regular_numbers_def)
    moreover have "nat (1 + int (digits_val e)) = Suc (digits_val e)" by simp
    moreover have "[int (digits_val s) .. int (digits_val n)] =
        [int (digits_val s) .. int (digits_val e)] @ [int (digits_val n)]"
      using True Cons.prems(4) upto_rec2 [of "int (digits_val s)" "1 + int (digits_val e)"] by simp
    moreover have "compress_loop s e (n # ns) = compress_loop s n ns"
      using True by (simp add: wrap at(2))
    ultimately show ?thesis
      using Cons.IH [of s n] reg [of s] True Cons.prems(3,4) by simp
  next
    case False
    have "zpad (length n) (digits_val n) = n" using len by (simp add: zpad_self)
    moreover have "compress_loop s e (n # ns) = formatRange s e # compress_loop n n ns"
      using False by (simp add: wrap at(2))
    moreover have "expand_part p (formatRange s e) =
        map (\<lambda>i. p @ zpad (length s) (nat i)) [int (digits_val s) .. int (digits_val e)]"
      using regular_pair [OF Cons.prems(1,2), of s e] Cons.prems(4,5) by (simp add: expand_part_range)
    ultimately show ?thesis
      using Cons.IH [of n n] reg [of n] Cons.prems(3) by simp
  qed
qed

lemma formatRange_chars:
  "numbers [s, e] \<Longrightarrow> c \<in> set (formatRange s e) \<Longrightarrow> is_digit c \<or> c = CHR ''-''"
  by (auto simp: formatRange_def numbers_def list_all_iff split: if_splits)

lemma compress_loop_chars:
  "numbers (s # e # ns) \<Longrightarrow> x \<in> set (compress_loop s e ns) \<Longrightarrow> c \<in> set x \<Longrightarrow> is_digit c \<or> c = CHR ''-''"
proof (induction ns arbitrary: s e)
  case Nil
  then show ?case using formatRange_chars [of s e] by simp
next
  case (Cons n ns)
  have "numbers [s, e]" "numbers (s # n # ns)" "numbers (n # n # ns)"
    using Cons.prems(1) by (auto simp: numbers_def)
  then show ?case using Cons formatRange_chars [of s e c] by (auto split: if_splits)
qed

lemma compress_loop_not_Nil [simp]: "compress_loop s e ns \<noteq> []"
  by (induction ns arbitrary: s e) auto

lemma join_compress_chars:
  assumes "numbers (s # e # ns)" and "c \<in> set (join '','' (compress_loop s e ns))"
  shows "is_digit c \<or> c = CHR ''-'' \<or> c = CHR '',''"
  using assms set_join [of "'',''" "compress_loop s e ns"] compress_loop_chars by fastforce

lemma compressRange_many:
  "length ns \<ge> 2 \<Longrightarrow> compressRange ns = ''['' @ join '','' (compress_loop (hd ns) (hd ns) (tl ns)) @ '']''"
  by (cases ns rule: list.exhaust; cases "tl ns") (auto simp: compressRange_def)

text \<open>One group: expanding its compressed text gives its names back.\<close>

lemma expand_entry_compressRange:
  assumes "numbers ns" and "regular_numbers ns" and "sorted (map digits_val ns)"
    and "CHR ''['' \<notin> set p" and "ns \<noteq> [] \<longrightarrow> CHR 0x0A \<notin> set p"
  shows "expand_entry (p @ compressRange ns) = (if ns = [] then [p] else map ((@) p) ns)"
proof (cases "length ns \<ge> 2")
  case False
  then consider "ns = []" | d where "ns = [d]"
    by (cases ns rule: list.exhaust; cases "tl ns") auto
  then show ?thesis
  proof cases
    case 1
    then show ?thesis
      using assms(4) by (simp add: compressRange_def expand_entry_def expand_match_plain)
  next
    case 2
    then have "CHR ''['' \<notin> set (p @ d)"
      using assms(1,4) number_no_sep by (auto simp: numbers_def)
    then show ?thesis
      using 2 by (simp add: compressRange_def expand_entry_def expand_match_plain)
  qed
next
  case True
  then obtain a b rest' where "ns = a # b # rest'"
    by (metis Suc_le_length_iff numeral_2_eq_2)
  then obtain a rest where ns: "ns = a # rest" "rest \<noteq> []" by blast
  let ?parts = "compress_loop a a rest"
  have num: "numbers (a # a # rest)" and reg: "regular_numbers (a # a # rest)"
    using assms(1,2) by (auto simp: ns numbers_def regular_numbers_def)
  have "CHR 0x0A \<notin> set (join '','' ?parts)"
    using join_compress_chars [OF num, of "CHR 0x0A"] by (auto simp: is_digit_def)
  then have "expand_match (p @ compressRange ns) = Some (p, join '','' ?parts)"
    using True assms(4,5) ns by (simp add: compressRange_many expand_match_bracket [simplified])
  moreover have "split_on CHR '','' (join '','' ?parts) = ?parts"
    by (rule split_on_join)
      (use compress_loop_chars [OF num, of _ "CHR '',''"] in \<open>auto simp: is_digit_def\<close>)
  moreover have "concat (map (expand_part p) ?parts) = map ((@) p) (a # rest)"
  proof -
    have "zpad (length a) (digits_val a) = a"
      using num by (simp add: numbers_def zpad_self)
    then show ?thesis
      using compress_loop_expand [OF num reg] assms(3) by (simp add: ns)
  qed
  ultimately show ?thesis by (simp add: expand_entry_def ns)
qed

section \<open>Groups\<close>

definition group_key :: "string \<Rightarrow> string" where
  "group_key node = (case compact_match node of Some (pre, num) \<Rightarrow> pre | None \<Rightarrow> node)"

definition nums_of :: "string \<Rightarrow> string list \<Rightarrow> string list" where
  "nums_of k nodes =
     map (\<lambda>n. snd (the (compact_match n))) (filter (\<lambda>n. compact_match n \<noteq> None \<and> group_key n = k) nodes)"

text \<open>No name without trailing digits is the prefix of a name with trailing digits.\<close>

definition no_clash :: "string list \<Rightarrow> bool" where
  "no_clash nodes \<longleftrightarrow>
     (\<forall>n \<in> set nodes. \<forall>m \<in> set nodes. compact_match n = None \<longrightarrow> compact_match m \<noteq> None \<longrightarrow> group_key m \<noteq> n)"

lemma add_to_group_upsert:
  "add_to_group node groups =
    mput (group_key node)
      (case compact_match node of
         Some (pre, num) \<Rightarrow> (case map_of groups (group_key node) of None \<Rightarrow> [] | Some ys \<Rightarrow> ys) @ [num]
       | None \<Rightarrow> []) groups"
  by (auto simp: add_to_group_def group_key_def mget0_def split: option.splits)

lemma add_to_group_distinct:
  "distinct (mkeys groups) \<Longrightarrow> distinct (mkeys (fold add_to_group nodes groups))"
  by (induction nodes arbitrary: groups) (simp_all add: add_to_group_upsert distinct_update)

lemma add_to_group_keys:
  "set (mkeys (fold add_to_group nodes groups)) = group_key ` set nodes \<union> set (mkeys groups)"
  by (induction nodes arbitrary: groups) (auto simp: add_to_group_upsert simp del: set_map)

lemma nums_of_snoc:
  "nums_of k (xs @ [x]) =
    nums_of k xs @ (if compact_match x \<noteq> None \<and> group_key x = k then [snd (the (compact_match x))] else [])"
  by (simp add: nums_of_def)

lemma nums_of_numbers: "numbers (nums_of k nodes)"
  by (auto simp: numbers_def nums_of_def dest: compact_match_SomeD)

lemma nums_of_empty: "k \<notin> group_key ` set nodes \<Longrightarrow> nums_of k nodes = []"
  by (auto simp: nums_of_def filter_empty_conv)

lemma nums_of_nonempty:
  "compact_match n \<noteq> None \<Longrightarrow> n \<in> set nodes \<Longrightarrow> nums_of (group_key n) nodes \<noteq> []"
  by (auto simp: nums_of_def filter_empty_conv)

lemma groups_lookup:
  "no_clash nodes \<Longrightarrow>
    map_of (fold add_to_group nodes []) k =
      (if k \<in> group_key ` set nodes then Some (nums_of k nodes) else None)"
proof (induction nodes rule: rev_induct)
  case Nil
  then show ?case by simp
next
  case (snoc x xs)
  have IH: "map_of (fold add_to_group xs []) k =
      (if k \<in> group_key ` set xs then Some (nums_of k xs) else None)"
    using snoc by (auto simp: no_clash_def)
  show ?case
  proof (cases "group_key x = k")
    case False
    then show ?thesis using IH
      by (simp add: add_to_group_upsert [of x] update_conv' nums_of_snoc image_iff)
  next
    case True
    show ?thesis
    proof (cases "compact_match x")
      case None
      then have "k = x" using True by (simp add: group_key_def)
      then have "nums_of k xs = []"
        using snoc.prems None by (auto simp: no_clash_def nums_of_def filter_empty_conv)
      then show ?thesis using True None
        by (simp add: add_to_group_upsert [of x] update_conv' nums_of_snoc)
    next
      case (Some pd)
      then show ?thesis
        using True IH
        by (auto simp: add_to_group_upsert [of x] update_conv' nums_of_snoc nums_of_empty
            split: prod.splits)
    qed
  qed
qed

lemma Compact_eq:
  assumes "no_clash nodes"
  shows "Compact nodes =
    map (\<lambda>k. k @ compressRange (sort_key atoi (nums_of k nodes))) (sorted_list_of_set (group_key ` set nodes))"
proof -
  let ?g = "fold add_to_group nodes []"
  have "distinct (mkeys ?g)" by (rule add_to_group_distinct) simp
  moreover have keys: "set (mkeys ?g) = group_key ` set nodes"
    using add_to_group_keys [of nodes "[]"] by simp
  ultimately have "sort (mkeys ?g) = sorted_list_of_set (group_key ` set nodes)"
    by (metis sorted_list_of_set_sort_remdups distinct_remdups_id)
  moreover have "mget0 [] ?g k = nums_of k nodes" if "k \<in> group_key ` set nodes" for k
    using groups_lookup [OF assms, of k] that by (simp add: mget0_def)
  ultimately show ?thesis by (simp add: Compact_def Let_def)
qed

section \<open>The domain of the round trip\<close>

definition compactable :: "string list \<Rightarrow> bool" where
  "compactable nodes \<longleftrightarrow>
     (\<forall>n \<in> set nodes. CHR ''['' \<notin> set n) \<and>
     no_clash nodes \<and>
     distinct (filter (\<lambda>n. compact_match n = None) nodes) \<and>
     (\<forall>k \<in> group_key ` set nodes. regular_numbers (nums_of k nodes))"

lemma sort_key_atoi:
  assumes "numbers ns" and "regular_numbers ns"
  shows "sorted (map digits_val (sort_key atoi ns))"
proof -
  have eq: "map atoi (sort_key atoi ns) = map (\<lambda>d. int (digits_val d)) (sort_key atoi ns)"
    using assms by (auto simp: numbers_def regular_numbers_def atoi_number)
  have "sorted (map atoi (sort_key atoi ns))" by simp
  then have "sorted (map (\<lambda>d. int (digits_val d)) (sort_key atoi ns))" by (simp only: eq)
  then show ?thesis by (simp add: sorted_iff_nth_mono)
qed

lemma group_members:
  assumes "no_clash nodes" and "k \<in> group_key ` set nodes"
  shows "map ((@) k) (nums_of k nodes) = (if nums_of k nodes = [] then [] else filter (\<lambda>n. group_key n = k) nodes)"
proof (cases "nums_of k nodes = []")
  case False
  then obtain m where m: "m \<in> set nodes" "compact_match m \<noteq> None" "group_key m = k"
    by (auto simp: nums_of_def filter_empty_conv)
  have matched: "compact_match n \<noteq> None" if "n \<in> set nodes" "group_key n = k" for n
  proof
    assume None: "compact_match n = None"
    then have "group_key n = n" by (simp add: group_key_def)
    then show False using assms(1) m that None by (auto simp: no_clash_def)
  qed
  then have "filter (\<lambda>n. compact_match n \<noteq> None \<and> group_key n = k) nodes = filter (\<lambda>n. group_key n = k) nodes"
    by (auto intro!: filter_cong)
  moreover have "k @ snd (the (compact_match n)) = n" if "n \<in> set nodes" "group_key n = k" for n
    using matched [OF that] that by (auto simp: group_key_def dest: compact_match_SomeD)
  ultimately show ?thesis using False by (auto simp: nums_of_def comp_def intro!: map_idI)
qed simp

lemma bare_group:
  assumes "no_clash nodes" and "distinct (filter (\<lambda>n. compact_match n = None) nodes)"
    and "k \<in> group_key ` set nodes" and "nums_of k nodes = []"
  shows "filter (\<lambda>n. group_key n = k) nodes = [k]"
proof -
  have bare: "compact_match n = None \<and> n = k" if "n \<in> set nodes" "group_key n = k" for n
    using that assms(4) nums_of_nonempty [of n nodes]
    by (cases "compact_match n") (auto simp: group_key_def)
  then have "filter (\<lambda>n. group_key n = k) nodes = filter (\<lambda>n. n = k) (filter (\<lambda>n. compact_match n = None) nodes)"
    by (auto simp: group_key_def intro!: filter_cong)
  moreover have "k \<in> set (filter (\<lambda>n. compact_match n = None) nodes)"
  proof -
    obtain x where x: "x \<in> set nodes" "group_key x = k" using assms(3) by auto
    then have "compact_match x = None \<and> x = k" by (rule bare)
    then show ?thesis using x by auto
  qed
  then have "filter (\<lambda>n. n = k) (filter (\<lambda>n. compact_match n = None) nodes) = [k]"
    using assms(2) by (metis (mono_tags, lifting) filter_cong filter_eq_replicate
        distinct_count_atmost_1 replicate_Suc replicate_0 One_nat_def)
  ultimately show ?thesis by simp
qed

text \<open>Expanding the entry of one group gives exactly the names of that group.\<close>

lemma expand_group:
  assumes "compactable nodes" and k: "k \<in> group_key ` set nodes"
  shows "mset (expand_entry (k @ compressRange (sort_key atoi (nums_of k nodes)))) =
    filter_mset (\<lambda>n. group_key n = k) (mset nodes)"
proof -
  let ?ns = "nums_of k nodes"
  have clash: "no_clash nodes" and reg: "regular_numbers ?ns"
    and bare: "distinct (filter (\<lambda>n. compact_match n = None) nodes)"
    using assms by (auto simp: compactable_def)
  have num: "numbers ?ns" by (rule nums_of_numbers)
  have "numbers (sort_key atoi ?ns)" "regular_numbers (sort_key atoi ?ns)"
    using num reg by (simp_all add: numbers_def regular_numbers_def)
  moreover have "CHR ''['' \<notin> set k"
  proof -
    obtain n where "n \<in> set nodes" "k = group_key n" using k by auto
    then show ?thesis
      using assms(1) by (fastforce simp: compactable_def group_key_def split: option.splits
          dest: compact_match_SomeD)
  qed
  moreover have "CHR 0x0A \<notin> set k" if "?ns \<noteq> []"
    using that by (auto simp: nums_of_def filter_empty_conv group_key_def dest: compact_match_SomeD)
  ultimately have expand: "expand_entry (k @ compressRange (sort_key atoi ?ns)) =
      (if ?ns = [] then [k] else map ((@) k) (sort_key atoi ?ns))"
    using sort_key_atoi [OF num reg]
    by (subst expand_entry_compressRange) auto
  show ?thesis
  proof (cases "?ns = []")
    case True
    then show ?thesis using expand bare_group [OF clash bare k True] by (metis mset.simps mset_filter)
  next
    case False
    have "mset (map ((@) k) (sort_key atoi ?ns)) = mset (map ((@) k) ?ns)" by simp
    then show ?thesis using False expand group_members [OF clash k] by (metis mset_filter)
  qed
qed

section \<open>The round trip\<close>

lemma mset_sum_by_key:
  "finite K \<Longrightarrow> key ` set xs \<subseteq> K \<Longrightarrow> (\<Sum>k \<in> K. filter_mset (\<lambda>x. key x = k) (mset xs)) = mset xs"
proof (induction xs)
  case Nil
  then show ?case by simp
next
  case (Cons x xs)
  have "(\<Sum>k \<in> K. filter_mset (\<lambda>y. key y = k) (mset (x # xs))) =
      (\<Sum>k \<in> K. (if k = key x then {#x#} else {#}) + filter_mset (\<lambda>y. key y = k) (mset xs))"
    by (intro sum.cong) auto
  also have "\<dots> = {#x#} + mset xs"
    using Cons by (simp add: sum.distrib)
  finally show ?case by simp
qed

lemma mset_concat_distinct:
  "distinct ks \<Longrightarrow> mset (concat (map f ks)) = (\<Sum>k \<in> set ks. mset (f k))"
  by (induction ks) auto

lemma Expand_Compact_mset:
  assumes "compactable nodes"
  shows "mset (Expand (Compact nodes)) = mset nodes"
proof -
  let ?K = "group_key ` set nodes"
  have "no_clash nodes" using assms by (simp add: compactable_def)
  then have "mset (Expand (Compact nodes)) =
      (\<Sum>k \<in> ?K. mset (expand_entry (k @ compressRange (sort_key atoi (nums_of k nodes)))))"
    by (simp add: Expand_def Compact_eq mset_concat_distinct comp_def)
  also have "\<dots> = (\<Sum>k \<in> ?K. filter_mset (\<lambda>n. group_key n = k) (mset nodes))"
    by (intro sum.cong expand_group assms) auto
  also have "\<dots> = mset nodes" by (rule mset_sum_by_key) auto
  finally show ?thesis .
qed

section \<open>Lists in one string\<close>

text \<open>A part that \<open>splitList\<close> keeps whole: its commas are inside brackets.\<close>

definition list_item :: "string \<Rightarrow> bool" where
  "list_item e \<longleftrightarrow> e \<noteq> [] \<and> \<not> is_space (hd e) \<and> \<not> is_space (last e) \<and>
     (\<forall>res cur. fold split_step e (res, cur, 0) = (res, cur @ e, 0))"

lemma split_plain:
  "CHR ''['' \<notin> set s \<Longrightarrow> CHR '','' \<notin> set s \<Longrightarrow> fold split_step s (res, cur, 0) = (res, cur @ s, 0)"
  by (induction s arbitrary: cur) auto

lemma split_inner:
  "CHR ''['' \<notin> set s \<Longrightarrow> CHR '']'' \<notin> set s \<Longrightarrow>
    fold split_step s (res, cur, Suc d) = (res, cur @ s, Suc d)"
  by (induction s arbitrary: cur) auto

lemma splitList_items:
  assumes "\<And>e. e \<in> set es \<Longrightarrow> list_item e"
  shows "splitList (join '','' es) = es"
proof -
  have "(case fold split_step (join '','' es) (res, [], 0) of (result, current, depth) \<Rightarrow>
      if current \<noteq> []
      then (let part = trim_space current in if part \<noteq> [] then result @ [part] else result)
      else result) = res @ es" for res
    using assms
  proof (induction "'',''" es arbitrary: res rule: join.induct)
    case (2 x)
    then show ?case by (simp add: list_item_def trim_space_id)
  next
    case (3 x y ys)
    have "fold split_step (join '','' (x # y # ys)) (res, [], 0) =
        fold split_step (join '','' (y # ys)) (res @ [x], [], 0)"
      using 3(2) [of x] by (simp add: list_item_def trim_space_id)
    then show ?case using 3(1) [of "res @ [x]"] 3(2) by simp
  qed simp
  from this [of "[]"] show ?thesis by (simp add: splitList_def)
qed

text \<open>Names that can appear in a comma-separated list: not blank, no comma, no white space.\<close>

definition list_safe :: "string \<Rightarrow> bool" where
  "list_safe n \<longleftrightarrow> n \<noteq> [] \<and> CHR '','' \<notin> set n \<and> (\<forall>c \<in> set n. \<not> is_space c)"

lemma digit_not_space: "is_digit c \<Longrightarrow> \<not> is_space c"
  by (auto simp: is_digit_def is_space_def)

lemma list_item_group:
  assumes "numbers ns" and "CHR ''['' \<notin> set p" and "CHR '','' \<notin> set p" and "\<forall>c \<in> set p. \<not> is_space c"
    and "ns = [] \<longrightarrow> p \<noteq> []"
  shows "list_item (p @ compressRange ns)"
proof (cases "length ns \<ge> 2")
  case False
  then consider "ns = []" | d where "ns = [d]"
    by (cases ns rule: list.exhaust; cases "tl ns") auto
  then have "\<exists>d. compressRange ns = d \<and> list_all is_digit d \<and> p @ d \<noteq> []"
    using assms(1,5) by cases (auto simp: compressRange_def numbers_def)
  then obtain d where d: "compressRange ns = d" "list_all is_digit d" "p @ d \<noteq> []" by blast
  have "\<not> is_space c" if "c \<in> set (p @ d)" for c
    using that assms(4) d(2) digit_not_space by (auto simp: list_all_iff)
  then have "\<not> is_space (hd (p @ d))" "\<not> is_space (last (p @ d))"
    using d(3) by (meson hd_in_set last_in_set)+
  moreover have plain: "fold split_step (p @ d) (res, cur, 0) = (res, cur @ p @ d, 0)" for res cur
    by (rule split_plain) (use assms(2,3) d(2) number_no_sep in \<open>auto\<close>)
  ultimately show ?thesis
    unfolding list_item_def d(1) using d(3) by (simp only: plain) simp
next
  case True
  then obtain a b rest where ns: "ns = a # b # rest"
    by (metis Suc_le_length_iff numeral_2_eq_2)
  define body where "body = join '','' (compress_loop a a (b # rest))"
  have num: "numbers (a # a # b # rest)" using assms(1) by (auto simp: ns numbers_def)
  have "CHR ''['' \<notin> set body" and "CHR '']'' \<notin> set body"
    using join_compress_chars [OF num, of "CHR ''[''"] join_compress_chars [OF num, of "CHR '']''"]
    by (auto simp: body_def is_digit_def simp del: compress_loop.simps)
  then have "fold split_step (p @ ''['' @ body @ '']'') (res, cur, 0) = (res, cur @ p @ ''['' @ body @ '']'', 0)"
    for res cur
    using assms(2,3) by (simp add: split_plain split_inner)
  moreover have "compressRange ns = ''['' @ body @ '']''"
    by (simp add: compressRange_def ns body_def)
  moreover have "\<not> is_space (hd (p @ ''['' @ body @ '']''))"
    using assms(4) by (cases p) (auto simp: is_space_def)
  moreover have "\<not> is_space (last (p @ ''['' @ body @ '']''))" by (simp add: is_space_def)
  ultimately show ?thesis by (simp add: list_item_def)
qed

lemma Compact_items:
  assumes "compactable nodes" and "\<forall>n \<in> set nodes. list_safe n" and "e \<in> set (Compact nodes)"
  shows "list_item e"
proof -
  have "no_clash nodes" using assms(1) by (simp add: compactable_def)
  then obtain k where k: "k \<in> group_key ` set nodes"
    and e: "e = k @ compressRange (sort_key atoi (nums_of k nodes))"
    using assms(3) by (auto simp: Compact_eq)
  obtain n where n: "n \<in> set nodes" "k = group_key n" using k by auto
  have sub: "set k \<subseteq> set n"
    by (auto simp: n group_key_def split: option.splits dest: compact_match_SomeD)
  have "k \<noteq> []" if "nums_of k nodes = []"
    using that n assms(2) nums_of_nonempty [of n nodes]
    by (cases "compact_match n") (auto simp: group_key_def list_safe_def)
  then show ?thesis
    unfolding e using sub n(1) assms(1,2) nums_of_numbers [of k nodes]
    by (intro list_item_group) (auto simp: numbers_def list_safe_def compactable_def)
qed

section \<open>Order independence\<close>

lemma mset_nums_of_cong: "mset xs = mset ys \<Longrightarrow> mset (nums_of k xs) = mset (nums_of k ys)"
  by (simp add: nums_of_def mset_map mset_filter)

lemma atoi_inj:
  assumes "numbers ns" and "regular_numbers ns"
  shows "inj_on atoi (set ns)"
proof (rule inj_onI)
  fix a b assume ab: "a \<in> set ns" "b \<in> set ns" "atoi a = atoi b"
  then have "digits_val a = digits_val b"
    using assms by (auto simp: numbers_def regular_numbers_def atoi_number)
  then have "zpad (length a) (digits_val a) = b"
    using ab assms(2) by (auto simp: regular_numbers_def)
  moreover have "zpad (length a) (digits_val a) = a"
    using ab assms(1) by (simp add: numbers_def zpad_self)
  ultimately show "a = b" by simp
qed

lemma Compact_mset_cong:
  assumes "compactable xs" and "mset xs = mset ys"
  shows "Compact xs = Compact ys"
proof -
  have sets: "set xs = set ys" using assms(2) by (rule mset_eq_setD)
  have clash: "no_clash xs" "no_clash ys"
    using assms(1) sets by (auto simp: compactable_def no_clash_def)
  have "sort_key atoi (nums_of k xs) = sort_key atoi (nums_of k ys)" if "k \<in> group_key ` set xs" for k
    using that assms nums_of_numbers [of k xs]
    by (intro sort_key_mset_cong mset_nums_of_cong atoi_inj) (auto simp: compactable_def)
  then show ?thesis using clash sets by (simp add: Compact_eq)
qed


section \<open>Properties\<close>

text \<open>
  C1. A comma-separated node list survives the compact notation: writing the names with
  \<open>Compact\<close>, joining the parts with commas and reading the text back with
  \<open>ExpandList\<close> gives the same names, each as often as before, whenever the names are
  compactable and can stand in such a list.
\<close>

theorem ExpandList_Compact:
  assumes "compactable nodes" and "\<forall>n \<in> set nodes. list_safe n"
  shows "mset (ExpandList (join '','' (Compact nodes))) = mset nodes"
proof -
  have "splitList (join '','' (Compact nodes)) = Compact nodes"
    by (rule splitList_items, rule Compact_items [OF assms])
  then show ?thesis using Expand_Compact_mset assms(1) by (simp add: ExpandList_def)
qed

definition sample_nodes :: "string list" where
  "sample_nodes = [''n07'', ''n02'', ''def'', ''n03'', ''x10'', ''n04'', ''x9'']"

lemma sample_regular:
  "regular_numbers [''07'', ''02'', ''03'', ''04'']" "regular_numbers [''10'', ''9'']"
  "regular_numbers []"
proof -
  have "show_nat 2 = ''2''" "show_nat 3 = ''3''" "show_nat 4 = ''4''" "show_nat 7 = ''7''"
    "show_nat 9 = ''9''" "show_nat 10 = ''10''"
    by (simp_all add: show_nat.simps digit_char_def)
  then show "regular_numbers [''07'', ''02'', ''03'', ''04'']" "regular_numbers [''10'', ''9'']"
    "regular_numbers []"
    by (simp_all add: regular_numbers_def digits_val_def digit_val_def zpad_def max_int64_def)
qed

lemma sample_compactable: "compactable sample_nodes"
proof -
  have "no_clash sample_nodes"
    by (simp add: sample_nodes_def no_clash_def group_key_def compact_match_def is_digit_def)
  then show ?thesis
    unfolding compactable_def using sample_regular
    by (simp add: sample_nodes_def group_key_def compact_match_def is_digit_def nums_of_def)
qed

lemma sample_safe: "\<forall>n \<in> set sample_nodes. list_safe n"
  by (simp add: sample_nodes_def list_safe_def is_space_def)

lemma sample_Compact: "Compact sample_nodes = [''def'', ''n[02-04,07]'', ''x[9-10]'']"
  by code_simp

theorem ExpandList_Compact_witness:
  "Compact sample_nodes = [''def'', ''n[02-04,07]'', ''x[9-10]''] \<and>
   mset (ExpandList (join '','' (Compact sample_nodes))) = mset sample_nodes"
  using ExpandList_Compact [OF sample_compactable sample_safe] sample_Compact by simp

text \<open>
  C2. The compact form depends only on which names are given and how often, not on their
  order, for compactable names.
\<close>

theorem Compact_order_independent:
  assumes "compactable xs" and "mset xs = mset ys"
  shows "Compact xs = Compact ys"
  using assms by (rule Compact_mset_cong)

theorem Compact_order_independent_witness:
  "Compact sample_nodes = Compact (rev sample_nodes)"
  using Compact_order_independent [of sample_nodes "rev sample_nodes"] sample_compactable by simp

text \<open>
  \<open>compactable\<close> is needed: a name without trailing digits that is also the prefix of
  numbered names shares their map entry, so the later of the two overwrites or absorbs the other
  and one of the names is lost.
\<close>

theorem Compact_prefix_clash:
  assumes "p \<noteq> []" and "\<not> is_digit (last p)" and "CHR 0x0A \<notin> set p"
    and "d \<noteq> []" and "list_all is_digit d"
  shows "Compact [p @ d, p] = [p] \<and> Compact [p, p @ d] = [p @ d]"
proof -
  have "compact_match (p @ d) = Some (p, d)" using assms by (simp add: compact_match_append)
  moreover have "compact_match p = None" using assms by (simp add: compact_match_None_last)
  ultimately show ?thesis
    by (simp add: Compact_def add_to_group_def mget0_def compressRange_def)
qed

theorem Compact_prefix_clash_witness:
  "Compact [''rack12'', ''rack''] = [''rack''] \<and> Compact [''rack'', ''rack12''] = [''rack12'']"
  using Compact_prefix_clash [of "''rack''" "''12''"] by (simp add: is_digit_def)

end
