(* ===== verification/Topology.thy ===== *)
theory Topology
  imports Prelude
begin

text \<open>
  \<open>pkg/topology/topology.go\<close>, \<open>block.go\<close> and \<open>request.go\<close>: the vertex of a topology
  graph, the map of accelerator domains and its translation into blocks, and the topology request.

  A \<open>*Vertex\<close> is a finite tree here; code that can build a cyclic or partly nil structure is
  modelled over a store (theory \<open>Graph\<close>) or with an outcome of its own (\<open>Merger\<close>).
  \<open>json.Unmarshal\<close> is an argument of \<open>GetTopologyRequest\<close>, and the printing of
  \<open>any\<close> values one of \<open>map2string\<close>.

  The main results: \<open>ToBlocks\<close> gives every domain a block of its own, numbered by the sorted
  order of the domain names, whatever the order of the map; the text of a request never contains
  a credential.
\<close>

section \<open>Constants\<close>

definition KeyUID :: string where "KeyUID = ''uid''"
definition KeyNamespace :: string where "KeyNamespace = ''namespace''"
definition KeyPodSelector :: string where "KeyPodSelector = ''podSelector''"
definition KeyNodeSelector :: string where "KeyNodeSelector = ''nodeSelector''"
definition KeyTopoConfigPath :: string where "KeyTopoConfigPath = ''topologyConfigPath''"
definition KeyTopoConfigmapName :: string where "KeyTopoConfigmapName = ''topologyConfigmapName''"
definition KeyBlockSizes :: string where "KeyBlockSizes = ''block_sizes''"
definition KeyPlugin :: string where "KeyPlugin = ''plugin''"
definition TopologyTree :: string where "TopologyTree = ''topology/tree''"
definition TopologyBlock :: string where "TopologyBlock = ''topology/block''"
definition TopologyFlat :: string where "TopologyFlat = ''topology/flat''"
definition NoTopology :: string where "NoTopology = ''no-topology''"
definition KeyNodeInstance :: string where "KeyNodeInstance = ''topograph.nvidia.com/instance''"
definition KeyNodeRegion :: string where "KeyNodeRegion = ''topograph.nvidia.com/region''"
definition KeyNodeClusterID :: string where "KeyNodeClusterID = ''topograph.nvidia.com/cluster-id''"

definition KeyConfigMapEngine :: string where
  "KeyConfigMapEngine = ''topograph.nvidia.com/engine''"
definition KeyConfigMapTopologyManagedBy :: string where
  "KeyConfigMapTopologyManagedBy = ''topograph.nvidia.com/topology-managed-by''"
definition KeyConfigMapLastUpdated :: string where
  "KeyConfigMapLastUpdated = ''topograph.nvidia.com/last-updated''"
definition KeyConfigMapPlugin :: string where
  "KeyConfigMapPlugin = ''topograph.nvidia.com/plugin''"
definition KeyConfigMapBlockSizes :: string where
  "KeyConfigMapBlockSizes = ''topograph.nvidia.com/block-sizes''"
definition KeyConfigMapNamespace :: string where
  "KeyConfigMapNamespace = ''topograph.nvidia.com/slurm-namespace''"

section \<open>Vertices\<close>

datatype vertex = Vertex (Name: string) (ID: string) (Vertices: "(string \<times> vertex) list")
  (Metadata: "(string \<times> string) list")

definition Vertex_String :: "vertex \<Rightarrow> string" where
  "Vertex_String v =
     ''ID:'' @ quote (ID v) @ '' Name:'' @ quote (Name v) @ '' Vertices: '' @
     join '','' (map (\<lambda>w. ID w) (mvals (Vertices v)))"

text \<open>A vertex without children or metadata, and the leaves of a tree of vertices.\<close>

abbreviation leaf :: "string \<Rightarrow> string \<Rightarrow> vertex" where
  "leaf name i \<equiv> Vertex name i [] []"

fun leaves :: "vertex \<Rightarrow> vertex list" where
  "leaves (Vertex n i [] m) = [Vertex n i [] m]"
| "leaves (Vertex n i (c # cs) m) = concat (map (\<lambda>(k, v). leaves v) (c # cs))"

fun height :: "vertex \<Rightarrow> nat" where
  "height (Vertex n i cs m) = Suc (foldr (\<lambda>(k, v). max (height v)) cs 0)"

text \<open>All vertices of a tree.\<close>

fun subs :: "vertex \<Rightarrow> vertex list" where
  "subs (Vertex n i cs m) = Vertex n i cs m # concat (map (\<lambda>(k, w). subs w) cs)"

lemma subs_self [simp]: "v \<in> set (subs v)"
  by (cases v) simp

lemma subs_unfold: "subs v = v # concat (map subs (mvals (Vertices v)))"
  by (cases v) (simp add: comp_def case_prod_unfold)

lemma foldr_max_ge: "x \<in> set xs \<Longrightarrow> f x \<le> foldr (\<lambda>x. max (f x)) xs (0 :: nat)"
  by (induction xs) auto

lemma height_child: "(k, w) \<in> set (Vertices v) \<Longrightarrow> height w < height v"
  using foldr_max_ge [of "(k, w)" "Vertices v" "\<lambda>(k, v). height v"]
  by (cases v) (simp add: case_prod_unfold less_Suc_eq_le)

lemma height_pos [simp]: "0 < height v"
  by (cases v) simp

section \<open>Domain maps\<close>

type_synonym domain_map = "(string, (string, string) gomap) gomap"

definition NewDomainMap :: domain_map where
  "NewDomainMap = []"

definition AddHost :: "string \<Rightarrow> string \<Rightarrow> string \<Rightarrow> domain_map \<Rightarrow> domain_map" where
  "AddHost domain instance' host m =
     (let d = (case map_of m domain of Some d \<Rightarrow> d | None \<Rightarrow> [])
      in mput domain (mput host instance' d) m)"

definition block_id :: "nat \<Rightarrow> string" where
  "block_id n = ''block'' @ zpad 3 n"

definition block_vertex :: "domain_map \<Rightarrow> nat \<Rightarrow> string \<Rightarrow> vertex" where
  "block_vertex m i domainName =
     (let nodeMap = mget0 [] m domainName;
          nodes = sort (mkeys nodeMap)
      in Vertex domainName (block_id (Suc i))
           (fold (\<lambda>node. mput node (leaf node (mget0 [] nodeMap node))) nodes []) [])"

definition ToBlocks :: "domain_map \<Rightarrow> vertex" where
  "ToBlocks m =
     (let domainNames = sort (mkeys m)
      in Vertex [] []
           (fold (\<lambda>(i, domainName). mput domainName (block_vertex m i domainName))
              (enumerate 0 domainNames) []) [])"

text \<open>\<open>%v\<close> of a \<open>map[string]string\<close> prints the entries in the order of their keys.\<close>

definition fmt_map :: "(string, string) gomap \<Rightarrow> string" where
  "fmt_map m = ''map['' @ join '' '' (map (\<lambda>k. k @ '':'' @ mget0 [] m k) (sort (mkeys m))) @ '']''"

definition DomainMap_String :: "domain_map \<Rightarrow> string" where
  "DomainMap_String m =
     ''DomainMap:'' @ newline @ concat (map (\<lambda>(d, m). '' '' @ d @ '' : '' @ fmt_map m @ newline) m)"

subsection \<open>Hosts of a domain map\<close>

definition wf_domains :: "domain_map \<Rightarrow> bool" where
  "wf_domains m \<longleftrightarrow> distinct (mkeys m) \<and> (\<forall>(d, hs) \<in> set m. distinct (mkeys hs))"

text \<open>The instance of a host in a domain.\<close>

definition host_of :: "domain_map \<Rightarrow> string \<Rightarrow> string \<Rightarrow> string option" where
  "host_of m d h = (case map_of m d of None \<Rightarrow> None | Some hs \<Rightarrow> map_of hs h)"

lemma host_of_New [simp]: "host_of NewDomainMap d h = None"
  by (simp add: host_of_def NewDomainMap_def)

lemma host_of_AddHost:
  "host_of (AddHost d i h m) d' h' = (if d' = d \<and> h' = h then Some i else host_of m d' h')"
  by (auto simp: host_of_def AddHost_def update_conv' Let_def split: option.splits)

lemma AddHost_keys [simp]: "set (mkeys (AddHost d i h m)) = insert d (set (mkeys m))"
  by (simp add: AddHost_def Let_def mkeys_mput del: set_map)

lemma set_mput_subset: "set (mput k v m) \<subseteq> insert (k, v) (set m)"
  by (induction m) auto

lemma wf_NewDomainMap [simp]: "wf_domains NewDomainMap"
  by (simp add: wf_domains_def NewDomainMap_def)

lemma wf_AddHost [simp]: "wf_domains m \<Longrightarrow> wf_domains (AddHost d i h m)"
proof -
  assume wf: "wf_domains m"
  have "distinct (mkeys (mput h i (case map_of m d of Some hs \<Rightarrow> hs | None \<Rightarrow> [])))"
    using wf by (intro mput_distinct) (auto simp: wf_domains_def split: option.splits dest!: map_of_SomeD)
  then show ?thesis
    using wf set_mput_subset [of d _ m] unfolding wf_domains_def AddHost_def Let_def
    by (fastforce simp: mput_distinct)
qed

subsection \<open>Blocks\<close>

lemma block_id_inj: "block_id m = block_id n \<Longrightarrow> m = n"
  unfolding block_id_def by (metis append_eq_append_conv digits_val_zpad)


lemma enumerate_fold_nth:
  assumes "distinct ks" and "i < length ks"
  shows "map_of (fold (\<lambda>(i, k). mput k (f i k)) (enumerate n ks) m) (ks ! i) = Some (f (n + i) (ks ! i))"
proof -
  have split: "(\<lambda>(i, k). mput k (f i k)) = (\<lambda>x. mput (snd x) (f (fst x) (snd x)))" by auto
  have "inj_on snd (set (enumerate n ks))"
    using assms(1) by (metis distinct_map map_snd_enumerate)
  moreover have "(n + i, ks ! i) \<in> set (enumerate n ks)"
    using assms(2) by (auto simp: in_set_enumerate_eq)
  ultimately show ?thesis
    using alm.put_all_inj [of snd "enumerate n ks" "(n + i, ks ! i)" "\<lambda>x. f (fst x) (snd x)" m]
    by (simp add: split)
qed

lemma enumerate_fold_keys:
  "set (mkeys (fold (\<lambda>(i, k). mput k (f i k)) (enumerate n ks) m)) = set ks \<union> set (mkeys m)"
  by (induction ks arbitrary: n m) (auto simp: mkeys_mput simp del: set_map)

lemma enumerate_fold_distinct:
  "distinct (mkeys m) \<Longrightarrow> distinct (mkeys (fold (\<lambda>(i, k). mput k (f i k)) (enumerate n ks) m))"
  by (induction ks arbitrary: n m) (simp_all add: distinct_update)

lemma ToBlocks_keys: "set (mkeys (Vertices (ToBlocks m))) = set (mkeys m)"
  using enumerate_fold_keys [of "block_vertex m" 0 "sort (mkeys m)" "[]"]
  by (simp add: ToBlocks_def Let_def del: set_map)

lemma ToBlocks_nth:
  assumes "wf_domains m" and "i < length m"
  shows "map_of (Vertices (ToBlocks m)) (sort (mkeys m) ! i) = Some (block_vertex m i (sort (mkeys m) ! i))"
  using enumerate_fold_nth [of "sort (mkeys m)" i "block_vertex m" 0 "[]"] assms
  by (simp add: ToBlocks_def wf_domains_def)

lemma block_vertex_hosts:
  assumes "wf_domains m"
  shows "map_of (Vertices (block_vertex m i d)) h = map_option (leaf h) (host_of m d h)"
proof (cases "map_of m d")
  case None
  then show ?thesis by (simp add: block_vertex_def host_of_def mget0_def)
next
  case (Some hs)
  have "map_of (Vertices (block_vertex m i d)) h =
      (if h \<in> set (mkeys hs) then Some (leaf h (mget0 [] hs h)) else None)"
    unfolding block_vertex_def mget0_def [of "[]" m] Some Let_def
    by (simp add: alm.put_all_const [where f = "\<lambda>node. node" and h = "\<lambda>node. leaf node (mget0 [] hs node)"]
        del: set_map)
  then show ?thesis
    using set_fst_map_of [of h hs] by (simp add: host_of_def Some mget0_def del: set_map split: option.splits)
qed

lemma block_vertex_fields [simp]: "Name (block_vertex m i d) = d" "ID (block_vertex m i d) = block_id (Suc i)"
  by (simp_all add: block_vertex_def Let_def)

lemma wf_domains_entry: "wf_domains m \<Longrightarrow> map_of m d = Some hs \<Longrightarrow> distinct (mkeys hs)"
  by (auto simp: wf_domains_def dest!: map_of_SomeD)

lemma block_vertex_cong:
  assumes "wf_domains m" and "wf_domains m'" and "d \<in> set (mkeys m)" and "d \<in> set (mkeys m')"
    and "host_of m d = host_of m' d"
  shows "block_vertex m i d = block_vertex m' i d"
proof -
  obtain hs hs' where e: "map_of m d = Some hs" "map_of m' d = Some hs'"
    using assms(3,4) unfolding set_fst_map_of by auto
  then have eq: "map_of hs = map_of hs'"
    using assms(5) by (simp add: host_of_def fun_eq_iff)
  then have "sort (mkeys hs) = sort (mkeys hs')"
    using e assms(1,2) wf_domains_entry by (intro sorted_keys_cong) blast+
  moreover have "mget0 [] hs = mget0 [] hs'" using eq by (simp add: mget0_def fun_eq_iff)
  ultimately show ?thesis by (simp add: block_vertex_def mget0_def [of "[]" m] mget0_def [of "[]" m'] e)
qed

section \<open>Requests\<close>

record 'v provider =
  prv_Name :: string
  prv_Creds :: "(string, string) gomap"
  prv_Params :: "(string, 'v) gomap"

record 'v engine =
  eng_Name :: string
  eng_Params :: "(string, 'v) gomap"

record compute_instances =
  Region :: string
  Instances :: "(string, string) gomap"

record 'v request =
  req_Provider :: "'v provider"
  req_Engine :: "'v engine"
  req_Nodes :: "compute_instances list"

definition empty_request :: "'v request" where
  "empty_request =
     \<lparr>req_Provider = \<lparr>prv_Name = [], prv_Creds = [], prv_Params = []\<rparr>,
      req_Engine = \<lparr>eng_Name = [], eng_Params = []\<rparr>, req_Nodes = []\<rparr>"

definition NewRequest :: "'v provider \<Rightarrow> 'v engine \<Rightarrow> 'v request" where
  "NewRequest prv eng = empty_request\<lparr>req_Provider := prv, req_Engine := eng\<rparr>"

definition spacer :: "string \<Rightarrow> string" where
  "spacer value = (if length value > 0 then '' '' @ value else [])"

text \<open>\<open>map2string\<close>, with the \<open>%v\<close> of the value type as an argument.\<close>

definition map2string :: "('v \<Rightarrow> string) \<Rightarrow> (string, 'v) gomap \<Rightarrow> string \<Rightarrow> bool \<Rightarrow> string \<Rightarrow> string" where
  "map2string fmt m pre hide suffix' =
     pre @ '': ['' @
     (if length m \<noteq> 0
      then join '' '' (map (\<lambda>key. if hide then key @ '':***''
                              else key @ '':'' @ (case map_of m key of Some v \<Rightarrow> fmt v | None \<Rightarrow> []))
                        (sort (mkeys m)))
      else []) @
     '']'' @ suffix'"

definition Request_String :: "('v \<Rightarrow> string) \<Rightarrow> 'v request \<Rightarrow> string" where
  "Request_String fmt p =
     ''TopologyRequest:'' @ newline @
     ''  Provider:'' @ spacer (prv_Name (req_Provider p)) @ newline @
     map2string (\<lambda>s. s) (prv_Creds (req_Provider p)) ''  Credentials'' True newline @
     map2string fmt (prv_Params (req_Provider p)) ''  Parameters'' False newline @
     ''  Engine:'' @ spacer (eng_Name (req_Engine p)) @ newline @
     map2string fmt (eng_Params (req_Engine p)) ''  Parameters'' False newline @
     ''  Nodes:'' @
     concat (map (\<lambda>nodes. '' '' @ map2string (\<lambda>s. s) (Instances nodes) (Region nodes) False []) (req_Nodes p)) @
     newline"

text \<open>\<open>json.Unmarshal\<close> into a request is the argument \<open>unmarshal\<close>.\<close>

definition GetTopologyRequest :: "(string \<Rightarrow> 'v request res) \<Rightarrow> string \<Rightarrow> 'v request res" where
  "GetTopologyRequest unmarshal body =
     (if length body = 0 then Inr empty_request
      else (case unmarshal body of
              Inl err \<Rightarrow> Inl (''failed to parse payload: '' @ err)
            | Inr payload \<Rightarrow> Inr payload))"

definition GetNodeNameList :: "compute_instances list \<Rightarrow> string list" where
  "GetNodeNameList cis = concat (map (\<lambda>ci. mvals (Instances ci)) cis)"

definition GetNodeNameMap :: "compute_instances list \<Rightarrow> (string, bool) gomap" where
  "GetNodeNameMap cis = fold (\<lambda>ci m. fold (\<lambda>node. mput node True) (mvals (Instances ci)) m) cis []"

lemma GetNodeNameMap_keys:
  "set (mkeys (GetNodeNameMap cis)) = set (GetNodeNameList cis)"
proof -
  have inner: "set (mkeys (fold (\<lambda>node. mput node True) ns m)) = set ns \<union> set (mkeys m)" for ns and m :: "(string, bool) gomap"
    by (induction ns arbitrary: m) (auto simp: mkeys_mput simp del: set_map)
  have "set (mkeys (fold (\<lambda>ci m. fold (\<lambda>node. mput node True) (mvals (Instances ci)) m) cis m)) =
      set (GetNodeNameList cis) \<union> set (mkeys m)" for m
    by (induction cis arbitrary: m) (auto simp: inner GetNodeNameList_def simp del: set_map)
  from this [of "[]"] show ?thesis by (simp add: GetNodeNameMap_def del: set_map)
qed

text \<open>The text of a map does not depend on its iteration order, and with \<open>hide\<close> not on its values.\<close>

lemma map2string_cong:
  assumes "map_of m = map_of m'" and "distinct (mkeys m)" and "distinct (mkeys m')"
  shows "map2string fmt m pre hide suf = map2string fmt m' pre hide suf"
proof -
  have "length m = length m'" using gomap_eq_mset [OF assms] by (metis size_mset)
  moreover have "sort (mkeys m) = sort (mkeys m')" by (rule sorted_keys_cong [OF assms])
  ultimately show ?thesis by (cases hide) (simp_all add: map2string_def assms(1))
qed

lemma map2string_hide:
  "sort (mkeys m) = sort (mkeys m') \<Longrightarrow> map2string fmt m pre True suf = map2string fmt' m' pre True suf"
proof -
  assume eq: "sort (mkeys m) = sort (mkeys m')"
  then have "length (sort (mkeys m)) = length (sort (mkeys m'))" by (rule arg_cong)
  then have "length m = length m'" by simp
  with eq show ?thesis by (simp add: map2string_def)
qed

section \<open>Properties\<close>

text \<open>
  C3. \<open>ToBlocks\<close> gives each accelerator domain exactly one block: the block of the i-th
  domain name in sorted order has the domain as its name, the ID \<open>block\<close> and i+1 in at least
  three digits, and as its vertices exactly the hosts of the domain with their instances; no two
  domains get the same ID.
\<close>

theorem ToBlocks_spec:
  assumes "wf_domains m" and "i < length m"
  defines "d \<equiv> sort (mkeys m) ! i"
  shows "set (mkeys (Vertices (ToBlocks m))) = set (mkeys m) \<and>
    (\<exists>b. map_of (Vertices (ToBlocks m)) d = Some b \<and> Name b = d \<and> ID b = ''block'' @ zpad 3 (i + 1) \<and>
       (\<forall>h. map_of (Vertices b) h = map_option (leaf h) (host_of m d h)) \<and>
       (\<forall>j < length m. j \<noteq> i \<longrightarrow>
          ID (the (map_of (Vertices (ToBlocks m)) (sort (mkeys m) ! j))) \<noteq> ID b))"
proof -
  have nth: "map_of (Vertices (ToBlocks m)) (sort (mkeys m) ! j) = Some (block_vertex m j (sort (mkeys m) ! j))"
    if "j < length m" for j
    using that by (rule ToBlocks_nth [OF assms(1)])
  have "\<forall>j < length m. j \<noteq> i \<longrightarrow>
      ID (the (map_of (Vertices (ToBlocks m)) (sort (mkeys m) ! j))) \<noteq> ID (block_vertex m i d)"
    using nth by (auto dest: block_id_inj)
  moreover have "map_of (Vertices (ToBlocks m)) d = Some (block_vertex m i d)"
    using nth [OF assms(2)] by (simp only: d_def)
  moreover have "ID (block_vertex m i d) = ''block'' @ zpad 3 (i + 1)"
    by (simp add: block_id_def)
  moreover have "Name (block_vertex m i d) = d" by simp
  moreover have "\<forall>h. map_of (Vertices (block_vertex m i d)) h = map_option (leaf h) (host_of m d h)"
    using block_vertex_hosts [OF assms(1)] by blast
  ultimately show ?thesis using ToBlocks_keys [of m] by blast
qed

definition sample_domains :: domain_map where
  "sample_domains = AddHost ''nvl2'' ''i-3'' ''n3'' (AddHost ''nvl1'' ''i-2'' ''n2''
     (AddHost ''nvl2'' ''i-1'' ''n1'' NewDomainMap))"

theorem ToBlocks_spec_witness:
  "\<exists>b. map_of (Vertices (ToBlocks sample_domains)) (sort (mkeys sample_domains) ! 1) = Some b \<and>
     Name b = sort (mkeys sample_domains) ! 1 \<and> ID b = ''block'' @ zpad 3 (1 + 1)"
proof -
  have "wf_domains sample_domains" by (simp add: sample_domains_def)
  moreover have "1 < length sample_domains"
    by (simp add: sample_domains_def AddHost_def NewDomainMap_def)
  ultimately show ?thesis using ToBlocks_spec [of sample_domains 1] by blast
qed

text \<open>
  The blocks depend only on which host is in which domain, not on the iteration order of the
  two levels of maps.
\<close>

theorem ToBlocks_order_independent:
  assumes "wf_domains m" and "wf_domains m'" and "set (mkeys m) = set (mkeys m')"
    and "host_of m = host_of m'"
  shows "ToBlocks m = ToBlocks m'"
proof -
  have "sort (mkeys m) = sort (mkeys m')"
    using assms(1-3) unfolding wf_domains_def by (metis sort_mset_cong set_eq_iff_mset_eq_distinct)
  moreover have "fold (\<lambda>(i, d). mput d (block_vertex m i d)) (enumerate 0 (sort (mkeys m))) vs =
      fold (\<lambda>(i, d). mput d (block_vertex m' i d)) (enumerate 0 (sort (mkeys m))) vs" for vs
    using assms(3) block_vertex_cong [OF assms(1,2)] assms(4)
    by (intro fold_cong) (auto simp: in_set_enumerate_eq simp del: set_map, metis length_map length_sort nth_mem set_sort)
  ultimately show ?thesis by (simp add: ToBlocks_def)
qed

theorem ToBlocks_order_independent_witness:
  "ToBlocks sample_domains = ToBlocks (rev sample_domains)"
proof -
  have "wf_domains sample_domains" "wf_domains (rev sample_domains)"
    "host_of sample_domains = host_of (rev sample_domains)"
    by (auto simp: sample_domains_def AddHost_def NewDomainMap_def wf_domains_def host_of_def fun_eq_iff)
  then show ?thesis using ToBlocks_order_independent [of sample_domains "rev sample_domains"] by simp
qed

text \<open>
  C4. No credential reaches the log: the text of a request is the same for any two requests that
  differ only in the values of the provider's credentials.
\<close>

theorem Request_String_hides_credentials:
  assumes "mset (mkeys creds) = mset (mkeys creds')"
  shows "Request_String fmt (r\<lparr>req_Provider := (req_Provider r)\<lparr>prv_Creds := creds\<rparr>\<rparr>) =
    Request_String fmt (r\<lparr>req_Provider := (req_Provider r)\<lparr>prv_Creds := creds'\<rparr>\<rparr>)"
  using map2string_hide [OF sort_mset_cong [OF assms]] by (simp add: Request_String_def)

definition sample_request :: "string request" where
  "sample_request = NewRequest \<lparr>prv_Name = ''aws'', prv_Creds = [], prv_Params = []\<rparr>
     \<lparr>eng_Name = ''slurm'', eng_Params = []\<rparr>"

theorem Request_String_hides_credentials_witness:
  "Request_String (\<lambda>s. s) (sample_request\<lparr>req_Provider := (req_Provider sample_request)
     \<lparr>prv_Creds := [(''id'', ''me''), (''key'', ''secret'')]\<rparr>\<rparr>) =
   Request_String (\<lambda>s. s) (sample_request\<lparr>req_Provider := (req_Provider sample_request)
     \<lparr>prv_Creds := [(''key'', ''other''), (''id'', ''you'')]\<rparr>\<rparr>)"
  by (rule Request_String_hides_credentials) simp

end
