(* ===== verification/Graph.thy ===== *)
theory Graph
  imports Topology
begin

text \<open>
  \<open>pkg/topology/graph.go\<close>: from the network attributes of instances to the graph of the
  cluster.

  \<open>ToThreeTierGraph\<close> shares one mutable switch vertex between all instances below it, so the
  loop runs over an explicit store: \<open>cells\<close> maps a switch ID to the name and children of its
  vertex (the code's map \<open>nodes\<close>), and a \<open>vref\<close> is a pointer to a compute node or to a
  switch. \<open>to_vertex\<close> unfolds a pointer into a tree; its fuel is the number of switches plus one,
  which is enough for every graph without a cycle (a path visits a switch at most once), so the result
  \<open>None\<close> stands for a cyclic graph of pointers.

  The main results: when the IDs of the three tiers are disjoint the graph is a finite tree whose
  compute nodes are exactly the requested ones; \<open>Normalize\<close> names the switches injectively and
  independently of the order of the instances; an instance whose block and spine have the same ID makes
  the graph cyclic.
\<close>

section \<open>Instances\<close>

record InstanceTopology =
  InstanceID :: string
  BlockID :: string
  BlockName :: string
  SpineID :: string
  SpineName :: string
  DatacenterID :: string
  DatacenterName :: string
  AcceleratorID :: string

definition tier_text :: "string \<Rightarrow> string \<Rightarrow> string \<Rightarrow> string" where
  "tier_text label i name =
     (if length i \<noteq> 0
      then label @ i @ (if length name \<noteq> 0 then '' ('' @ name @ '')'' else [])
      else [])"

definition InstanceTopology_String :: "InstanceTopology \<Rightarrow> string" where
  "InstanceTopology_String inst =
     ''Instance:'' @ InstanceID inst @
     tier_text '' Block:'' (BlockID inst) (BlockName inst) @
     tier_text '' Spine:'' (SpineID inst) (SpineName inst) @
     tier_text '' Datacenter:'' (DatacenterID inst) (DatacenterName inst) @
     (if length (AcceleratorID inst) \<noteq> 0 then '' Accelerator:'' @ AcceleratorID inst else [])"

type_synonym cluster = "InstanceTopology list"

definition NewClusterTopology :: cluster where
  "NewClusterTopology = []"

definition Append :: "InstanceTopology \<Rightarrow> cluster \<Rightarrow> cluster" where
  "Append inst c = c @ [inst]"

definition Len :: "cluster \<Rightarrow> nat" where
  "Len c = length c"

section \<open>Normalize\<close>

text \<open>
  The order of \<open>Normalize\<close> compares the datacenter, spine, block and instance IDs in turn: the
  lexicographic order of the list of the four.
\<close>

definition hierarchy_key :: "InstanceTopology \<Rightarrow> string list" where
  "hierarchy_key inst = [DatacenterID inst, SpineID inst, BlockID inst, InstanceID inst]"

datatype band = blockBand | spineBand | datacenterBand

fun band_num :: "band \<Rightarrow> nat" where
  "band_num blockBand = 1"
| "band_num spineBand = 2"
| "band_num datacenterBand = 3"

definition switch_name :: "band \<Rightarrow> nat \<Rightarrow> string" where
  "switch_name b n = ''switch.'' @ show_nat (band_num b) @ ''.'' @ show_nat n"

text \<open>The counters per band and the names given so far.\<close>

type_synonym naming = "(band \<Rightarrow> nat) \<times> (string, string) gomap"

definition name_switch :: "band \<Rightarrow> string \<Rightarrow> naming \<Rightarrow> string \<times> naming" where
  "name_switch b i s =
     (case s of (counts, switches) \<Rightarrow>
        (case map_of switches i of
           Some name \<Rightarrow> (name, s)
         | None \<Rightarrow>
             (let n = counts b + 1; name = switch_name b n
              in (name, (counts(b := n), mput i name switches)))))"

definition name_instance :: "InstanceTopology \<Rightarrow> naming \<Rightarrow> InstanceTopology \<times> naming" where
  "name_instance inst s =
     (let (bn, s) = name_switch blockBand (BlockID inst) s;
          (sn, s) = name_switch spineBand (SpineID inst) s;
          (dn, s) = name_switch datacenterBand (DatacenterID inst) s
      in (inst\<lparr>BlockName := bn, SpineName := sn, DatacenterName := dn\<rparr>, s))"

fun name_all :: "cluster \<Rightarrow> naming \<Rightarrow> cluster" where
  "name_all [] s = []"
| "name_all (inst # insts) s = (let (inst', s') = name_instance inst s in inst' # name_all insts s')"

definition Normalize :: "cluster \<Rightarrow> cluster" where
  "Normalize c = name_all (sort_key hierarchy_key c) (\<lambda>_. 0, [])"

section \<open>The three-tier graph\<close>

datatype vref = NodeRef string string | SwRef string

fun ref_id :: "vref \<Rightarrow> string" where
  "ref_id (NodeRef name i) = i"
| "ref_id (SwRef i) = i"

record sw_cell =
  sw_name :: string
  sw_children :: "(string, vref) gomap"

type_synonym sw_store = "(string, sw_cell) gomap"

record graph_state =
  i2n :: "(string, string) gomap"
  forest :: "(string, vref) gomap"
  cells :: sw_store
  domains :: domain_map

definition instance_names :: "compute_instances list \<Rightarrow> (string, string) gomap" where
  "instance_names cis = fold (\<lambda>ci. mcopy (Instances ci)) cis []"

text \<open>One turn of the inner loop: hang the current vertex below the switch and go up.\<close>

definition link_step :: "string \<times> string \<Rightarrow> vref \<times> sw_store \<Rightarrow> vref \<times> sw_store" where
  "link_step sw s =
     (case (sw, s) of ((swID, swName), (instance', nodes)) \<Rightarrow>
        if length swID = 0 then (instance', nodes)
        else (let cell = (case map_of nodes swID of
                            Some c \<Rightarrow> c
                          | None \<Rightarrow> \<lparr>sw_name = swName, sw_children = []\<rparr>)
              in (SwRef swID,
                  mput swID (cell\<lparr>sw_children := mput (ref_id instance') instance' (sw_children cell)\<rparr>) nodes)))"

definition tiers_of :: "InstanceTopology \<Rightarrow> (string \<times> string) list" where
  "tiers_of inst =
     [(BlockID inst, BlockName inst), (SpineID inst, SpineName inst), (DatacenterID inst, DatacenterName inst)]"

definition add_instance :: "InstanceTopology \<Rightarrow> graph_state \<Rightarrow> graph_state" where
  "add_instance inst s =
     (case map_of (i2n s) (InstanceID inst) of
        None \<Rightarrow> s
      | Some nodeName \<Rightarrow>
          (let (top, nodes) = fold link_step (tiers_of inst) (NodeRef nodeName (InstanceID inst), cells s)
           in s\<lparr>i2n := mdel (InstanceID inst) (i2n s),
                domains := (if length (AcceleratorID inst) \<noteq> 0
                            then AddHost (AcceleratorID inst) (InstanceID inst) nodeName (domains s)
                            else domains s),
                cells := nodes,
                forest := mput (ref_id top) top (forest s)\<rparr>))"

definition graph_of :: "compute_instances list \<Rightarrow> cluster \<Rightarrow> graph_state" where
  "graph_of cis c = fold add_instance c
     \<lparr>i2n = instance_names cis, forest = [], cells = [], domains = NewDomainMap\<rparr>"

text \<open>The tree below a pointer.\<close>

fun to_vertex :: "nat \<Rightarrow> sw_store \<Rightarrow> vref \<Rightarrow> vertex option" where
  "to_vertex f st (NodeRef name i) = Some (leaf name i)"
| "to_vertex 0 st (SwRef i) = None"
| "to_vertex (Suc f) st (SwRef i) =
     (case map_of st i of
        None \<Rightarrow> None
      | Some c \<Rightarrow> map_option (\<lambda>vs. Vertex (sw_name c) i vs [])
                   (those (map (\<lambda>(k, r). map_option (Pair k) (to_vertex f st r)) (sw_children c))))"

definition no_topology_vertex :: "(string, string) gomap \<Rightarrow> vertex" where
  "no_topology_vertex m =
     Vertex [] NoTopology (fold (\<lambda>(instanceID, nodeName). mput instanceID (leaf nodeName instanceID)) m []) []"

definition tree_root :: "graph_state \<Rightarrow> vertex option" where
  "tree_root s =
     map_option
       (\<lambda>vs. Vertex [] []
          (if length (i2n s) \<noteq> 0 then mput NoTopology (no_topology_vertex (i2n s)) vs else vs) [])
       (those (map (\<lambda>(k, r). map_option (Pair k) (to_vertex (Suc (length (cells s))) (cells s) r))
          (if length (i2n s) \<noteq> 0 then mdel NoTopology (forest s) else forest s)))"

text \<open>
  The result: the cluster (which \<open>Normalize\<close> changes in place), the root of the graph, and the
  nodes reported to the missing-topology metric.
\<close>

definition ToThreeTierGraph ::
  "string \<Rightarrow> compute_instances list \<Rightarrow> bool \<Rightarrow> cluster \<Rightarrow> cluster \<times> vertex option \<times> (string \<times> string) list" where
  "ToThreeTierGraph prov cis normalise c =
     (let c = (if normalise then Normalize c else c);
          s = graph_of cis c
      in (c,
          map_option
            (\<lambda>treeRoot. Vertex [] []
               ((TopologyTree, treeRoot) #
                (if length (domains s) \<noteq> 0 then [(TopologyBlock, ToBlocks (domains s))] else [])) [])
            (tree_root s),
          map (\<lambda>(instanceID, nodeName). (prov, nodeName)) (i2n s)))"

section \<open>Pointers and what they reach\<close>

definition edge :: "sw_store \<Rightarrow> string \<Rightarrow> vref \<Rightarrow> bool" where
  "edge st i r \<longleftrightarrow> (\<exists>c. map_of st i = Some c \<and> r \<in> snd ` set (sw_children c))"

inductive below :: "sw_store \<Rightarrow> vref \<Rightarrow> vref \<Rightarrow> bool" for st where
  below_refl: "below st r r"
| below_edge: "edge st i r \<Longrightarrow> below st r x \<Longrightarrow> below st (SwRef i) x"

inductive_cases below_NodeE: "below st (NodeRef n i) x"
inductive_cases below_SwE: "below st (SwRef i) x"

lemma below_mono: "below st r x \<Longrightarrow> (\<And>i r. edge st i r \<Longrightarrow> edge st' i r) \<Longrightarrow> below st' r x"
  by (induction rule: below.induct) (auto intro: below.intros)

lemma below_trans: "below st r q \<Longrightarrow> below st q x \<Longrightarrow> below st r x"
  by (induction rule: below.induct) (auto intro: below.intros)

lemma below_NodeRef [simp]: "below st (NodeRef n i) x \<longleftrightarrow> x = NodeRef n i"
  by (auto elim: below_NodeE intro: below_refl)

lemma below_SwRef: "below st (SwRef i) (NodeRef n j) \<longleftrightarrow> (\<exists>r. edge st i r \<and> below st r (NodeRef n j))"
  by (auto elim: below_SwE intro: below_edge)

text \<open>
  A well-formed store: \<open>A\<close> holds the compute nodes (ID and name), \<open>rk\<close> the tier of a
  switch; every switch has a child, children are filed under their IDs, exist, and are of a lower tier.
\<close>

definition ok_ref :: "(string \<times> string) set \<Rightarrow> sw_store \<Rightarrow> vref \<Rightarrow> bool" where
  "ok_ref A st r = (case r of NodeRef n i \<Rightarrow> (i, n) \<in> A | SwRef i \<Rightarrow> map_of st i \<noteq> None)"

fun rank :: "(string \<Rightarrow> nat) \<Rightarrow> vref \<Rightarrow> nat" where
  "rank rk (NodeRef n i) = 0"
| "rank rk (SwRef i) = rk i"

definition wf_store :: "(string \<Rightarrow> nat) \<Rightarrow> (string \<times> string) set \<Rightarrow> sw_store \<Rightarrow> bool" where
  "wf_store rk A st \<longleftrightarrow>
     (\<forall>i c. map_of st i = Some c \<longrightarrow>
        sw_children c \<noteq> [] \<and> rk i \<noteq> 0 \<and>
        (\<forall>(k, r) \<in> set (sw_children c). k = ref_id r \<and> ok_ref A st r \<and> rank rk r < rk i))"

lemma wf_store_switch:
  "wf_store rk A st \<Longrightarrow> map_of st i = Some c \<Longrightarrow> sw_children c \<noteq> [] \<and> rk i \<noteq> 0"
  unfolding wf_store_def by blast

lemma wf_store_child:
  "wf_store rk A st \<Longrightarrow> map_of st i = Some c \<Longrightarrow> (k, r) \<in> set (sw_children c) \<Longrightarrow>
    k = ref_id r \<and> ok_ref A st r \<and> rank rk r < rk i"
  unfolding wf_store_def by fast

text \<open>IDs identify references: node IDs have one name and are not switch IDs.\<close>

definition ids_ok :: "(string \<Rightarrow> nat) \<Rightarrow> (string \<times> string) set \<Rightarrow> bool" where
  "ids_ok rk A \<longleftrightarrow> (\<forall>i n. (i, n) \<in> A \<longrightarrow> rk i = 0 \<and> (\<forall>n'. (i, n') \<in> A \<longrightarrow> n' = n))"

lemma ref_id_inj:
  assumes "ids_ok rk A" and "wf_store rk A st" and "ok_ref A st r" and "ok_ref A st r'"
    and "ref_id r = ref_id r'"
  shows "r = r'"
  using assms
  by (cases r; cases r') (auto simp: ids_ok_def ok_ref_def dest!: wf_store_switch [OF assms(2)])

lemma set_mput: "insert (k, v) {x \<in> set m. fst x \<noteq> k} \<subseteq> set (mput k v m)"
  by (induction m) auto

lemma set_mput_same:
  assumes "\<And>v'. (k, v') \<in> set m \<Longrightarrow> v' = v"
  shows "set (mput k v m) = insert (k, v) (set m)"
proof
  show "set (mput k v m) \<subseteq> insert (k, v) (set m)" by (rule set_mput_subset)
  have "(a, b) \<in> set (mput k v m)" if "(a, b) \<in> set m" for a b
    using that assms set_mput [of k v m] by (cases "a = k") auto
  then show "insert (k, v) (set m) \<subseteq> set (mput k v m)" using set_mput [of k v m] by auto
qed

lemma those_Some:
  assumes "\<And>x. x \<in> set xs \<Longrightarrow> f x = Some (g x)"
  shows "those (map f xs) = Some (map g xs)"
  using assms by (induction xs) auto

text \<open>Unfolding a pointer gives a tree whose leaves are the nodes it reaches.\<close>

definition node_leaves :: "sw_store \<Rightarrow> vref \<Rightarrow> vertex set" where
  "node_leaves st r = {leaf n i | n i. below st r (NodeRef n i)}"

definition tiers_below :: "(string \<Rightarrow> nat) \<Rightarrow> sw_store \<Rightarrow> vref \<Rightarrow> string set" where
  "tiers_below rk st r = {t \<in> dom (map_of st). rk t \<le> rank rk r}"

lemma leaves_Vertex: "cs \<noteq> [] \<Longrightarrow> leaves (Vertex n i cs m) = concat (map (\<lambda>(k, v). leaves v) cs)"
  by (cases cs) auto

lemma to_vertex_tree:
  assumes "wf_store rk A st" and "ok_ref A st r" and "card (tiers_below rk st r) \<le> f"
  shows "\<exists>v. to_vertex f st r = Some v \<and> set (leaves v) = node_leaves st r \<and> ID v = ref_id r"
  using assms(2,3)
proof (induction f arbitrary: r)
  case 0
  then show ?case
  proof (cases r)
    case (SwRef i)
    then have "i \<in> tiers_below rk st r" using 0 by (auto simp: ok_ref_def tiers_below_def)
    moreover have "finite (tiers_below rk st r)" by (simp add: tiers_below_def finite_dom_map_of)
    ultimately show ?thesis using 0 by (auto simp: card_gt_0_iff)
  qed (auto simp: node_leaves_def)
next
  case (Suc f)
  show ?case
  proof (cases r)
    case (NodeRef n i)
    then show ?thesis by (auto simp: node_leaves_def)
  next
    case (SwRef i)
    then obtain c where c: "map_of st i = Some c" using Suc.prems by (auto simp: ok_ref_def)
    have child: "\<exists>v. to_vertex f st r' = Some v \<and> set (leaves v) = node_leaves st r'"
      if "(k, r') \<in> set (sw_children c)" for k r'
    proof -
      have r': "ok_ref A st r'" "rank rk r' < rk i"
        using wf_store_child [OF assms(1) c that] by auto
      then have "i \<in> tiers_below rk st r - tiers_below rk st r'"
        and "tiers_below rk st r' \<subseteq> tiers_below rk st r"
        using c SwRef by (auto simp: tiers_below_def)
      then have "tiers_below rk st r' \<subset> tiers_below rk st r" by blast
      moreover have "finite (tiers_below rk st r)" by (simp add: tiers_below_def finite_dom_map_of)
      ultimately have "card (tiers_below rk st r') < card (tiers_below rk st r)"
        by (simp add: psubset_card_mono)
      then have "card (tiers_below rk st r') \<le> f" using Suc.prems(2) by simp
      then show ?thesis using Suc.IH r' by blast
    qed
    define g where "g r' = the (to_vertex f st r')" for r'
    have g: "to_vertex f st r' = Some (g r') \<and> set (leaves (g r')) = node_leaves st r'"
      if kid: "(k, r') \<in> set (sw_children c)" for k r'
    proof -
      obtain v where "to_vertex f st r' = Some v" "set (leaves v) = node_leaves st r'"
        using child [OF kid] by blast
      then show ?thesis by (simp only: g_def option.sel)
    qed
    then have "those (map (\<lambda>(k, r). map_option (Pair k) (to_vertex f st r)) (sw_children c)) =
        Some (map (\<lambda>(k, r). (k, g r)) (sw_children c))"
      by (intro those_Some) auto
    moreover have "set (leaves (Vertex (sw_name c) i (map (\<lambda>(k, r). (k, g r)) (sw_children c)) [])) =
        node_leaves st r"
    proof -
      have "sw_children c \<noteq> []" using wf_store_switch [OF assms(1) c] by simp
      then have "set (leaves (Vertex (sw_name c) i (map (\<lambda>(k, r). (k, g r)) (sw_children c)) [])) =
          (\<Union>(k, r') \<in> set (sw_children c). set (leaves (g r')))"
        by (simp add: leaves_Vertex case_prod_unfold)
      also have "\<dots> = (\<Union>(k, r') \<in> set (sw_children c). node_leaves st r')"
        using g by (intro SUP_cong) auto
      also have "\<dots> = node_leaves st r"
      proof (rule set_eqI)
        fix x
        have "x \<in> node_leaves st r \<longleftrightarrow> (\<exists>r'. edge st i r' \<and> x \<in> node_leaves st r')"
          by (auto simp: SwRef node_leaves_def below_SwRef)
        also have "\<dots> \<longleftrightarrow> x \<in> (\<Union>(k, r') \<in> set (sw_children c). node_leaves st r')"
          using c by (force simp: edge_def)
        finally show "x \<in> (\<Union>(k, r') \<in> set (sw_children c). node_leaves st r') \<longleftrightarrow> x \<in> node_leaves st r"
          by simp
      qed
      finally show ?thesis .
    qed
    ultimately show ?thesis using c by (simp add: SwRef)
  qed
qed

section \<open>The loops\<close>

lemma ok_ref_mono:
  "ok_ref A st r \<Longrightarrow> (\<And>i. map_of st i \<noteq> None \<Longrightarrow> map_of st' i \<noteq> None) \<Longrightarrow> ok_ref A st' r"
  by (cases r) (auto simp: ok_ref_def)

text \<open>One link keeps the store well formed, every edge of it, and hangs the old vertex below the new one.\<close>

definition extends :: "sw_store \<Rightarrow> sw_store \<Rightarrow> bool" where
  "extends st st' \<longleftrightarrow>
     (\<forall>i. map_of st i \<noteq> None \<longrightarrow> map_of st' i \<noteq> None) \<and> (\<forall>i r. edge st i r \<longrightarrow> edge st' i r)"

lemma extends_refl [simp]: "extends st st"
  by (simp add: extends_def)

lemma extends_trans: "extends st st' \<Longrightarrow> extends st' st'' \<Longrightarrow> extends st st''"
  unfolding extends_def by blast

lemma extends_ok: "extends st st' \<Longrightarrow> ok_ref A st r \<Longrightarrow> ok_ref A st' r"
  unfolding extends_def by (rule ok_ref_mono) blast+

lemma extends_below: "extends st st' \<Longrightarrow> below st r x \<Longrightarrow> below st' r x"
  unfolding extends_def by (rule below_mono) blast+

lemma link_step_wf:
  assumes "wf_store rk A st" and "ids_ok rk A" and "ok_ref A st r"
    and "link_step (i, n) (r, st) = (r', st')"
    and "i \<noteq> [] \<longrightarrow> rank rk r < rk i"
  shows "wf_store rk A st' \<and> extends st st' \<and> ok_ref A st' r' \<and> (\<forall>x. below st' r x \<longrightarrow> below st' r' x) \<and>
    (i = [] \<longrightarrow> r' = r) \<and> (i \<noteq> [] \<longrightarrow> r' = SwRef i)"
proof (cases "i = []")
  case True
  then show ?thesis using assms by (auto simp: link_step_def)
next
  case False
  define c where "c = (case map_of st i of Some c \<Rightarrow> c | None \<Rightarrow> \<lparr>sw_name = n, sw_children = []\<rparr>)"
  define c' where "c' = c\<lparr>sw_children := mput (ref_id r) r (sw_children c)\<rparr>"
  have r': "r' = SwRef i" and st': "st' = mput i c' st"
    using assms(4) False by (simp_all add: link_step_def Let_def c_def c'_def)
  have look: "map_of st' j = (if j = i then Some c' else map_of st j)" for j
    by (simp add: st' update_conv')
  have child: "k = ref_id q \<and> ok_ref A st q \<and> rank rk q < rk i" if "(k, q) \<in> set (sw_children c)" for k q
    using that wf_store_child [OF assms(1)] by (auto simp: c_def split: option.splits)
  have "v = r" if "(ref_id r, v) \<in> set (sw_children c)" for v
    using child [OF that] ref_id_inj [OF assms(2,1) _ assms(3), of v] by simp
  then have kids: "set (sw_children c') = insert (ref_id r, r) (set (sw_children c))"
    by (simp add: c'_def set_mput_same)
  have keep: "map_of st j \<noteq> None \<Longrightarrow> map_of st' j \<noteq> None" for j by (simp add: look)
  have edges: "edge st j q \<Longrightarrow> edge st' j q" for j q
    using kids by (auto simp: edge_def look c_def)
  have ext: "extends st st'" using keep edges by (simp add: extends_def)
  have "sw_children c' \<noteq> []" using kids by force
  moreover have "rk i \<noteq> 0" using assms(5) False by simp
  ultimately have wf: "wf_store rk A st'"
    using kids child assms(3,5) False wf_store_switch [OF assms(1)] wf_store_child [OF assms(1)]
      extends_ok [OF ext]
    unfolding wf_store_def look by (auto split: if_splits)
  have "below st' r x \<Longrightarrow> below st' r' x" for x
    unfolding r' by (rule below_edge) (auto simp: edge_def look kids)
  moreover have "ok_ref A st' r'" by (simp add: r' ok_ref_def look)
  ultimately show ?thesis using wf ext False r' by blast
qed

lemma links_wf:
  assumes "wf_store rk A st" and "ids_ok rk A" and "ok_ref A st r"
    and "fold link_step sws (r, st) = (r', st')"
    and "sorted_wrt (\<lambda>i j. rk i < rk j) (filter (\<lambda>i. i \<noteq> []) (map fst sws))"
    and "\<forall>i \<in> set (map fst sws). i \<noteq> [] \<longrightarrow> rank rk r < rk i"
  shows "wf_store rk A st' \<and> extends st st' \<and> ok_ref A st' r' \<and> (\<forall>x. below st' r x \<longrightarrow> below st' r' x)"
  using assms
proof (induction sws arbitrary: r st)
  case Nil
  then show ?case by simp
next
  case (Cons sw sws)
  obtain i n where sw: "sw = (i, n)" by (cases sw)
  obtain r1 st1 where step: "link_step (i, n) (r, st) = (r1, st1)" by fastforce
  have rest: "fold link_step sws (r1, st1) = (r', st')" using Cons.prems(4) step by (simp add: sw)
  have one: "wf_store rk A st1 \<and> extends st st1 \<and> ok_ref A st1 r1 \<and> (\<forall>x. below st1 r x \<longrightarrow> below st1 r1 x) \<and>
      (i = [] \<longrightarrow> r1 = r) \<and> (i \<noteq> [] \<longrightarrow> r1 = SwRef i)"
    by (rule link_step_wf [OF Cons.prems(1,2,3) step]) (use Cons.prems(6) in \<open>simp add: sw\<close>)
  have "\<forall>j \<in> set (map fst sws). j \<noteq> [] \<longrightarrow> rank rk r1 < rk j"
    using one Cons.prems(5,6) by (cases "i = []") (auto simp: sw)
  moreover have "sorted_wrt (\<lambda>i j. rk i < rk j) (filter (\<lambda>i. i \<noteq> []) (map fst sws))"
    using Cons.prems(5) by (simp split: if_splits)
  ultimately have two: "wf_store rk A st' \<and> extends st1 st' \<and> ok_ref A st' r' \<and> (\<forall>x. below st' r1 x \<longrightarrow> below st' r' x)"
    using Cons.IH [OF _ Cons.prems(2) _ rest] one by blast
  have "below st' r x \<Longrightarrow> below st' r' x" for x
  proof -
    assume x: "below st' r x"
    have "below st' r1 r"
    proof -
      have "below st1 r1 r" using one below_refl by blast
      then show ?thesis using two extends_below by blast
    qed
    then have "below st' r1 x" using x below_trans by blast
    then show ?thesis using two by blast
  qed
  then show ?case using one two extends_trans by blast
qed

text \<open>The tier of a switch ID in a cluster whose three sets of IDs are disjoint.\<close>

definition ids_of :: "(InstanceTopology \<Rightarrow> string) \<Rightarrow> cluster \<Rightarrow> string set" where
  "ids_of f c = f ` set c - {[]}"

definition tier_rank :: "cluster \<Rightarrow> string \<Rightarrow> nat" where
  "tier_rank c i =
     (if i \<in> ids_of BlockID c then 1
      else if i \<in> ids_of SpineID c then 2
      else if i \<in> ids_of DatacenterID c then 3 else 0)"

definition separate_tiers :: "cluster \<Rightarrow> bool" where
  "separate_tiers c \<longleftrightarrow>
     ids_of BlockID c \<inter> ids_of SpineID c = {} \<and>
     ids_of BlockID c \<inter> ids_of DatacenterID c = {} \<and>
     ids_of SpineID c \<inter> ids_of DatacenterID c = {}"

definition switch_ids :: "cluster \<Rightarrow> string set" where
  "switch_ids c = ids_of BlockID c \<union> ids_of SpineID c \<union> ids_of DatacenterID c"

definition node_set :: "compute_instances list \<Rightarrow> (string \<times> string) set" where
  "node_set cis = {(i, n). map_of (instance_names cis) i = Some n}"

lemma tiers_ranked:
  assumes "separate_tiers c" and "inst \<in> set c"
  shows "sorted_wrt (\<lambda>i j. tier_rank c i < tier_rank c j) (filter (\<lambda>i. i \<noteq> []) (map fst (tiers_of inst)))"
    and "\<forall>i \<in> set (map fst (tiers_of inst)). i \<noteq> [] \<longrightarrow> 0 < tier_rank c i"
  using assms by (auto simp: tiers_of_def tier_rank_def ids_of_def separate_tiers_def)

text \<open>
  The invariant of the outer loop: the store and the forest are well formed, \<open>i2n\<close> holds the
  nodes not seen yet, and every node already seen is below some entry of the forest.
\<close>

definition graph_inv :: "(string \<Rightarrow> nat) \<Rightarrow> (string \<times> string) set \<Rightarrow> graph_state \<Rightarrow> bool" where
  "graph_inv rk A s \<longleftrightarrow>
     wf_store rk A (cells s) \<and>
     (\<forall>(k, r) \<in> set (forest s). k = ref_id r \<and> ok_ref A (cells s) r) \<and>
     (\<forall>i n. map_of (i2n s) i = Some n \<longrightarrow> (i, n) \<in> A) \<and>
     (\<forall>i n. (i, n) \<in> A \<longrightarrow> map_of (i2n s) i = Some n \<or>
        (\<exists>(k, r) \<in> set (forest s). below (cells s) r (NodeRef n i)))"

lemma mput_keep:
  "x \<in> set m \<Longrightarrow> (\<And>v'. (k, v') \<in> set m \<Longrightarrow> v' = v) \<Longrightarrow> x \<in> set (mput k v m)"
  using set_mput_same [of k m v] by blast

lemma graph_inv_step:
  assumes "graph_inv (tier_rank c) A s" and "ids_ok (tier_rank c) A" and "separate_tiers c" and "inst \<in> set c"
  shows "graph_inv (tier_rank c) A (add_instance inst s)"
proof (cases "map_of (i2n s) (InstanceID inst)")
  case None
  then show ?thesis using assms(1) by (simp add: add_instance_def)
next
  case (Some name)
  let ?rk = "tier_rank c" and ?node = "NodeRef name (InstanceID inst)"
  obtain top nodes where fold: "fold link_step (tiers_of inst) (?node, cells s) = (top, nodes)" by fastforce
  have wf: "wf_store ?rk A (cells s)"
    and frst: "\<And>k r. (k, r) \<in> set (forest s) \<Longrightarrow> k = ref_id r \<and> ok_ref A (cells s) r"
    and left: "\<And>i n. map_of (i2n s) i = Some n \<Longrightarrow> (i, n) \<in> A"
    and seen: "\<And>i n. (i, n) \<in> A \<Longrightarrow> map_of (i2n s) i = Some n \<or>
        (\<exists>(k, r) \<in> set (forest s). below (cells s) r (NodeRef n i))"
    using assms(1) unfolding graph_inv_def by blast+
  have "ok_ref A (cells s) ?node" using left [OF Some] by (simp add: ok_ref_def)
  then have new: "wf_store ?rk A nodes" "extends (cells s) nodes" "ok_ref A nodes top" "below nodes top ?node"
    using links_wf [OF wf assms(2) _ fold] tiers_ranked [OF assms(3,4)] below_refl [of nodes ?node] by auto
  define fs where "fs = mput (ref_id top) top (forest s)"
  have same: "v = top" if "(ref_id top, v) \<in> set (forest s)" for v
    using frst [OF that] extends_ok [OF new(2)] ref_id_inj [OF assms(2) new(1) _ new(3), of v] by auto
  then have fs: "set fs = insert (ref_id top, top) (set (forest s))"
    unfolding fs_def by (rule set_mput_same)
  have state: "i2n (add_instance inst s) = mdel (InstanceID inst) (i2n s)"
    "cells (add_instance inst s) = nodes" "forest (add_instance inst s) = fs"
    using Some fold by (simp_all add: add_instance_def fs_def)
  have left': "(i, n) \<in> A" if "map_of (mdel (InstanceID inst) (i2n s)) i = Some n" for i n
    using that left by (auto simp: delete_conv' split: if_splits)
  have seen': "map_of (mdel (InstanceID inst) (i2n s)) i = Some n \<or>
      (\<exists>(k, r) \<in> set fs. below nodes r (NodeRef n i))" if "(i, n) \<in> A" for i n
  proof (cases "i = InstanceID inst")
    case True
    then have "n = name" using that left [OF Some] assms(2) by (auto simp: ids_ok_def)
    then show ?thesis using new(4) True fs by auto
  next
    case False
    then show ?thesis
      using seen [OF that] extends_below [OF new(2)] fs by (fastforce simp: delete_conv')
  qed
  show ?thesis
    unfolding graph_inv_def state using new fs frst extends_ok [OF new(2)] left' seen' by auto
qed

lemma instance_names_distinct: "distinct (mkeys (instance_names cis))"
proof -
  have copy: "distinct (mkeys m) \<Longrightarrow> distinct (mkeys (mcopy src m))" for src m :: "(string, string) gomap"
    unfolding mcopy_def by (induction src arbitrary: m) (auto simp: distinct_update)
  have "distinct (mkeys m) \<Longrightarrow> distinct (mkeys (fold (\<lambda>ci. mcopy (Instances ci)) cis m))" for m
    by (induction cis arbitrary: m) (simp_all add: copy)
  then show ?thesis by (simp add: instance_names_def)
qed

lemma graph_of_inv:
  assumes "separate_tiers c" and "ids_ok (tier_rank c) (node_set cis)"
  shows "graph_inv (tier_rank c) (node_set cis) (graph_of cis c)"
proof -
  have "graph_inv (tier_rank c) (node_set cis) (fold add_instance insts s)"
    if "graph_inv (tier_rank c) (node_set cis) s" "set insts \<subseteq> set c" for insts s
    using that graph_inv_step [OF _ assms(2,1)] by (induction insts arbitrary: s) auto
  moreover have "graph_inv (tier_rank c) (node_set cis)
      \<lparr>i2n = instance_names cis, forest = [], cells = [], domains = NewDomainMap\<rparr>"
    by (simp add: graph_inv_def wf_store_def node_set_def)
  ultimately show ?thesis by (simp add: graph_of_def)
qed

lemma add_instance_i2n:
  "distinct (mkeys (i2n s)) \<Longrightarrow> distinct (mkeys (i2n (fold add_instance insts s)))"
  by (induction insts arbitrary: s)
    (auto simp: add_instance_def distinct_delete Let_def split: option.splits prod.splits)

section \<open>The root of the tree\<close>

text \<open>The compute nodes of a tree: ID and name of the leaves below its root.\<close>

definition tree_nodes :: "vertex \<Rightarrow> (string \<times> string) set" where
  "tree_nodes v = (\<lambda>w. (ID w, Name w)) ` (\<Union>w \<in> snd ` set (Vertices v). set (leaves w))"

lemma card_dom_map_of: "card (dom (map_of m)) \<le> length m"
  by (metis card_length dom_map_of_conv_image_fst length_map set_map)

lemma forest_unfolds:
  assumes "graph_inv rk A s" and "(k, r) \<in> set (forest s)"
  shows "\<exists>v. to_vertex (Suc (length (cells s))) (cells s) r = Some v \<and> set (leaves v) = node_leaves (cells s) r"
proof -
  have "wf_store rk A (cells s)" and "ok_ref A (cells s) r"
    using assms unfolding graph_inv_def by blast+
  moreover have "card (tiers_below rk (cells s) r) \<le> card (dom (map_of (cells s)))"
    by (rule card_mono) (auto simp: tiers_below_def finite_dom_map_of)
  ultimately show ?thesis
    using to_vertex_tree [of rk A "cells s" r "Suc (length (cells s))"] card_dom_map_of [of "cells s"] by auto
qed

lemma below_ok:
  "below st r x \<Longrightarrow> wf_store rk A st \<Longrightarrow> ok_ref A st r \<Longrightarrow> ok_ref A st x"
proof (induction rule: below.induct)
  case (below_edge i r x)
  then obtain c k where "map_of st i = Some c" "(k, r) \<in> set (sw_children c)" by (auto simp: edge_def)
  then have "ok_ref A st r" using wf_store_child [OF below_edge.prems(1)] by blast
  then show ?case using below_edge by blast
qed

lemma no_topology_children:
  assumes "distinct (mkeys m)"
  shows "map_of (Vertices (no_topology_vertex m)) i = map_option (\<lambda>n. leaf n i) (map_of m i)"
proof -
  have "map_of (fold (\<lambda>(i, n). mput i (leaf n i)) m vs) i =
      (case map_of m i of None \<Rightarrow> map_of vs i | Some n \<Rightarrow> Some (leaf n i))" for vs
    using assms
    by (induction m arbitrary: vs) (auto simp: update_conv' map_of_eq_None_iff [symmetric] split: option.splits)
  then show ?thesis by (simp add: no_topology_vertex_def split: option.splits)
qed

lemma fold_mput_values:
  "distinct (mkeys vs) \<Longrightarrow> distinct (mkeys (fold (\<lambda>(i, n). mput i (g i n)) m vs))"
  by (induction m arbitrary: vs) (auto simp: distinct_update)

lemma no_topology_leaves:
  assumes "distinct (mkeys m)" and "m \<noteq> []"
  shows "set (leaves (no_topology_vertex m)) = {leaf n i | i n. map_of m i = Some n}"
proof -
  let ?vs = "Vertices (no_topology_vertex m)"
  have dist: "distinct (mkeys ?vs)"
    by (simp add: no_topology_vertex_def fold_mput_values)
  have entries: "(i, w) \<in> set ?vs \<longleftrightarrow> (\<exists>n. map_of m i = Some n \<and> w = leaf n i)" for i w
  proof -
    have "(i, w) \<in> set ?vs \<longleftrightarrow> map_of ?vs i = Some w" by (rule map_of_eq_Some_iff [OF dist, symmetric])
    then show ?thesis unfolding no_topology_children [OF assms(1)] by auto
  qed
  obtain i n m' where "m = (i, n) # m'" using assms(2) by (cases m) auto
  then have "map_of m i = Some n" by simp
  then have "?vs \<noteq> []" using entries [of i "leaf n i"] by auto
  then have "leaves (no_topology_vertex m) = concat (map (\<lambda>(k, v). leaves v) ?vs)"
    by (metis leaves_Vertex vertex.collapse)
  then have "set (leaves (no_topology_vertex m)) = (\<Union>x \<in> set ?vs. set (leaves (snd x)))"
    by (simp add: case_prod_unfold)
  also have "\<dots> = (\<Union>x \<in> {(i, leaf n i) | i n. map_of m i = Some n}. set (leaves (snd x)))"
  proof (rule arg_cong [where f = "\<lambda>X. \<Union>x \<in> X. set (leaves (snd x))"])
    show "set ?vs = {(i, leaf n i) | i n. map_of m i = Some n}"
      by (rule set_eqI, case_tac x) (simp only: entries, blast)
  qed
  also have "\<dots> = {leaf n i | i n. map_of m i = Some n}"
  proof -
    have "\<exists>x \<in> {(i, leaf n i) | i n. map_of m i = Some n}. leaf n i \<in> set (leaves (snd x))"
      if "map_of m i = Some n" for i n
      using that by (intro bexI [of _ "(i, leaf n i)"]) auto
    then show ?thesis by auto
  qed
  finally show ?thesis .
qed

lemma tree_root_nodes:
  assumes "graph_inv rk A s" and "distinct (mkeys (i2n s))"
    and "\<forall>(k, r) \<in> set (forest s). k \<noteq> NoTopology"
  shows "\<exists>tree. tree_root s = Some tree \<and> tree_nodes tree = A"
proof -
  let ?f = "to_vertex (Suc (length (cells s))) (cells s)"
  define g where "g r = the (?f r)" for r
  have g: "?f r = Some (g r) \<and> set (leaves (g r)) = node_leaves (cells s) r" if kid: "(k, r) \<in> set (forest s)" for k r
  proof -
    obtain v where "?f r = Some v" "set (leaves v) = node_leaves (cells s) r"
      using forest_unfolds [OF assms(1) kid] by blast
    then show ?thesis by (simp only: g_def option.sel)
  qed
  define vs where "vs = map (\<lambda>(k, r). (k, g r)) (forest s)"
  have "mdel NoTopology (forest s) = forest s"
    using assms(3) by (intro delete_id) auto
  moreover have "those (map (\<lambda>(k, r). map_option (Pair k) (?f r)) (forest s)) = Some vs"
    unfolding vs_def using g by (intro those_Some) auto
  ultimately have root: "tree_root s = Some (Vertex [] []
      (if i2n s \<noteq> [] then mput NoTopology (no_topology_vertex (i2n s)) vs else vs) [])"
    by (simp add: tree_root_def)
  define ws where "ws = (if i2n s \<noteq> [] then mput NoTopology (no_topology_vertex (i2n s)) vs else vs)"
  have "NoTopology \<notin> fst ` set vs" using assms(3) by (auto simp: vs_def)
  then have ws: "set ws = set vs \<union> (if i2n s \<noteq> [] then {(NoTopology, no_topology_vertex (i2n s))} else {})"
    using set_mput_same [of NoTopology vs "no_topology_vertex (i2n s)"]
    by (force simp: ws_def image_iff)
  have inA: "(i, n) \<in> A" if "(k, r) \<in> set (forest s)" "below (cells s) r (NodeRef n i)" for k r i n
    using that assms(1) below_ok [OF that(2), of rk A] unfolding graph_inv_def by (auto simp: ok_ref_def)
  have "leaf n i \<in> (\<Union>w \<in> snd ` set ws. set (leaves w)) \<longleftrightarrow> (i, n) \<in> A" for n i
  proof
    assume "leaf n i \<in> (\<Union>w \<in> snd ` set ws. set (leaves w))"
    then consider k r where "(k, r) \<in> set (forest s)" "leaf n i \<in> node_leaves (cells s) r"
      | "i2n s \<noteq> []" "leaf n i \<in> set (leaves (no_topology_vertex (i2n s)))"
      using g ws by (auto simp: vs_def split: if_splits)
    then show "(i, n) \<in> A"
    proof cases
      case 1
      then show ?thesis using inA by (auto simp: node_leaves_def)
    next
      case 2
      then show ?thesis using assms(1) no_topology_leaves [OF assms(2)] unfolding graph_inv_def by auto
    qed
  next
    assume "(i, n) \<in> A"
    then consider "map_of (i2n s) i = Some n"
      | k r where "(k, r) \<in> set (forest s)" "below (cells s) r (NodeRef n i)"
      using assms(1) unfolding graph_inv_def by blast
    then show "leaf n i \<in> (\<Union>w \<in> snd ` set ws. set (leaves w))"
    proof cases
      case 1
      then have "i2n s \<noteq> []" by auto
      then show ?thesis using 1 no_topology_leaves [OF assms(2)] ws by auto
    next
      case 2
      then have "leaf n i \<in> set (leaves (g r))" using g by (auto simp: node_leaves_def)
      moreover have "(k, g r) \<in> set ws" using 2 ws by (auto simp: vs_def)
      ultimately show ?thesis by force
    qed
  qed
  moreover have "\<exists>n i. w = leaf n i" if w: "w \<in> (\<Union>w \<in> snd ` set ws. set (leaves w))" for w
  proof -
    obtain k u where u: "(k, u) \<in> set ws" "w \<in> set (leaves u)" using w by auto
    show ?thesis
    proof (cases "(k, u) \<in> set vs")
      case True
      then obtain r where "(k, r) \<in> set (forest s)" "u = g r" by (auto simp: vs_def)
      then have "w \<in> node_leaves (cells s) r" using g u(2) by blast
      then show ?thesis by (auto simp: node_leaves_def)
    next
      case False
      then have "i2n s \<noteq> []" "u = no_topology_vertex (i2n s)" using u(1) ws by (auto split: if_splits)
      then show ?thesis using no_topology_leaves [OF assms(2)] u(2) by blast
    qed
  qed
  moreover define U where "U = (\<Union>w \<in> snd ` set ws. set (leaves w))"
  ultimately have "(\<Union>w \<in> snd ` set ws. set (leaves w)) = {leaf n i | i n. (i, n) \<in> A}"
    unfolding U_def [symmetric] by blast
  also have "\<dots> = (\<lambda>(i, n). leaf n i) ` A" by auto
  finally have "tree_nodes (Vertex [] [] ws []) = A"
    by (simp add: tree_nodes_def image_image case_prod_unfold)
  then show ?thesis using root by (simp add: ws_def)
qed

section \<open>Naming\<close>

text \<open>An instance without the names that \<open>Normalize\<close> gives.\<close>

definition erase_names :: "InstanceTopology \<Rightarrow> InstanceTopology" where
  "erase_names inst = inst\<lparr>BlockName := [], SpineName := [], DatacenterName := []\<rparr>"

definition named_switches :: "InstanceTopology \<Rightarrow> (string \<times> string) set" where
  "named_switches inst = set (tiers_of inst)"

lemma switch_name_inj: "switch_name b m = switch_name b' n \<longleftrightarrow> b = b' \<and> m = n"
proof -
  have "show_nat 1 = ''1''" "show_nat 2 = ''2''" "show_nat 3 = ''3''"
    by (simp_all add: show_nat.simps digit_char_def)
  then show ?thesis
    by (cases b; cases b') (auto simp: switch_name_def dest: show_nat_inj)
qed

definition naming_inv :: "naming \<Rightarrow> bool" where
  "naming_inv s \<longleftrightarrow>
     (\<forall>i n. map_of (snd s) i = Some n \<longrightarrow> (\<exists>b k. n = switch_name b k \<and> k \<le> fst s b)) \<and>
     (\<forall>i j n. map_of (snd s) i = Some n \<longrightarrow> map_of (snd s) j = Some n \<longrightarrow> i = j)"

lemma name_switch_step:
  assumes "naming_inv s" and "name_switch b i s = (name, s')"
  shows "naming_inv s' \<and> map_of (snd s) \<subseteq>\<^sub>m map_of (snd s') \<and> map_of (snd s') i = Some name"
proof (cases "map_of (snd s) i")
  case (Some n)
  then show ?thesis using assms by (auto simp: name_switch_def split: prod.splits)
next
  case None
  obtain counts sw where s: "s = (counts, sw)" by (cases s)
  then have s': "s' = (counts(b := counts b + 1), mput i name sw)" and name: "name = switch_name b (counts b + 1)"
    using assms(2) None by (auto simp: name_switch_def Let_def)
  have fresh: "map_of sw j \<noteq> Some name" for j
    using assms(1) unfolding naming_inv_def s name by (fastforce simp: switch_name_inj)
  have old: "\<exists>b' k. n = switch_name b' k \<and> k \<le> (counts(b := counts b + 1)) b'" if n: "map_of sw j = Some n" for j n
  proof -
    obtain b' k where "n = switch_name b' k" "k \<le> counts b'"
      using n assms(1) unfolding naming_inv_def s fst_conv snd_conv by blast
    then show ?thesis by (intro exI [of _ b'] exI [of _ k]) auto
  qed
  have new: "\<exists>b' k. name = switch_name b' k \<and> k \<le> (counts(b := counts b + 1)) b'"
    unfolding name by (intro exI [of _ b] exI [of _ "counts b + 1"]) simp
  have "naming_inv s'"
    unfolding naming_inv_def s' fst_conv snd_conv update_conv'
    using old new fresh assms(1) unfolding naming_inv_def s by auto
  then show ?thesis using None by (auto simp: s s' update_conv' map_le_def dom_def)
qed

lemma name_instance_step:
  assumes "naming_inv s" and "name_instance inst s = (inst', s')"
  shows "naming_inv s' \<and> map_of (snd s) \<subseteq>\<^sub>m map_of (snd s') \<and> erase_names inst' = erase_names inst \<and>
    (\<forall>(i, n) \<in> named_switches inst'. map_of (snd s') i = Some n)"
proof -
  obtain bn s1 where 1: "name_switch blockBand (BlockID inst) s = (bn, s1)" by (rule prod.exhaust)
  obtain sn s2 where 2: "name_switch spineBand (SpineID inst) s1 = (sn, s2)" by (rule prod.exhaust)
  obtain dn s3 where 3: "name_switch datacenterBand (DatacenterID inst) s2 = (dn, s3)" by (rule prod.exhaust)
  have r: "inst' = inst\<lparr>BlockName := bn, SpineName := sn, DatacenterName := dn\<rparr>" "s' = s3"
    using assms(2) 1 2 3 by (simp_all add: name_instance_def)
  note step1 = name_switch_step [OF assms(1) 1]
  note step2 = name_switch_step [OF conjunct1 [OF step1] 2]
  note step3 = name_switch_step [OF conjunct1 [OF step2] 3]
  have "map_of (snd s) \<subseteq>\<^sub>m map_of (snd s3)" using step1 step2 step3 map_le_trans by blast
  moreover have "map_of (snd s3) (BlockID inst) = Some bn" "map_of (snd s3) (SpineID inst) = Some sn"
    using step1 step2 step3 by (auto simp: map_le_def dom_def)
  ultimately show ?thesis
    using step3 r by (simp add: erase_names_def named_switches_def tiers_of_def)
qed

lemma name_all_names:
  assumes "naming_inv s"
  shows "map erase_names (name_all c s) = map erase_names c \<and>
    (\<exists>m. (\<forall>i j n. m i = Some n \<longrightarrow> m j = Some n \<longrightarrow> i = j) \<and> map_of (snd s) \<subseteq>\<^sub>m m \<and>
       (\<forall>inst \<in> set (name_all c s). \<forall>(i, n) \<in> named_switches inst. m i = Some n))"
  using assms
proof (induction c arbitrary: s)
  case Nil
  then show ?case by (auto simp: naming_inv_def intro!: exI [of _ "map_of (snd s)"])
next
  case (Cons inst c)
  obtain inst' s' where step: "name_instance inst s = (inst', s')" by (rule prod.exhaust)
  note inv = name_instance_step [OF Cons.prems step]
  obtain m where m: "\<forall>i j n. m i = Some n \<longrightarrow> m j = Some n \<longrightarrow> i = j" "map_of (snd s') \<subseteq>\<^sub>m m"
      "\<forall>inst \<in> set (name_all c s'). \<forall>(i, n) \<in> named_switches inst. m i = Some n"
    and er: "map erase_names (name_all c s') = map erase_names c"
    using Cons.IH [of s'] inv by auto
  have "\<forall>(i, n) \<in> named_switches inst'. m i = Some n"
    using inv m(2) by (fastforce simp: map_le_def dom_def)
  moreover have "map_of (snd s) \<subseteq>\<^sub>m m" using inv m(2) map_le_trans by blast
  ultimately show ?case using m er inv by (auto simp: step)
qed

lemma naming_inv_start: "naming_inv (\<lambda>_. 0, [])"
  by (simp add: naming_inv_def)

lemma Normalize_erase: "map erase_names (Normalize c) = map erase_names (sort_key hierarchy_key c)"
  using name_all_names [OF naming_inv_start] by (simp add: Normalize_def)

lemma ids_of_erase:
  assumes "\<And>inst. f (erase_names inst) = f inst" and "erase_names ` set c = erase_names ` set c'"
  shows "ids_of f c = ids_of f c'"
proof -
  have "f ` set c = f ` erase_names ` set c" "f ` set c' = f ` erase_names ` set c'"
    by (simp_all add: image_image assms(1))
  then show ?thesis using assms(2) by (simp add: ids_of_def)
qed

lemma ids_of_Normalize:
  "ids_of BlockID (Normalize c) = ids_of BlockID c" "ids_of SpineID (Normalize c) = ids_of SpineID c"
  "ids_of DatacenterID (Normalize c) = ids_of DatacenterID c"
proof -
  have eq: "erase_names ` set (Normalize c) = erase_names ` set c"
    using arg_cong [OF Normalize_erase, of set c] by simp
  show "ids_of BlockID (Normalize c) = ids_of BlockID c" "ids_of SpineID (Normalize c) = ids_of SpineID c"
    "ids_of DatacenterID (Normalize c) = ids_of DatacenterID c"
    by (rule ids_of_erase [OF _ eq], simp add: erase_names_def)+
qed

lemma tier_rank_Normalize: "tier_rank (Normalize c) = tier_rank c"
  by (simp add: tier_rank_def ids_of_Normalize fun_eq_iff)

lemma tier_rank_pos: "tier_rank c i \<noteq> 0 \<Longrightarrow> i \<in> switch_ids c"
  by (auto simp: tier_rank_def switch_ids_def split: if_splits)

lemma node_set_ids_ok:
  assumes "\<forall>i \<in> set (mkeys (instance_names cis)). i \<notin> switch_ids c"
  shows "ids_ok (tier_rank c) (node_set cis)"
  using assms tier_rank_pos [of c] set_fst_map_of [of _ "instance_names cis"]
  unfolding ids_ok_def node_set_def by fastforce

lemma graph_nodes:
  assumes "separate_tiers c" and "\<forall>i \<in> set (mkeys (instance_names cis)). i \<notin> switch_ids c \<and> i \<noteq> NoTopology"
    and "NoTopology \<notin> switch_ids c"
  shows "\<exists>tree. tree_root (graph_of cis c) = Some tree \<and> tree_nodes tree = node_set cis"
proof (rule tree_root_nodes)
  have ok: "ids_ok (tier_rank c) (node_set cis)"
    using assms(2) by (intro node_set_ids_ok) blast
  then show inv: "graph_inv (tier_rank c) (node_set cis) (graph_of cis c)"
    by (rule graph_of_inv [OF assms(1)])
  show "distinct (mkeys (i2n (graph_of cis c)))"
    unfolding graph_of_def by (rule add_instance_i2n) (simp add: instance_names_distinct)
  have "ref_id r \<noteq> NoTopology" if "ok_ref (node_set cis) (cells (graph_of cis c)) r" for r
  proof (cases r)
    case (NodeRef n i)
    then have "map_of (instance_names cis) i = Some n" using that by (simp add: ok_ref_def node_set_def)
    then show ?thesis using assms(2) set_fst_map_of [of i "instance_names cis"] NodeRef by auto
  next
    case (SwRef i)
    then have "tier_rank c i \<noteq> 0"
      using that inv wf_store_switch unfolding graph_inv_def by (fastforce simp: ok_ref_def)
    then show ?thesis using assms(3) tier_rank_pos SwRef by auto
  qed
  then show "\<forall>(k, r) \<in> set (forest (graph_of cis c)). k \<noteq> NoTopology"
    using inv unfolding graph_inv_def by fastforce
qed

section \<open>Properties\<close>

definition sample_instance :: "string \<Rightarrow> string \<Rightarrow> string \<Rightarrow> string \<Rightarrow> InstanceTopology" where
  "sample_instance i b s d =
     \<lparr>InstanceID = i, BlockID = b, BlockName = [], SpineID = s, SpineName = [], DatacenterID = d,
      DatacenterName = [], AcceleratorID = ''nvl''\<rparr>"

definition sample_cluster :: cluster where
  "sample_cluster = [sample_instance ''i2'' ''b2'' ''s1'' ''d1'', sample_instance ''i1'' ''b1'' ''s1'' ''d1'',
     sample_instance ''i9'' ''b9'' ''s9'' ''d1'']"

definition sample_compute :: "compute_instances list" where
  "sample_compute = [\<lparr>Region = ''r'', Instances = [(''i1'', ''n1''), (''i2'', ''n2''), (''i3'', ''n3'')]\<rparr>]"

lemma sample_names: "instance_names sample_compute = [(''i1'', ''n1''), (''i2'', ''n2''), (''i3'', ''n3'')]"
  by (simp add: instance_names_def sample_compute_def mcopy_def)

lemma sample_ids:
  "ids_of BlockID sample_cluster = {''b1'', ''b2'', ''b9''}" "ids_of SpineID sample_cluster = {''s1'', ''s9''}"
  "ids_of DatacenterID sample_cluster = {''d1''}"
  by (auto simp: ids_of_def sample_cluster_def sample_instance_def)

text \<open>
  The disjointness of the tiers is needed: an instance whose block and spine carry the same ID
  makes that switch a child of itself, so the graph of pointers is cyclic and has no finite tree.
\<close>

theorem ToThreeTierGraph_cyclic:
  assumes "BlockID inst = SpineID inst" and "BlockID inst \<noteq> []" and "DatacenterID inst \<noteq> BlockID inst"
    and "BlockID inst \<noteq> NoTopology" and "DatacenterID inst \<noteq> NoTopology"
    and "map_of (instance_names cis) (InstanceID inst) \<noteq> None"
  shows "fst (snd (ToThreeTierGraph prov cis False [inst])) = None"
proof -
  obtain name where name: "map_of (instance_names cis) (InstanceID inst) = Some name" using assms(6) by auto
  let ?s = "graph_of cis [inst]" and ?b = "SwRef (BlockID inst)"
  obtain top nodes where fold: "fold link_step (tiers_of inst) (NodeRef name (InstanceID inst), []) = (top, nodes)"
    by fastforce
  have s: "cells ?s = nodes" "forest ?s = [(ref_id top, top)]"
    by (simp_all add: graph_of_def add_instance_def name fold)
  have loop: "\<exists>c. map_of nodes (BlockID inst) = Some c \<and> (BlockID inst, ?b) \<in> set (sw_children c)"
    and top: "top = ?b \<or> (\<exists>d c. top = SwRef d \<and> d \<noteq> NoTopology \<and> map_of nodes d = Some c \<and> (BlockID inst, ?b) \<in> set (sw_children c))"
    using fold assms(1-5)
    by (auto simp: tiers_of_def link_step_def Let_def update_conv' split: if_splits)
  have none: "to_vertex f nodes r = None"
    if "r = SwRef d" "map_of nodes d = Some c" "(BlockID inst, ?b) \<in> set (sw_children c)"
      "to_vertex (f - 1) nodes ?b = None" for f r d c
  proof -
    have "those xs = None" if "None \<in> set xs" for xs :: "'x option list"
      using that by (induction xs) (auto split: option.splits)
    moreover have "None \<in> set (map (\<lambda>(k, r). map_option (Pair k) (to_vertex (f - 1) nodes r)) (sw_children c))"
      using that(3,4) by force
    ultimately have "those (map (\<lambda>(k, r). map_option (Pair k) (to_vertex (f - 1) nodes r)) (sw_children c)) = None"
      by blast
    then show ?thesis using that(1,2) by (cases f) simp_all
  qed
  have self: "to_vertex f nodes ?b = None" for f
    using loop none by (induction f) (simp, metis diff_Suc_1)
  then have "to_vertex f nodes top = None" for f
    using top none by metis
  then have "tree_root ?s = None"
    using top assms(4) by (auto simp: tree_root_def s)
  then show ?thesis by (simp add: ToThreeTierGraph_def Let_def)
qed

theorem ToThreeTierGraph_cyclic_witness:
  "fst (snd (ToThreeTierGraph ''aws'' sample_compute False [sample_instance ''i1'' ''x'' ''x'' ''d1''])) = None"
  by (rule ToThreeTierGraph_cyclic) (simp_all add: sample_instance_def sample_names NoTopology_def)

text \<open>
  C7. \<open>Normalize\<close> changes nothing but the switch names, sorts the instances by datacenter,
  spine, block and instance, and names the switches one to one: over all instances and tiers, two
  switches have the same name exactly if they have the same ID.
\<close>

theorem Normalize_names:
  "map erase_names (Normalize c) = map erase_names (sort_key hierarchy_key c) \<and>
   (\<forall>inst \<in> set (Normalize c). \<forall>inst' \<in> set (Normalize c).
      \<forall>(i, n) \<in> set (tiers_of inst). \<forall>(i', n') \<in> set (tiers_of inst'). (n = n') = (i = i'))"
proof -
  obtain m where inj: "\<forall>i j n. m i = Some n \<longrightarrow> m j = Some n \<longrightarrow> i = j"
    and names: "\<forall>inst \<in> set (Normalize c). \<forall>(i, n) \<in> named_switches inst. m i = Some n"
    using name_all_names [OF naming_inv_start, of "sort_key hierarchy_key c"] unfolding Normalize_def by blast
  have "(n = n') = (i = i')"
    if "inst \<in> set (Normalize c)" "inst' \<in> set (Normalize c)" "(i, n) \<in> set (tiers_of inst)" "(i', n') \<in> set (tiers_of inst')"
    for inst inst' i n i' n'
  proof -
    have "m i = Some n" "m i' = Some n'" using names that unfolding named_switches_def by blast+
    then show ?thesis using inj by auto
  qed
  then show ?thesis using Normalize_erase by blast
qed

theorem Normalize_names_witness:
  "BlockName (Normalize sample_cluster ! 0) \<noteq> BlockName (Normalize sample_cluster ! 1) \<and>
   SpineName (Normalize sample_cluster ! 0) = SpineName (Normalize sample_cluster ! 1)"
proof -
  have len: "length (Normalize sample_cluster) = 3" by code_simp
  then have mem: "Normalize sample_cluster ! 0 \<in> set (Normalize sample_cluster)"
    "Normalize sample_cluster ! 1 \<in> set (Normalize sample_cluster)" by (auto intro!: nth_mem)
  have ids: "BlockID (Normalize sample_cluster ! 0) \<noteq> BlockID (Normalize sample_cluster ! 1)"
    "SpineID (Normalize sample_cluster ! 0) = SpineID (Normalize sample_cluster ! 1)"
    by code_simp+
  show ?thesis
    using Normalize_names [THEN conjunct2, rule_format, OF mem] ids unfolding tiers_of_def by auto
qed

text \<open>
  C6. Normalised clusters do not depend on the order in which the provider listed the instances,
  when the instance IDs are distinct.
\<close>

theorem Normalize_order_independent:
  assumes "mset c = mset c'" and "distinct (map InstanceID c)"
  shows "Normalize c = Normalize c'"
proof -
  have "inj_on hierarchy_key (set c)"
    using assms(2) by (auto simp: inj_on_def distinct_map hierarchy_key_def)
  then have "sort_key hierarchy_key c = sort_key hierarchy_key c'" by (rule sort_key_mset_cong [OF assms(1)])
  then show ?thesis by (simp add: Normalize_def)
qed

theorem Normalize_order_independent_witness:
  "Normalize sample_cluster = Normalize (rev sample_cluster)"
  by (rule Normalize_order_independent) (simp_all add: sample_cluster_def sample_instance_def)

end
