(* ===== verification/Graph_Shape.thy ===== *)
theory Graph_Shape
  imports Graph
begin

text \<open>
  The shape of the graph that \<open>ToThreeTierGraph\<close> (\<open>pkg/topology/graph.go\<close>) returns: which paths its tree has,
  by the keys of the vertices, and which hosts its blocks have. The paths are those along the links from a
  datacenter to its spines, from there to the blocks and on to the instances, as the instances of the cluster give
  them; the blocks are the accelerator domains.
\<close>

section \<open>What the graph is to look like\<close>

text \<open>The vertex at the end of a path of keys.\<close>

fun at_path :: "vertex \<Rightarrow> string list \<Rightarrow> vertex option" where
  "at_path v [] = Some v"
| "at_path v (k # ks) = (case map_of (Vertices v) k of None \<Rightarrow> None | Some w \<Rightarrow> at_path w ks)"

text \<open>
  The instances that count: the first of each ID, when the request names it; the others that the request names
  have no topology.
\<close>

definition placed :: "compute_instances list \<Rightarrow> cluster \<Rightarrow> InstanceTopology set" where
  "placed cis c =
     {inst. find (\<lambda>x. InstanceID x = InstanceID inst) c = Some inst \<and> map_of (instance_names cis) (InstanceID inst) \<noteq> None}"

definition unplaced :: "compute_instances list \<Rightarrow> cluster \<Rightarrow> string set" where
  "unplaced cis c = {i. map_of (instance_names cis) i \<noteq> None \<and> i \<notin> InstanceID ` set c}"

text \<open>The IDs from the top down to the instance, empty ones left out; its links.\<close>

definition chain :: "InstanceTopology \<Rightarrow> string list" where
  "chain inst = filter (\<lambda>i. i \<noteq> []) [DatacenterID inst, SpineID inst, BlockID inst] @ [InstanceID inst]"

definition links_of :: "string list \<Rightarrow> (string \<times> string) set" where
  "links_of p = set (zip p (tl p))"

definition links :: "compute_instances list \<Rightarrow> cluster \<Rightarrow> (string \<times> string) set" where
  "links cis c = (\<Union>inst \<in> placed cis c. links_of (chain inst)) \<union> {NoTopology} \<times> unplaced cis c"

definition tops :: "compute_instances list \<Rightarrow> cluster \<Rightarrow> string set" where
  "tops cis c = (\<lambda>inst. hd (chain inst)) ` placed cis c \<union> (if unplaced cis c = {} then {} else {NoTopology})"

text \<open>
  The tree has exactly the paths along the links from a top; a vertex has the last key of its path as ID, and as name
  that of a tier of an instance, the name of a node, or none for the vertex above the instances without topology.
\<close>

definition has_tree :: "compute_instances list \<Rightarrow> cluster \<Rightarrow> vertex \<Rightarrow> bool" where
  "has_tree cis c tree \<longleftrightarrow>
     (\<forall>p. p \<noteq> [] \<longrightarrow> (at_path tree p \<noteq> None \<longleftrightarrow> hd p \<in> tops cis c \<and> links_of p \<subseteq> links cis c)) \<and>
     (\<forall>p v. p \<noteq> [] \<longrightarrow> at_path tree p = Some v \<longrightarrow> ID v = last p \<and>
        (Vertices v = [] \<and> map_of (instance_names cis) (ID v) = Some (Name v) \<or>
         (\<exists>inst \<in> placed cis c. (ID v, Name v) \<in> set (tiers_of inst)) \<or> ID v = NoTopology \<and> Name v = []))"

text \<open>The blocks are those of the domains, each with its hosts; no blocks without domains.\<close>

definition has_blocks :: "compute_instances list \<Rightarrow> cluster \<Rightarrow> vertex option \<Rightarrow> bool" where
  "has_blocks cis c blocks \<longleftrightarrow>
     (case blocks of
        None \<Rightarrow> \<forall>inst \<in> placed cis c. AcceleratorID inst = []
      | Some root \<Rightarrow>
          set (mkeys (Vertices root)) = AcceleratorID ` placed cis c - {[]} \<and>
          (\<forall>d b. map_of (Vertices root) d = Some b \<longrightarrow> Name b = d \<and>
             (\<forall>h. map_of (Vertices b) h \<noteq> None \<longleftrightarrow>
                (\<exists>inst \<in> placed cis c. AcceleratorID inst = d \<and> map_of (instance_names cis) (InstanceID inst) = Some h)) \<and>
             (\<forall>h w. map_of (Vertices b) h = Some w \<longrightarrow>
                (\<exists>inst \<in> placed cis c. AcceleratorID inst = d \<and> map_of (instance_names cis) (InstanceID inst) = Some h \<and>
                   w = leaf h (InstanceID inst)))))"

section \<open>Paths\<close>

lemma links_of_simps [simp]:
  "links_of [] = {}" "links_of [a] = {}" "links_of (a # b # p) = insert (a, b) (links_of (b # p))"
  by (simp_all add: links_of_def)

lemma those_lookup:
  "those (map (\<lambda>(k, r). map_option (Pair k) (g r)) xs) = Some vs \<Longrightarrow> map_of vs k = Option.bind (map_of xs k) g"
  by (induction xs arbitrary: vs) (auto split: option.splits)

lemma those_None: "None \<in> set xs \<Longrightarrow> those xs = None"
  by (induction xs) (auto split: option.splits)

text \<open>The links of a store, and paths through what it unfolds to.\<close>

definition store_links :: "sw_store \<Rightarrow> (string \<times> string) set" where
  "store_links st = {(i, ref_id r) | i r. edge st i r}"

lemma child_lookup:
  assumes "wf_store rk A st" and "ids_ok rk A" and "map_of st i = Some c"
  shows "map_of (sw_children c) k = Some r \<longleftrightarrow> edge st i r \<and> ref_id r = k"
proof
  assume "map_of (sw_children c) k = Some r"
  then have "(k, r) \<in> set (sw_children c)" by (rule map_of_SomeD)
  then show "edge st i r \<and> ref_id r = k"
    using wf_store_child [OF assms(1,3)] assms(3) by (force simp: edge_def)
next
  assume e: "edge st i r \<and> ref_id r = k"
  then obtain k' where kid: "(k', r) \<in> set (sw_children c)" using assms(3) by (auto simp: edge_def)
  then have "k' = k" using wf_store_child [OF assms(1,3)] e by blast
  then obtain r' where r': "map_of (sw_children c) k = Some r'" using kid weak_map_of_SomeI by fast
  then have "ref_id r' = ref_id r" "ok_ref A st r'" "ok_ref A st r"
    using wf_store_child [OF assms(1,3) map_of_SomeD] wf_store_child [OF assms(1,3) kid] \<open>k' = k\<close> by auto
  then show "map_of (sw_children c) k = Some r" using r' ref_id_inj [OF assms(2,1)] by blast
qed

lemma unfold_path:
  assumes "wf_store rk A st" and "ids_ok rk A" and "ok_ref A st r" and "to_vertex f st r = Some v"
  shows "(at_path v p \<noteq> None \<longleftrightarrow> links_of (ref_id r # p) \<subseteq> store_links st) \<and>
    (\<forall>w. at_path v p = Some w \<longrightarrow> ID w = last (ref_id r # p) \<and>
       ((\<exists>n i. w = leaf n i \<and> (i, n) \<in> A) \<or> (\<exists>c. map_of st (ID w) = Some c \<and> Name w = sw_name c)))"
  using assms(3,4)
proof (induction p arbitrary: f r v)
  case Nil
  show ?case
  proof (cases r)
    case (NodeRef n i)
    then show ?thesis using Nil by (auto simp: ok_ref_def)
  next
    case (SwRef i)
    then show ?thesis using Nil by (cases f) (auto split: option.splits)
  qed
next
  case (Cons k p)
  show ?case
  proof (cases r)
    case (NodeRef n i)
    have "(i, k) \<notin> store_links st"
    proof
      assume "(i, k) \<in> store_links st"
      then obtain q where "edge st i q" by (auto simp: store_links_def)
      then obtain c where "map_of st i = Some c" by (auto simp: edge_def)
      then have "rk i \<noteq> 0" using wf_store_switch [OF assms(1)] by blast
      moreover have "(i, n) \<in> A" using Cons.prems(1) NodeRef by (simp add: ok_ref_def)
      ultimately show False using assms(2) by (auto simp: ids_ok_def)
    qed
    then show ?thesis using Cons.prems NodeRef by auto
  next
    case (SwRef i)
    then obtain g c vs where f: "f = Suc g" and c: "map_of st i = Some c" and v: "v = Vertex (sw_name c) i vs []"
      and vs: "those (map (\<lambda>(k, r). map_option (Pair k) (to_vertex g st r)) (sw_children c)) = Some vs"
      using Cons.prems(2) by (cases f) (auto split: option.splits)
    note look = those_lookup [OF vs, of k]
    show ?thesis
    proof (cases "map_of (sw_children c) k")
      case None
      then have "\<not> (edge st i q \<and> ref_id q = k)" for q by (simp add: child_lookup [OF assms(1,2) c, symmetric])
      then have "(i, k) \<notin> store_links st" unfolding store_links_def by blast
      then show ?thesis using None look v SwRef by simp
    next
      case (Some q)
      then have e: "edge st i q" "ref_id q = k" using child_lookup [OF assms(1,2) c] by blast+
      have kid: "(k, q) \<in> set (sw_children c)" using Some by (rule map_of_SomeD)
      have "to_vertex g st q \<noteq> None"
      proof
        assume "to_vertex g st q = None"
        then have "None \<in> set (map (\<lambda>(k, r). map_option (Pair k) (to_vertex g st r)) (sw_children c))" using kid by force
        then have "those (map (\<lambda>(k, r). map_option (Pair k) (to_vertex g st r)) (sw_children c)) = None"
          by (rule those_None)
        then show False using vs by simp
      qed
      then obtain u where u: "to_vertex g st q = Some u" by blast
      have "ok_ref A st q" using wf_store_child [OF assms(1) c kid] by blast
      from Cons.IH [OF this u] show ?thesis
        using look Some u v SwRef e by (auto simp: store_links_def)
    qed
  qed
qed

section \<open>The links that the loops make\<close>

lemma link_step_edges:
  assumes "wf_store rk A st" and "ids_ok rk A" and "ok_ref A st r" and "link_step (i, n) (r, st) = (r', st')"
  shows "edge st' j q \<longleftrightarrow> edge st j q \<or> (i \<noteq> [] \<and> j = i \<and> q = r)"
    and "map_of st' j = Some c' \<Longrightarrow> (\<exists>c. map_of st j = Some c \<and> sw_name c' = sw_name c) \<or> (i \<noteq> [] \<and> j = i \<and> sw_name c' = n)"
proof -
  define c where "c = (case map_of st i of Some c \<Rightarrow> c | None \<Rightarrow> \<lparr>sw_name = n, sw_children = []\<rparr>)"
  have st': "st' = (if i = [] then st else mput i (c\<lparr>sw_children := mput (ref_id r) r (sw_children c)\<rparr>) st)"
    using assms(4) by (auto simp: link_step_def Let_def c_def)
  have "k = ref_id q \<and> ok_ref A st q" if "(k, q) \<in> set (sw_children c)" for k q
    using that wf_store_child [OF assms(1)] by (auto simp: c_def split: option.splits)
  then have "v = r" if "(ref_id r, v) \<in> set (sw_children c)" for v
    using ref_id_inj [OF assms(2,1) _ assms(3), of v] that by auto
  then have kids: "set (mput (ref_id r) r (sw_children c)) = insert (ref_id r, r) (set (sw_children c))"
    by (rule set_mput_same)
  show "edge st' j q \<longleftrightarrow> edge st j q \<or> (i \<noteq> [] \<and> j = i \<and> q = r)"
    using kids by (auto simp: edge_def st' update_conv' c_def split: option.splits if_splits)
  show "map_of st' j = Some c' \<Longrightarrow> (\<exists>c. map_of st j = Some c \<and> sw_name c' = sw_name c) \<or> (i \<noteq> [] \<and> j = i \<and> sw_name c' = n)"
    by (auto simp: st' update_conv' c_def split: option.splits if_splits)
qed

text \<open>The references that the inner loop visits, with the switches above them.\<close>

fun up_links :: "vref \<Rightarrow> string list \<Rightarrow> (string \<times> vref) set" where
  "up_links r [] = {}"
| "up_links r (i # is) = (if i = [] then up_links r is else insert (i, r) (up_links (SwRef i) is))"

fun up_top :: "vref \<Rightarrow> string list \<Rightarrow> vref" where
  "up_top r [] = r"
| "up_top r (i # is) = (if i = [] then up_top r is else up_top (SwRef i) is)"

lemma links_edges:
  assumes "wf_store rk A st" and "ids_ok rk A" and "ok_ref A st r"
    and "fold link_step sws (r, st) = (r', st')"
    and "sorted_wrt (\<lambda>i j. rk i < rk j) (filter (\<lambda>i. i \<noteq> []) (map fst sws))"
    and "\<forall>i \<in> set (map fst sws). i \<noteq> [] \<longrightarrow> rank rk r < rk i"
  shows "(\<forall>j q. edge st' j q \<longleftrightarrow> edge st j q \<or> (j, q) \<in> up_links r (map fst sws)) \<and> r' = up_top r (map fst sws) \<and>
    (\<forall>j c'. map_of st' j = Some c' \<longrightarrow> (\<exists>c. map_of st j = Some c \<and> sw_name c' = sw_name c) \<or> (j, sw_name c') \<in> set sws)"
  using assms
proof (induction sws arbitrary: r st)
  case Nil
  then show ?case by auto
next
  case (Cons sw sws)
  obtain i n where sw: "sw = (i, n)" by (cases sw)
  obtain r1 st1 where step: "link_step (i, n) (r, st) = (r1, st1)" by fastforce
  have rest: "fold link_step sws (r1, st1) = (r', st')" using Cons.prems(4) step by (simp add: sw)
  have one: "wf_store rk A st1 \<and> extends st st1 \<and> ok_ref A st1 r1 \<and> (\<forall>x. below st1 r x \<longrightarrow> below st1 r1 x) \<and>
      (i = [] \<longrightarrow> r1 = r) \<and> (i \<noteq> [] \<longrightarrow> r1 = SwRef i)"
    by (rule link_step_wf [OF Cons.prems(1,2,3) step]) (use Cons.prems(6) in \<open>simp add: sw\<close>)
  have "\<forall>j \<in> set (map fst sws). j \<noteq> [] \<longrightarrow> rank rk r1 < rk j"
    using one Cons.prems(5,6) by (cases "i = []") (auto simp: sw)
  moreover have "sorted_wrt (\<lambda>i j. rk i < rk j) (filter (\<lambda>i. i \<noteq> []) (map fst sws))"
    using Cons.prems(5) by (simp split: if_splits)
  ultimately have two: "(\<forall>j q. edge st' j q \<longleftrightarrow> edge st1 j q \<or> (j, q) \<in> up_links r1 (map fst sws)) \<and> r' = up_top r1 (map fst sws) \<and>
      (\<forall>j c'. map_of st' j = Some c' \<longrightarrow> (\<exists>c. map_of st1 j = Some c \<and> sw_name c' = sw_name c) \<or> (j, sw_name c') \<in> set sws)"
    using Cons.IH [OF _ Cons.prems(2) _ rest] one by blast
  note edges = link_step_edges [OF Cons.prems(1,2,3) step]
  have "edge st' j q \<longleftrightarrow> edge st j q \<or> (j, q) \<in> up_links r (map fst (sw # sws))" for j q
    using two one edges(1) [of j q] by (cases "i = []") (auto simp: sw)
  moreover have "r' = up_top r (map fst (sw # sws))" using two one by (simp add: sw)
  moreover have "(\<exists>c. map_of st j = Some c \<and> sw_name c' = sw_name c) \<or> (j, sw_name c') \<in> set (sw # sws)"
    if c': "map_of st' j = Some c'" for j c'
  proof -
    consider "(j, sw_name c') \<in> set sws" | c1 where "map_of st1 j = Some c1" "sw_name c' = sw_name c1" using two c' by blast
    then show ?thesis
    proof cases
      case 1
      then show ?thesis by simp
    next
      case 2
      then show ?thesis using edges(2) [OF 2(1)] sw by auto
    qed
  qed
  ultimately show ?case by blast
qed

lemma chain_up:
  "links_of (chain inst) = (\<lambda>(i, q). (i, ref_id q)) ` up_links (NodeRef n (InstanceID inst)) (map fst (tiers_of inst))"
  "hd (chain inst) = ref_id (up_top (NodeRef n (InstanceID inst)) (map fst (tiers_of inst)))"
  by (auto simp: chain_def tiers_of_def)

section \<open>The instances seen so far\<close>

lemma find_snoc: "find P (xs @ [x]) = (case find P xs of None \<Rightarrow> if P x then Some x else None | Some y \<Rightarrow> Some y)"
  by (induction xs) auto

lemma find_in: "find P xs = Some x \<Longrightarrow> x \<in> set xs"
  by (induction xs) (auto split: if_splits)

lemma placed_Nil [simp]: "placed cis [] = {}" "unplaced cis [] = {i. map_of (instance_names cis) i \<noteq> None}"
  by (simp_all add: placed_def unplaced_def)

lemma placed_snoc:
  "placed cis (c @ [x]) = placed cis c \<union>
    (if InstanceID x \<notin> InstanceID ` set c \<and> map_of (instance_names cis) (InstanceID x) \<noteq> None then {x} else {})"
proof (rule set_eqI)
  fix inst :: InstanceTopology
  have none: "find (\<lambda>y. InstanceID y = InstanceID inst) c = None \<longleftrightarrow> InstanceID inst \<notin> InstanceID ` set c"
    by (auto simp: find_None_iff image_iff)
  have some: "InstanceID inst \<in> InstanceID ` set c" if "find (\<lambda>y. InstanceID y = InstanceID inst) c = Some z" for z
    using that none by fastforce
  show "inst \<in> placed cis (c @ [x]) \<longleftrightarrow> inst \<in> placed cis c \<union>
      (if InstanceID x \<notin> InstanceID ` set c \<and> map_of (instance_names cis) (InstanceID x) \<noteq> None then {x} else {})"
    using none some by (auto simp: placed_def find_snoc split: option.splits if_splits)
qed

lemma placed_in: "inst \<in> placed cis c \<Longrightarrow> inst \<in> set c"
  unfolding placed_def by (auto dest: find_in)

text \<open>
  What the outer loop has built after the instances \<open>c\<close>: the links and the entries of the forest are those of the
  placed ones, \<open>i2n\<close> holds the others, and the domains have the placed ones by their accelerators.
\<close>

definition shape_inv :: "compute_instances list \<Rightarrow> cluster \<Rightarrow> graph_state \<Rightarrow> bool" where
  "shape_inv cis c s \<longleftrightarrow>
     store_links (cells s) = (\<Union>inst \<in> placed cis c. links_of (chain inst)) \<and>
     mkeys (forest s) = map ref_id (mvals (forest s)) \<and>
     set (mkeys (forest s)) = (\<lambda>inst. hd (chain inst)) ` placed cis c \<and>
     (\<forall>j d. map_of (cells s) j = Some d \<longrightarrow> (\<exists>inst \<in> placed cis c. (j, sw_name d) \<in> set (tiers_of inst))) \<and>
     (\<forall>i. map_of (i2n s) i = (if i \<in> InstanceID ` set c then None else map_of (instance_names cis) i))"

definition domain_inv :: "compute_instances list \<Rightarrow> cluster \<Rightarrow> domain_map \<Rightarrow> bool" where
  "domain_inv cis c m \<longleftrightarrow> wf_domains m \<and> set (mkeys m) = AcceleratorID ` placed cis c - {[]} \<and>
     (\<forall>d h. host_of m d h \<noteq> None \<longleftrightarrow> d \<noteq> [] \<and>
        (\<exists>inst \<in> placed cis c. AcceleratorID inst = d \<and> map_of (instance_names cis) (InstanceID inst) = Some h)) \<and>
     (\<forall>d h i. host_of m d h = Some i \<longrightarrow>
        (\<exists>inst \<in> placed cis c. AcceleratorID inst = d \<and> map_of (instance_names cis) (InstanceID inst) = Some h \<and> InstanceID inst = i))"

lemma mput_keyed:
  "mkeys m = map f (mvals m) \<Longrightarrow> mkeys (mput (f v) v m) = map f (mvals (mput (f v) v m))"
  by (induction m) auto

lemma shape_step:
  assumes inv: "shape_inv cis c s" and graph: "graph_inv rk A s" and ids: "ids_ok rk A"
    and ranked: "sorted_wrt (\<lambda>i j. rk i < rk j) (filter (\<lambda>i. i \<noteq> []) (map fst (tiers_of inst)))"
      "\<forall>i \<in> set (map fst (tiers_of inst)). i \<noteq> [] \<longrightarrow> 0 < rk i"
  shows "shape_inv cis (c @ [inst]) (add_instance inst s)"
proof (cases "map_of (i2n s) (InstanceID inst)")
  case None
  have names: "map_of (i2n s) (InstanceID inst) =
      (if InstanceID inst \<in> InstanceID ` set c then None else map_of (instance_names cis) (InstanceID inst))"
    using inv unfolding shape_inv_def by blast
  then have old: "InstanceID inst \<in> InstanceID ` set c \<or> map_of (instance_names cis) (InstanceID inst) = None"
    using None by (simp split: if_splits)
  then have "placed cis (c @ [inst]) = placed cis c" by (auto simp: placed_snoc)
  moreover have "map_of (i2n s) i = (if i \<in> InstanceID ` set (c @ [inst]) then None else map_of (instance_names cis) i)" for i
    using inv None unfolding shape_inv_def by auto
  moreover have "add_instance inst s = s" using None by (simp add: add_instance_def)
  ultimately show ?thesis using inv unfolding shape_inv_def by (simp del: set_map)
next
  case (Some name)
  have "map_of (i2n s) (InstanceID inst) =
      (if InstanceID inst \<in> InstanceID ` set c then None else map_of (instance_names cis) (InstanceID inst))"
    using inv unfolding shape_inv_def by blast
  then have new: "InstanceID inst \<notin> InstanceID ` set c" "map_of (instance_names cis) (InstanceID inst) = Some name"
    using Some by (simp_all split: if_splits)
  then have placed: "placed cis (c @ [inst]) = insert inst (placed cis c)" by (simp add: placed_snoc)
  let ?node = "NodeRef name (InstanceID inst)"
  obtain top nodes where fold: "fold link_step (tiers_of inst) (?node, cells s) = (top, nodes)" by fastforce
  have wf: "wf_store rk A (cells s)" and "(InstanceID inst, name) \<in> A" using graph Some unfolding graph_inv_def by blast+
  then have "ok_ref A (cells s) ?node" by (simp add: ok_ref_def)
  note edges = links_edges [OF wf ids this fold ranked(1)]
  have edges: "\<And>j q. edge nodes j q \<longleftrightarrow> edge (cells s) j q \<or> (j, q) \<in> up_links ?node (map fst (tiers_of inst))"
    "top = up_top ?node (map fst (tiers_of inst))"
    "\<And>j c'. map_of nodes j = Some c' \<Longrightarrow>
      (\<exists>c. map_of (cells s) j = Some c \<and> sw_name c' = sw_name c) \<or> (j, sw_name c') \<in> set (tiers_of inst)"
    using edges ranked(2) by simp_all
  have state: "i2n (add_instance inst s) = mdel (InstanceID inst) (i2n s)"
    "cells (add_instance inst s) = nodes" "forest (add_instance inst s) = mput (ref_id top) top (forest s)"
    using Some fold by (simp_all add: add_instance_def)
  have "store_links nodes = store_links (cells s) \<union> links_of (chain inst)"
    using edges(1) unfolding store_links_def chain_up(1) [of inst name] by auto
  moreover have "ref_id top = hd (chain inst)" using edges(2) chain_up(2) [of inst name] by simp
  moreover have "\<exists>i \<in> placed cis (c @ [inst]). (j, sw_name d) \<in> set (tiers_of i)" if d: "map_of nodes j = Some d" for j d
    using edges(3) [OF d] inv unfolding shape_inv_def placed by force
  moreover have "map_of (mdel (InstanceID inst) (i2n s)) i =
      (if i \<in> InstanceID ` set (c @ [inst]) then None else map_of (instance_names cis) i)" for i
    using inv unfolding shape_inv_def by (auto simp: delete_conv')
  ultimately show ?thesis
    using inv mput_keyed [of "forest s" ref_id top] unfolding shape_inv_def state mkeys_mput by (auto simp: placed simp del: set_map)
qed

lemma domain_step:
  assumes inv: "domain_inv cis c (domains s)" and names: "map_of (i2n s) (InstanceID inst) =
      (if InstanceID inst \<in> InstanceID ` set c then None else map_of (instance_names cis) (InstanceID inst))"
  shows "domain_inv cis (c @ [inst]) (domains (add_instance inst s))"
proof (cases "map_of (i2n s) (InstanceID inst)")
  case None
  then have "InstanceID inst \<in> InstanceID ` set c \<or> map_of (instance_names cis) (InstanceID inst) = None"
    using names by (simp split: if_splits)
  then have "placed cis (c @ [inst]) = placed cis c" by (auto simp: placed_snoc)
  then show ?thesis using inv None by (simp add: domain_inv_def add_instance_def)
next
  case (Some name)
  then have new: "InstanceID inst \<notin> InstanceID ` set c" "map_of (instance_names cis) (InstanceID inst) = Some name"
    using names Some by (simp_all split: if_splits)
  then have placed: "placed cis (c @ [inst]) = insert inst (placed cis c)" by (simp add: placed_snoc)
  have dom: "domains (add_instance inst s) =
      (if AcceleratorID inst \<noteq> [] then AddHost (AcceleratorID inst) (InstanceID inst) name (domains s) else domains s)"
    using Some by (simp add: add_instance_def split: prod.split)
  have keys: "set (mkeys (AddHost d i h m)) = insert d (set (mkeys m))" for d i h m
    unfolding AddHost_def Let_def by (rule mkeys_mput)
  show ?thesis
  proof (cases "AcceleratorID inst = []")
    case True
    then show ?thesis using inv new unfolding domain_inv_def dom placed by auto
  next
    case False
    then show ?thesis using inv new unfolding domain_inv_def dom placed by (auto simp: keys host_of_AddHost simp del: set_map)
  qed
qed

lemma graph_of_shape:
  assumes tiers: "separate_tiers c" and ids: "ids_ok (tier_rank c) (node_set cis)"
  shows "shape_inv cis c (graph_of cis c) \<and> domain_inv cis c (domains (graph_of cis c))"
proof -
  let ?s = "\<lambda>ys. graph_of cis ys" and ?rk = "tier_rank c" and ?A = "node_set cis"
  have step: "?s (ys @ [inst]) = add_instance inst (?s ys)" for ys inst by (simp add: graph_of_def)
  have "graph_inv ?rk ?A (?s ys) \<and> shape_inv cis ys (?s ys) \<and> domain_inv cis ys (domains (?s ys))"
    if "set ys \<subseteq> set c" for ys
    using that
  proof (induction ys rule: rev_induct)
    case Nil
    have "graph_inv ?rk ?A (?s [])" by (simp add: graph_of_def graph_inv_def wf_store_def node_set_def)
    moreover have "shape_inv cis [] (?s [])" by (simp add: graph_of_def shape_inv_def store_links_def edge_def)
    moreover have "domain_inv cis [] (domains (?s []))" by (simp add: graph_of_def domain_inv_def NewDomainMap_def host_of_def wf_domains_def)
    ultimately show ?case by blast
  next
    case (snoc inst xs)
    then have IH: "graph_inv ?rk ?A (?s xs)" "shape_inv cis xs (?s xs)" "domain_inv cis xs (domains (?s xs))" and inst: "inst \<in> set c"
      by simp_all
    have "map_of (i2n (?s xs)) (InstanceID inst) =
        (if InstanceID inst \<in> InstanceID ` set xs then None else map_of (instance_names cis) (InstanceID inst))"
      using IH(2) unfolding shape_inv_def by blast
    then show ?case
      unfolding step
      using graph_inv_step [OF IH(1) ids tiers inst] shape_step [OF IH(2,1) ids tiers_ranked [OF tiers inst]] domain_step [OF IH(3)]
      by blast
  qed
  then show ?thesis by blast
qed

section \<open>The tree\<close>

lemma links_of_Cons: "p \<noteq> [] \<Longrightarrow> links_of (k # p) = insert (k, hd p) (links_of p)"
  by (cases p) auto

text \<open>A link that starts where no other link leads to is of no use in the middle of a path.\<close>

lemma links_avoid:
  assumes "k \<noteq> z" and "\<forall>(a, b) \<in> E \<union> N. b \<noteq> z" and "\<forall>(a, b) \<in> N. a = z"
  shows "links_of (k # p) \<subseteq> E \<union> N \<longleftrightarrow> links_of (k # p) \<subseteq> E"
  using assms(1)
proof (induction p arbitrary: k)
  case (Cons x p)
  show ?case
  proof (cases "(k, x) \<in> E")
    case True
    then have "x \<noteq> z" using assms(2) by blast
    then show ?thesis using Cons.IH True by simp
  next
    case False
    then have "(k, x) \<notin> E \<union> N" using Cons.prems assms(3) by blast
    then show ?thesis using False by simp
  qed
qed simp

lemma no_topology_paths:
  assumes "distinct (mkeys m)" and "\<And>i j. map_of m i \<noteq> None \<Longrightarrow> (i, j) \<notin> L"
    and "\<And>i. (NoTopology, i) \<in> L \<longleftrightarrow> map_of m i \<noteq> None"
  shows "(at_path (no_topology_vertex m) p \<noteq> None \<longleftrightarrow> links_of (NoTopology # p) \<subseteq> L) \<and>
    (\<forall>v. at_path (no_topology_vertex m) p = Some v \<longrightarrow> ID v = last (NoTopology # p) \<and>
       (Vertices v = [] \<and> map_of m (ID v) = Some (Name v) \<or> ID v = NoTopology \<and> Name v = []))"
proof (cases p)
  case Nil
  then show ?thesis by (simp add: no_topology_vertex_def)
next
  case (Cons i q)
  show ?thesis
  proof (cases "map_of m i")
    case None
    then show ?thesis using Cons assms(3) by (simp add: no_topology_children [OF assms(1)])
  next
    case (Some n)
    then show ?thesis using Cons assms(2) [of i] assms(3) [of i]
      by (cases q) (simp_all add: no_topology_children [OF assms(1)])
  qed
qed

text \<open>The children of the root: the forest, unfolded, and the vertex of the nodes without topology.\<close>

lemma root_children:
  assumes "tree_root s = Some tree" and "NoTopology \<notin> set (mkeys (forest s))"
  shows "map_of (Vertices tree) k =
    (if k = NoTopology \<and> i2n s \<noteq> [] then Some (no_topology_vertex (i2n s))
     else Option.bind (map_of (forest s) k) (to_vertex (Suc (length (cells s))) (cells s)))"
proof -
  let ?f = "to_vertex (Suc (length (cells s))) (cells s)"
  have "mdel NoTopology (forest s) = forest s" using assms(2) by (intro delete_id) auto
  then obtain vs where "those (map (\<lambda>(k, r). map_option (Pair k) (?f r)) (forest s)) = Some vs"
    and "Vertices tree = (if i2n s \<noteq> [] then mput NoTopology (no_topology_vertex (i2n s)) vs else vs)"
    using assms(1) by (cases "i2n s = []") (auto simp: tree_root_def)
  then show ?thesis using those_lookup by (auto simp: update_conv')
qed

lemma tree_paths:
  assumes tiers: "separate_tiers c"
    and apart: "\<forall>i \<in> set (mkeys (instance_names cis)). i \<notin> switch_ids c \<and> i \<noteq> NoTopology"
    and reserved: "NoTopology \<notin> switch_ids c"
    and tree: "tree_root (graph_of cis c) = Some tree"
  shows "has_tree cis c tree"
proof -
  define s where "s = graph_of cis c"
  let ?rk = "tier_rank c" and ?A = "node_set cis" and ?E = "store_links (cells s)" and ?N = "{NoTopology} \<times> unplaced cis c"
  have ids: "ids_ok ?rk ?A" using apart by (intro node_set_ids_ok) blast
  have graph: "graph_inv ?rk ?A s" unfolding s_def by (rule graph_of_inv [OF tiers ids])
  then have wf: "wf_store ?rk ?A (cells s)" unfolding graph_inv_def by blast
  have shape: "shape_inv cis c s" using graph_of_shape [OF tiers ids] by (simp add: s_def)
  have dist: "distinct (mkeys (i2n s))"
    unfolding s_def graph_of_def by (rule add_instance_i2n) (simp add: instance_names_distinct)
  have E: "?E = (\<Union>inst \<in> placed cis c. links_of (chain inst))"
    and left: "\<And>i. map_of (i2n s) i = (if i \<in> InstanceID ` set c then None else map_of (instance_names cis) i)"
    using shape unfolding shape_inv_def by blast+
  have left_iff: "map_of (i2n s) i \<noteq> None \<longleftrightarrow> i \<in> unplaced cis c" for i by (simp add: left unplaced_def)
  have L: "links cis c = ?E \<union> ?N" by (simp add: links_def E)
  have switch: "i \<in> switch_ids c" if ij: "(i, j) \<in> ?E" for i j
  proof -
    obtain d where "map_of (cells s) i = Some d" using ij by (auto simp: store_links_def edge_def)
    then have "?rk i \<noteq> 0" using wf_store_switch [OF wf] by blast
    then show ?thesis by (rule tier_rank_pos)
  qed
  have named: "i \<notin> switch_ids c \<and> i \<noteq> NoTopology" if "map_of (instance_names cis) i \<noteq> None" for i
    using apart that unfolding map_of_eq_None_iff by auto
  have ref: "ref_id r \<noteq> NoTopology" if r: "ok_ref ?A (cells s) r" for r
  proof (cases r)
    case (NodeRef n i)
    then show ?thesis using r named [of i] by (simp add: ok_ref_def node_set_def)
  next
    case (SwRef i)
    then have "map_of (cells s) i \<noteq> None" using r by (simp add: ok_ref_def)
    then obtain d where "map_of (cells s) i = Some d" by blast
    then have "?rk i \<noteq> 0" using wf_store_switch [OF wf] by blast
    then show ?thesis using tier_rank_pos reserved SwRef by auto
  qed
  have avoid: "\<forall>(a, b) \<in> ?E \<union> ?N. b \<noteq> NoTopology" "\<forall>(a, b) \<in> ?N. a = NoTopology"
  proof -
    have "b \<noteq> NoTopology" if ab: "(a, b) \<in> ?E" for a b
    proof -
      obtain r where "edge (cells s) a r" "b = ref_id r" using ab by (auto simp: store_links_def)
      then show ?thesis using ref wf_store_child [OF wf] by (force simp: edge_def)
    qed
    moreover have "b \<noteq> NoTopology" if "b \<in> unplaced cis c" for b using that named by (auto simp: unplaced_def)
    ultimately show "\<forall>(a, b) \<in> ?E \<union> ?N. b \<noteq> NoTopology" by blast
  qed auto
  have forest: "k = ref_id r \<and> ok_ref ?A (cells s) r" if "(k, r) \<in> set (forest s)" for k r
    using graph that unfolding graph_inv_def by fast
  have keys: "set (mkeys (forest s)) = (\<lambda>inst. hd (chain inst)) ` placed cis c" using shape unfolding shape_inv_def by blast
  have none: "NoTopology \<notin> set (mkeys (forest s))" using forest ref by force
  note children = root_children [OF tree [folded s_def] none]
  have tops: "tops cis c = set (mkeys (forest s)) \<union> (if i2n s = [] then {} else {NoTopology})"
  proof -
    have "i2n s = [] \<longleftrightarrow> unplaced cis c = {}"
    proof
      assume "unplaced cis c = {}"
      then have "map_of (i2n s) i = None" for i using left_iff by auto
      then show "i2n s = []" by (metis list.exhaust map_of_Cons_code(2) option.distinct(1) surj_pair)
    qed (use left_iff in fastforce)
    then show ?thesis unfolding tops_def keys by simp
  qed
  have sub: "links_of (k # q) \<subseteq> links cis c \<longleftrightarrow> links_of (k # q) \<subseteq> ?E" if "k \<noteq> NoTopology" for k q
    unfolding L by (rule links_avoid [OF that avoid])
  have one: "(at_path tree (k # q) \<noteq> None \<longleftrightarrow> k \<in> tops cis c \<and> links_of (k # q) \<subseteq> links cis c) \<and>
      (\<forall>v. at_path tree (k # q) = Some v \<longrightarrow> ID v = last (k # q) \<and>
        (Vertices v = [] \<and> map_of (instance_names cis) (ID v) = Some (Name v) \<or>
         (\<exists>inst \<in> placed cis c. (ID v, Name v) \<in> set (tiers_of inst)) \<or> ID v = NoTopology \<and> Name v = []))" for k q
  proof (cases "k = NoTopology")
    case True
    show ?thesis
    proof (cases "i2n s = []")
      case empty: True
      have "map_of (forest s) k = None" using none True by (simp add: map_of_eq_None_iff)
      then have "at_path tree (k # q) = None" using children [of k] empty by simp
      moreover have "k \<notin> tops cis c" using tops none True empty by simp
      ultimately show ?thesis by simp
    next
      case False
      have "(i, j) \<notin> links cis c" if "map_of (i2n s) i \<noteq> None" for i j
        using that switch [of i j] named [of i] unfolding L left_iff by (auto simp: unplaced_def)
      moreover have "(NoTopology, i) \<in> links cis c \<longleftrightarrow> map_of (i2n s) i \<noteq> None" for i
        using switch [of NoTopology i] reserved unfolding L left_iff by auto
      ultimately have
        "(at_path (no_topology_vertex (i2n s)) q \<noteq> None \<longleftrightarrow> links_of (NoTopology # q) \<subseteq> links cis c) \<and>
         (\<forall>v. at_path (no_topology_vertex (i2n s)) q = Some v \<longrightarrow> ID v = last (NoTopology # q) \<and>
           (Vertices v = [] \<and> map_of (i2n s) (ID v) = Some (Name v) \<or> ID v = NoTopology \<and> Name v = []))"
        by (rule no_topology_paths [OF dist])
      moreover have "map_of (i2n s) i = Some n \<Longrightarrow> map_of (instance_names cis) i = Some n" for i n
        by (simp add: left split: if_splits)
      moreover have "at_path tree (k # q) = at_path (no_topology_vertex (i2n s)) q" using children [of k] True False by simp
      moreover have "k \<in> tops cis c" using tops True False by simp
      ultimately show ?thesis using True by auto
    qed
  next
    case False
    show ?thesis
    proof (cases "map_of (forest s) k")
      case None
      then have "at_path tree (k # q) = None" using children [of k] False by simp
      moreover have "k \<notin> tops cis c" using tops None False by (simp add: map_of_eq_None_iff)
      ultimately show ?thesis by simp
    next
      case (Some r)
      then have kr: "(k, r) \<in> set (forest s)" by (rule map_of_SomeD)
      obtain v where v: "to_vertex (Suc (length (cells s))) (cells s) r = Some v" using forest_unfolds [OF graph kr] by blast
      have r: "k = ref_id r" "ok_ref ?A (cells s) r" using forest [OF kr] by blast+
      note path = unfold_path [OF wf ids r(2) v, of q, folded r(1)]
      have at: "at_path tree (k # q) = at_path v q" using children [of k] False Some v by simp
      have "k \<in> set (mkeys (forest s))" using kr by force
      then have "k \<in> tops cis c" unfolding tops using False by simp
      then have "at_path tree (k # q) \<noteq> None \<longleftrightarrow> k \<in> tops cis c \<and> links_of (k # q) \<subseteq> links cis c"
        using path unfolding at sub [OF False] by blast
      moreover have "ID w = last (k # q) \<and>
        (Vertices w = [] \<and> map_of (instance_names cis) (ID w) = Some (Name w) \<or>
         (\<exists>inst \<in> placed cis c. (ID w, Name w) \<in> set (tiers_of inst)) \<or> ID w = NoTopology \<and> Name w = [])"
        if "at_path tree (k # q) = Some w" for w
      proof -
        have w: "ID w = last (k # q)" "(\<exists>n i. w = leaf n i \<and> (i, n) \<in> ?A) \<or> (\<exists>d. map_of (cells s) (ID w) = Some d \<and> Name w = sw_name d)"
          using path that unfolding at by blast+
        from w(2) show ?thesis
        proof
          assume "\<exists>n i. w = leaf n i \<and> (i, n) \<in> ?A"
          then show ?thesis using w(1) by (auto simp: node_set_def)
        next
          assume "\<exists>d. map_of (cells s) (ID w) = Some d \<and> Name w = sw_name d"
          then obtain d where d: "map_of (cells s) (ID w) = Some d" "Name w = sw_name d" by blast
          then obtain inst where "inst \<in> placed cis c" "(ID w, Name w) \<in> set (tiers_of inst)"
            using shape unfolding shape_inv_def by force
          then show ?thesis using w(1) by blast
        qed
      qed
      ultimately show ?thesis by blast
    qed
  qed
  show ?thesis
    unfolding has_tree_def
  proof (rule conjI; intro allI impI)
    fix p :: "string list"
    assume "p \<noteq> []"
    then obtain k q where "p = k # q" by (cases p) auto
    then show "at_path tree p \<noteq> None \<longleftrightarrow> hd p \<in> tops cis c \<and> links_of p \<subseteq> links cis c"
      using one [of k q] by simp
  next
    fix p v
    assume "p \<noteq> []" and v: "at_path tree p = Some v"
    then obtain k q where p: "p = k # q" by (cases p) auto
    show "ID v = last p \<and>
        (Vertices v = [] \<and> map_of (instance_names cis) (ID v) = Some (Name v) \<or>
         (\<exists>inst \<in> placed cis c. (ID v, Name v) \<in> set (tiers_of inst)) \<or> ID v = NoTopology \<and> Name v = [])"
      unfolding p by (rule one [of k q, THEN conjunct2, rule_format, OF v [unfolded p]])
  qed
qed

section \<open>The blocks\<close>

lemma domain_blocks:
  assumes "domain_inv cis c m"
  shows "has_blocks cis c (if m = [] then None else Some (ToBlocks m))"
proof (cases "m = []")
  case True
  then have "AcceleratorID ` placed cis c \<subseteq> {[]}" using assms unfolding domain_inv_def by auto
  then show ?thesis using True by (auto simp: has_blocks_def)
next
  case False
  note inv = assms [unfolded domain_inv_def]
  note wf = inv [THEN conjunct1] and keys = inv [THEN conjunct2, THEN conjunct1]
    and hosted = inv [THEN conjunct2, THEN conjunct2, THEN conjunct1] and held = inv [THEN conjunct2, THEN conjunct2, THEN conjunct2]
  have block: "\<exists>i. b = block_vertex m i d \<and> d \<noteq> []" if b: "map_of (Vertices (ToBlocks m)) d = Some b" for d b
  proof -
    have "d \<in> set (mkeys (Vertices (ToBlocks m)))" using map_of_SomeD [OF b] by force
    then have d: "d \<in> set (mkeys m)" unfolding ToBlocks_keys .
    then have "d \<in> set (sort (mkeys m))" by simp
    then obtain i where i: "i < length (sort (mkeys m))" "sort (mkeys m) ! i = d" unfolding in_set_conv_nth by blast
    then have "map_of (Vertices (ToBlocks m)) d = Some (block_vertex m i d)" using ToBlocks_nth [OF wf, of i] by simp
    moreover have "d \<noteq> []" using d keys by blast
    ultimately show ?thesis using b by auto
  qed
  have "Name b = d \<and>
      (\<forall>h. map_of (Vertices b) h \<noteq> None \<longleftrightarrow>
         (\<exists>inst \<in> placed cis c. AcceleratorID inst = d \<and> map_of (instance_names cis) (InstanceID inst) = Some h)) \<and>
      (\<forall>h w. map_of (Vertices b) h = Some w \<longrightarrow>
         (\<exists>inst \<in> placed cis c. AcceleratorID inst = d \<and> map_of (instance_names cis) (InstanceID inst) = Some h \<and>
            w = leaf h (InstanceID inst)))"
    if b: "map_of (Vertices (ToBlocks m)) d = Some b" for d b
  proof -
    obtain i where v: "b = block_vertex m i d" and d: "d \<noteq> []" using block [OF b] by blast
    note hosts = block_vertex_hosts [OF wf, of i d]
    have known: "host_of m d h \<noteq> None \<longleftrightarrow>
        (\<exists>inst \<in> placed cis c. AcceleratorID inst = d \<and> map_of (instance_names cis) (InstanceID inst) = Some h)" for h
      using hosted [rule_format, of d h] d by simp
    have value_of: "\<exists>inst \<in> placed cis c. AcceleratorID inst = d \<and> map_of (instance_names cis) (InstanceID inst) = Some h \<and> InstanceID inst = j"
      if "host_of m d h = Some j" for h j
      by (rule held [rule_format, OF that])
    have "map_of (Vertices b) h \<noteq> None \<longleftrightarrow>
        (\<exists>inst \<in> placed cis c. AcceleratorID inst = d \<and> map_of (instance_names cis) (InstanceID inst) = Some h)" for h
      unfolding known [symmetric] v hosts by simp
    moreover have "\<exists>inst \<in> placed cis c. AcceleratorID inst = d \<and> map_of (instance_names cis) (InstanceID inst) = Some h \<and>
        w = leaf h (InstanceID inst)" if host: "map_of (Vertices b) h = Some w" for h w
    proof -
      obtain j where "host_of m d h = Some j" "w = leaf h j" using host unfolding v hosts by auto
      then show ?thesis using value_of by blast
    qed
    ultimately show ?thesis by (simp add: v)
  qed
  then show ?thesis using False keys ToBlocks_keys [of m] by (simp add: has_blocks_def del: set_map)
qed

text \<open>How the blocks are read: every domain has a block, with its hosts.\<close>

lemma has_blocks_domain:
  assumes "has_blocks cis c (Some root)" and "inst \<in> placed cis c" and "AcceleratorID inst \<noteq> []"
  shows "\<exists>b. map_of (Vertices root) (AcceleratorID inst) = Some b"
proof -
  have "AcceleratorID inst \<in> set (mkeys (Vertices root))"
    using assms unfolding has_blocks_def option.case by blast
  then show ?thesis by (metis map_of_eq_None_iff not_None_eq set_map)
qed

lemma has_blocks_host:
  assumes "has_blocks cis c (Some root)" and "map_of (Vertices root) (AcceleratorID inst) = Some b"
    and "inst \<in> placed cis c" and "map_of (instance_names cis) (InstanceID inst) = Some h"
  shows "\<exists>inst' \<in> placed cis c. AcceleratorID inst' = AcceleratorID inst \<and>
    map_of (instance_names cis) (InstanceID inst') = Some h \<and> map_of (Vertices b) h = Some (leaf h (InstanceID inst'))"
proof -
  note block = assms(1) [unfolded has_blocks_def option.case, THEN conjunct2, rule_format, OF assms(2), THEN conjunct2]
  have "map_of (Vertices b) h \<noteq> None"
    using block [THEN conjunct1, rule_format, of h] assms(3,4) by blast
  then obtain w where w: "map_of (Vertices b) h = Some w" by blast
  with block [THEN conjunct2, rule_format, OF w] show ?thesis by auto
qed

section \<open>Properties\<close>

lemma graph_shape:
  assumes "separate_tiers c" and "\<forall>i \<in> set (mkeys (instance_names cis)). i \<notin> switch_ids c \<and> i \<noteq> NoTopology"
    and "NoTopology \<notin> switch_ids c"
  shows "\<exists>root tree. fst (snd (ToThreeTierGraph prov cis False c)) = Some root \<and> map_of (Vertices root) TopologyTree = Some tree \<and>
    tree_nodes tree = {(i, n). map_of (instance_names cis) i = Some n} \<and> has_tree cis c tree \<and>
    has_blocks cis c (map_of (Vertices root) TopologyBlock)"
proof -
  have ids: "ids_ok (tier_rank c) (node_set cis)" using assms(2) by (intro node_set_ids_ok) blast
  obtain tree where tree: "tree_root (graph_of cis c) = Some tree" "tree_nodes tree = node_set cis"
    using graph_nodes [OF assms] by blast
  let ?m = "domains (graph_of cis c)"
  let ?root = "Vertex [] [] ((TopologyTree, tree) # (if length ?m \<noteq> 0 then [(TopologyBlock, ToBlocks ?m)] else [])) []"
  have "TopologyBlock \<noteq> TopologyTree" by (simp add: TopologyTree_def TopologyBlock_def)
  then have blocks: "map_of (Vertices ?root) TopologyBlock = (if ?m = [] then None else Some (ToBlocks ?m))" by simp
  have "has_blocks cis c (map_of (Vertices ?root) TopologyBlock)"
    unfolding blocks using graph_of_shape [OF assms(1) ids] by (intro domain_blocks) blast
  moreover have "has_tree cis c tree" using tree_paths [OF assms tree(1)] .
  moreover have "fst (snd (ToThreeTierGraph prov cis False c)) = Some ?root"
    using tree(1) by (simp add: ToThreeTierGraph_def Let_def)
  moreover have "map_of (Vertices ?root) TopologyTree = Some tree" by simp
  ultimately show ?thesis using tree(2) unfolding node_set_def by blast
qed

text \<open>
  C5. \<open>ToThreeTierGraph\<close> returns a finite graph that loses and invents no compute node and puts each where its
  instance belongs: if the block, spine and datacenter IDs are disjoint sets and no instance is called like a switch or
  \<open>no-topology\<close>, the tree of the result has as its compute nodes exactly the instances of the request with their node
  names, those with network attributes and those without; it has exactly the paths that go along the links
  datacenter to spine to block to instance of the instances with network attributes, or from \<open>no-topology\<close> to the others;
  and its blocks are exactly the accelerator domains with their hosts. With normalisation this holds of the normalised cluster.
\<close>

theorem ToThreeTierGraph_nodes:
  assumes "separate_tiers c"
    and "\<forall>i \<in> set (mkeys (instance_names cis)). i \<notin> switch_ids c \<and> i \<noteq> NoTopology"
    and "NoTopology \<notin> switch_ids c"
  shows "\<exists>c' root tree missing. ToThreeTierGraph prov cis norm c = (c', Some root, missing) \<and>
    c' = (if norm then Normalize c else c) \<and>
    map_of (Vertices root) TopologyTree = Some tree \<and>
    tree_nodes tree = {(i, n). map_of (instance_names cis) i = Some n} \<and>
    has_tree cis c' tree \<and> has_blocks cis c' (map_of (Vertices root) TopologyBlock)"
proof -
  define c' where "c' = (if norm then Normalize c else c)"
  have "separate_tiers c'" "switch_ids c' = switch_ids c"
    using assms(1) by (simp_all add: c'_def separate_tiers_def switch_ids_def ids_of_Normalize)
  then obtain root tree where "fst (snd (ToThreeTierGraph prov cis False c')) = Some root" "map_of (Vertices root) TopologyTree = Some tree"
    "tree_nodes tree = {(i, n). map_of (instance_names cis) i = Some n}" "has_tree cis c' tree"
    "has_blocks cis c' (map_of (Vertices root) TopologyBlock)"
    using graph_shape [of c' cis prov] assms(2,3) by auto
  moreover have "ToThreeTierGraph prov cis norm c = ToThreeTierGraph prov cis False c'"
    by (simp add: ToThreeTierGraph_def c'_def)
  moreover have "fst (ToThreeTierGraph prov cis False c') = c'" by (simp add: ToThreeTierGraph_def Let_def)
  ultimately show ?thesis unfolding c'_def [symmetric] by (metis prod.collapse)
qed

theorem ToThreeTierGraph_nodes_witness:
  "\<exists>c' root tree missing. ToThreeTierGraph ''aws'' sample_compute True sample_cluster = (c', Some root, missing) \<and>
    map_of (Vertices root) TopologyTree = Some tree \<and> (''i3'', ''n3'') \<in> tree_nodes tree \<and>
    at_path tree [''d1'', ''s1'', ''b1'', ''i1''] \<noteq> None"
proof -
  have "separate_tiers sample_cluster" "NoTopology \<notin> switch_ids sample_cluster"
    "\<forall>i \<in> set (mkeys (instance_names sample_compute)). i \<notin> switch_ids sample_cluster \<and> i \<noteq> NoTopology"
    by (simp_all add: separate_tiers_def switch_ids_def sample_ids sample_names NoTopology_def)
  then obtain c' root tree missing
    where graph: "ToThreeTierGraph ''aws'' sample_compute True sample_cluster = (c', Some root, missing)"
      "c' = Normalize sample_cluster" "map_of (Vertices root) TopologyTree = Some tree"
      "tree_nodes tree = {(i, n). map_of (instance_names sample_compute) i = Some n}" "has_tree sample_compute c' tree"
    using ToThreeTierGraph_nodes [of sample_cluster sample_compute "''aws''" True] by auto
  let ?p = "[''d1'', ''s1'', ''b1'', ''i1'']"
  have first: "map (\<lambda>inst. (InstanceID inst, chain inst)) (Normalize sample_cluster) =
      [(''i1'', ?p), (''i2'', [''d1'', ''s1'', ''b2'', ''i2'']), (''i9'', [''d1'', ''s9'', ''b9'', ''i9''])]"
    by code_simp
  then obtain inst rest where inst: "Normalize sample_cluster = inst # rest" "InstanceID inst = ''i1''" "chain inst = ?p" by auto
  then have "inst \<in> placed sample_compute c'" unfolding placed_def graph(2) by (simp add: sample_names)
  then have "hd ?p \<in> tops sample_compute c'" "links_of ?p \<subseteq> links sample_compute c'"
    using inst(3) unfolding tops_def links_def by force+
  then have "at_path tree ?p \<noteq> None" using graph(5) unfolding has_tree_def by blast
  then show ?thesis using graph by (simp add: sample_names)
qed

end
