(* ===== verification/Merger.thy ===== *)
theory Merger
  imports Topology
begin

text \<open>
  \<open>pkg/topology/merger.go\<close>: merging the equivalent switches of a multi-path fabric.

  \<open>NewMerger\<close> walks the graph from the top vertices to the compute nodes and records its tiers;
  \<open>Merge\<close> goes through the tiers from the bottom and replaces all switches of a tier with the
  same children (after merging of the tier below) by the first of them.

  \<open>traverse\<close> calls itself with an empty layer forever when a layer has no leaf and no unseen child;
  that outcome is \<open>None\<close>. \<open>mergeLayer\<close> stores a nil vertex when a child was never recorded
  in \<open>nodes\<close>; such a merge is \<open>None\<close> too. The theorems show when neither happens.
\<close>

section \<open>Definitions\<close>

record Merger =
  tiers :: "vertex list list"
  nodes :: "(string, vertex) gomap"
  refs :: "(string, vertex) gomap"

text \<open>The unseen children of a layer, in the order of the layer and of the sorted keys of each vertex.\<close>

definition visit_child :: "vertex \<Rightarrow> string \<Rightarrow> string set \<times> vertex list \<Rightarrow> string set \<times> vertex list" where
  "visit_child v i s =
     (if i \<in> fst s then s
      else (insert i (fst s), snd s @ (case map_of (Vertices v) i of Some w \<Rightarrow> [w] | None \<Rightarrow> [])))"

definition next_children :: "vertex \<Rightarrow> string set \<times> vertex list \<Rightarrow> string set \<times> vertex list" where
  "next_children v s = fold (visit_child v) (sort (mkeys (Vertices v))) s"

definition next_layer :: "vertex list \<Rightarrow> vertex list" where
  "next_layer layer = snd (fold next_children layer (set (map (\<lambda>v. ID v) layer), []))"

definition is_leaf :: "vertex \<Rightarrow> bool" where
  "is_leaf v \<longleftrightarrow> length (Vertices v) = 0"

definition layer_height :: "vertex list \<Rightarrow> nat" where
  "layer_height layer = foldr (\<lambda>v. max (height v)) layer 0"

lemma layer_height_less:
  assumes "layer \<noteq> []" and "\<And>w. w \<in> set nxt \<Longrightarrow> \<exists>v \<in> set layer. height w < height v"
  shows "layer_height nxt < layer_height layer"
proof -
  have bound: "layer_height ws < n" if "0 < n" "\<And>w. w \<in> set ws \<Longrightarrow> height w < n" for ws n
    using that by (induction ws) (auto simp: layer_height_def)
  have top: "height v \<le> layer_height layer" if "v \<in> set layer" for v
    unfolding layer_height_def by (rule foldr_max_ge [OF that])
  obtain v where "v \<in> set layer" using assms(1) by (cases layer) auto
  then have "0 < layer_height layer" using top [of v] height_pos [of v] by linarith
  moreover have "height w < layer_height layer" if "w \<in> set nxt" for w
    using assms(2) [OF that] top by fastforce
  ultimately show ?thesis by (rule bound)
qed

lemma visit_child_subset:
  "w \<in> set (snd (fold (visit_child v) ks s)) \<Longrightarrow> w \<in> set (snd s) \<or> w \<in> snd ` set (Vertices v)"
proof (induction ks arbitrary: s)
  case (Cons k ks)
  then have "w \<in> set (snd (visit_child v k s)) \<or> w \<in> snd ` set (Vertices v)" by simp
  moreover have "x \<in> snd ` set (Vertices v)" if "map_of (Vertices v) k = Some x" for x
    using map_of_SomeD [OF that] by force
  then have "set (snd (visit_child v k s)) \<subseteq> set (snd s) \<union> snd ` set (Vertices v)"
    by (auto simp: visit_child_def split: option.splits)
  ultimately show ?case by blast
qed simp

lemma next_layer_child:
  assumes "w \<in> set (next_layer layer)"
  shows "\<exists>v \<in> set layer. w \<in> snd ` set (Vertices v)"
proof -
  have "w \<in> set (snd (fold next_children vs s)) \<Longrightarrow>
      w \<in> set (snd s) \<or> (\<exists>v \<in> set vs. w \<in> snd ` set (Vertices v))" for vs s
  proof (induction vs arbitrary: s)
    case (Cons v vs)
    then have "w \<in> set (snd (next_children v s)) \<or> (\<exists>v \<in> set vs. w \<in> snd ` set (Vertices v))" by simp
    then show ?case using visit_child_subset [of w v _ s] unfolding next_children_def by auto
  qed simp
  then show ?thesis using assms unfolding next_layer_def by fastforce
qed

function traverse :: "vertex list \<Rightarrow> Merger \<Rightarrow> Merger option" where
  "traverse layer m =
     (if layer = [] then None
      else (let m = fold (\<lambda>v m. if is_leaf v then m\<lparr>nodes := mput (ID v) v (nodes m)\<rparr> else m) layer m
            in map_option (\<lambda>m. m\<lparr>tiers := tiers m @ [layer]\<rparr>)
                 (if \<exists>v \<in> set layer. is_leaf v then Some m else traverse (next_layer layer) m)))"
  by pat_completeness auto
termination
proof (relation "measure (\<lambda>(layer, m). layer_height layer)", simp)
  show "((next_layer layer, m'), (layer, m)) \<in> measure (\<lambda>(layer, m). layer_height layer)"
    if "layer \<noteq> []" for layer :: "vertex list" and m m' :: Merger
  proof -
    have "\<exists>v \<in> set layer. height w < height v" if "w \<in> set (next_layer layer)" for w
      using next_layer_child [OF that] height_child by fastforce
    then show ?thesis using layer_height_less [OF that] by simp
  qed
qed

declare traverse.simps [simp del]

definition empty_merger :: Merger where
  "empty_merger = \<lparr>tiers = [], nodes = [], refs = []\<rparr>"

definition NewMerger :: "vertex list \<Rightarrow> Merger option" where
  "NewMerger layer =
     (if length layer = 0 then Some empty_merger
      else traverse (sort_key (\<lambda>v. ID v) layer) empty_merger)"

definition TopTier :: "Merger \<Rightarrow> vertex list" where
  "TopTier m = (if tiers m = [] then [] else last (tiers m))"

text \<open>The IDs of the children of a vertex after the merges below it, sorted.\<close>

definition signature :: "(string, vertex) gomap \<Rightarrow> vertex \<Rightarrow> string list" where
  "signature rs v =
     sort (mkeys (fold (\<lambda>i. mput (case map_of rs i of Some r \<Rightarrow> ID r | None \<Rightarrow> i) True)
                   (mkeys (Vertices v)) []))"

text \<open>The vertex for a new signature; \<open>None\<close> if a child has no entry in \<open>nodes\<close>.\<close>

definition merged_vertex :: "(string, vertex) gomap \<Rightarrow> vertex \<Rightarrow> string list \<Rightarrow> vertex option" where
  "merged_vertex ns v sig =
     map_option (\<lambda>cs. Vertex (Name v) (ID v) cs [])
       (those (map (\<lambda>i. map_option (Pair i) (map_of ns i)) sig))"

type_synonym layer_state = "Merger \<times> (string list \<times> string) list \<times> vertex list"

definition merge_vertex :: "vertex \<Rightarrow> layer_state option \<Rightarrow> layer_state option" where
  "merge_vertex v s =
     (case s of None \<Rightarrow> None
      | Some (m, filters, result) \<Rightarrow>
          (let sig = signature (refs m) v
           in case map_of filters sig of
                Some i \<Rightarrow>
                  (case map_of (nodes m) i of
                     None \<Rightarrow> None
                   | Some r \<Rightarrow> Some (m\<lparr>refs := mput (ID v) r (refs m)\<rparr>, filters, result))
              | None \<Rightarrow>
                  (case merged_vertex (nodes m) v sig of
                     None \<Rightarrow> None
                   | Some merged \<Rightarrow>
                       Some (m\<lparr>nodes := mput (ID v) merged (nodes m)\<rparr>, filters @ [(sig, ID v)], result @ [merged]))))"

definition mergeLayer :: "vertex list \<Rightarrow> Merger \<Rightarrow> (Merger \<times> vertex list) option" where
  "mergeLayer layer m =
     map_option (\<lambda>(m, filters, result). (m, result)) (fold merge_vertex layer (Some (m, [], [])))"

fun merge_tiers :: "vertex list list \<Rightarrow> Merger \<Rightarrow> (Merger \<times> vertex list list) option" where
  "merge_tiers [] m = Some (m, [])"
| "merge_tiers (t # ts) m =
     (case mergeLayer t m of
        None \<Rightarrow> None
      | Some (m, t') \<Rightarrow> map_option (\<lambda>(m, ts'). (m, t' # ts')) (merge_tiers ts m))"

definition Merge :: "Merger \<Rightarrow> Merger option" where
  "Merge m =
     (case tiers m of
        [] \<Rightarrow> Some m
      | t0 # ts \<Rightarrow> map_option (\<lambda>(m, ts'). m\<lparr>tiers := t0 # ts'\<rparr>) (merge_tiers ts m))"

section \<open>Layered graphs\<close>

text \<open>
  A vertex of level \<open>n\<close>: all compute nodes are \<open>n\<close> tiers below it and children are filed under
  their IDs. In a consistent set of vertices the children belong to the set and an ID has one vertex.
\<close>

fun level :: "nat \<Rightarrow> vertex \<Rightarrow> bool" where
  "level 0 v \<longleftrightarrow> Vertices v = []"
| "level (Suc n) v \<longleftrightarrow> Vertices v \<noteq> [] \<and> distinct (mkeys (Vertices v)) \<and>
     (\<forall>(k, w) \<in> set (Vertices v). k = ID w \<and> level n w)"

definition consistent :: "vertex set \<Rightarrow> bool" where
  "consistent U \<longleftrightarrow>
     (\<forall>v \<in> U. \<forall>w \<in> snd ` set (Vertices v). w \<in> U) \<and> (\<forall>v \<in> U. \<forall>w \<in> U. ID v = ID w \<longrightarrow> v = w)"

definition kids :: "vertex \<Rightarrow> vertex set" where
  "kids v = snd ` set (Vertices v)"

lemma subs_kids: "u \<in> set (subs v) \<Longrightarrow> w \<in> kids u \<Longrightarrow> w \<in> set (subs v)"
proof (induction v rule: subs.induct)
  case (1 n i cs m)
  show ?case
  proof (cases "u = Vertex n i cs m")
    case True
    then obtain k where "(k, w) \<in> set cs" using 1(3) by (auto simp: kids_def)
    then show ?thesis using subs_self [of w] by force
  next
    case False
    then obtain k x where "(k, x) \<in> set cs" "u \<in> set (subs x)" using 1(2) by auto
    then show ?thesis using 1(1) [of "(k, x)" k x] 1(3) by force
  qed
qed

lemma level_kids: "level (Suc n) v \<Longrightarrow> w \<in> kids v \<Longrightarrow> level n w"
  by (auto simp: kids_def)

lemma level_lookup:
  assumes "level (Suc n) v"
  shows "map_of (Vertices v) i = Some w \<longleftrightarrow> w \<in> kids v \<and> ID w = i"
proof -
  have d: "distinct (mkeys (Vertices v))" and k: "\<And>k w. (k, w) \<in> set (Vertices v) \<Longrightarrow> k = ID w"
    using assms by auto
  show ?thesis unfolding map_of_eq_Some_iff [OF d] kids_def using k by force
qed

lemma level_keys: "level (Suc n) v \<Longrightarrow> set (mkeys (Vertices v)) = (\<lambda>w. ID w) ` kids v"
  by (force simp: kids_def)

lemma level_unique: "level m v \<Longrightarrow> level n v \<Longrightarrow> m = n"
proof (induction m arbitrary: n v)
  case 0
  then show ?case by (cases n) auto
next
  case (Suc m)
  then obtain n' where n: "n = Suc n'" by (cases n) auto
  obtain k w where "(k, w) \<in> set (Vertices v)" using Suc.prems(1) by (cases "Vertices v") auto
  then have "w \<in> kids v" by (force simp: kids_def)
  then show ?case using Suc.IH [of w n'] Suc.prems level_kids n by blast
qed

definition seen_ok :: "string set \<Rightarrow> string set \<times> vertex list \<Rightarrow> bool" where
  "seen_ok V s \<longleftrightarrow> fst s = V \<union> (\<lambda>w. ID w) ` set (snd s)"

lemma visit_children:
  assumes "level (Suc n) v" and "seen_ok V s" and "set ks \<subseteq> set (mkeys (Vertices v))"
  shows "seen_ok V (fold (visit_child v) ks s) \<and>
    set ks \<subseteq> fst (fold (visit_child v) ks s) \<and> fst s \<subseteq> fst (fold (visit_child v) ks s)"
  using assms(2,3)
proof (induction ks arbitrary: s)
  case (Cons k ks)
  have "k \<in> set (mkeys (Vertices v))" using Cons.prems(2) by simp
  then obtain w where w: "map_of (Vertices v) k = Some w" "ID w = k"
    using set_fst_map_of [of k "Vertices v"] level_lookup [OF assms(1), of k] by fastforce
  have ok: "seen_ok V (visit_child v k s)"
    using Cons.prems(1) w by (auto simp: visit_child_def seen_ok_def)
  have "k \<in> fst (visit_child v k s)" "fst s \<subseteq> fst (visit_child v k s)"
    by (auto simp: visit_child_def)
  moreover have "set ks \<subseteq> set (mkeys (Vertices v))" using Cons.prems(2) by simp
  note Cons.IH [OF ok this]
  moreover have "fold (visit_child v) (k # ks) s = fold (visit_child v) ks (visit_child v k s)"
    "set (k # ks) = insert k (set ks)" by simp_all
  ultimately show ?case by (simp only:) blast
qed simp

lemma next_layer_complete:
  assumes "\<forall>v \<in> set layer. level (Suc n) v \<and> v \<in> U" and "consistent U" and "v \<in> set layer" and "w \<in> kids v"
  shows "w \<in> set (next_layer layer)"
proof -
  let ?V = "set (map (\<lambda>v. ID v) layer)"
  have loop: "seen_ok ?V (fold next_children vs s) \<and>
      (\<Union>v \<in> set vs. set (mkeys (Vertices v))) \<subseteq> fst (fold next_children vs s) \<and>
      fst s \<subseteq> fst (fold next_children vs s)"
    if "set vs \<subseteq> set layer" "seen_ok ?V s" for vs s
    using that
  proof (induction vs arbitrary: s)
    case (Cons v vs)
    have "level (Suc n) v" using Cons.prems(1) assms(1) by auto
    from visit_children [OF this Cons.prems(2), of "sort (mkeys (Vertices v))"]
    have step: "seen_ok ?V (next_children v s)" "set (mkeys (Vertices v)) \<subseteq> fst (next_children v s)" "fst s \<subseteq> fst (next_children v s)"
      unfolding next_children_def by simp_all
    have "set vs \<subseteq> set layer" using Cons.prems(1) by simp
    note rest = Cons.IH [OF this step(1)]
    have eq: "fold next_children (v # vs) s = fold next_children vs (next_children v s)" by simp
    have un: "(\<Union>v \<in> set (v # vs). set (mkeys (Vertices v))) =
        set (mkeys (Vertices v)) \<union> (\<Union>v \<in> set vs. set (mkeys (Vertices v)))" by simp
    show ?case unfolding eq un
    proof (intro conjI Un_least)
      show "fst s \<subseteq> fst (fold next_children vs (next_children v s))"
        "set (mkeys (Vertices v)) \<subseteq> fst (fold next_children vs (next_children v s))"
        using step rest by (meson subset_trans)+
      show "seen_ok ?V (fold next_children vs (next_children v s))" using rest by (rule conjunct1)
      show "(\<Union>v \<in> set vs. set (mkeys (Vertices v))) \<subseteq> fst (fold next_children vs (next_children v s))"
        using rest by (elim conjE)
    qed
  qed simp
  have inU: "w \<in> U" using assms unfolding consistent_def kids_def by blast
  have wl: "level n w" using assms level_kids by blast
  have "ID w \<in> set (mkeys (Vertices v))" using level_keys [of n v] assms(1,3,4) by blast
  moreover have "seen_ok ?V (?V, [])" by (simp add: seen_ok_def)
  note full = loop [OF subset_refl this]
  ultimately have "ID w \<in> fst (fold next_children layer (?V, []))" using assms(3) by blast
  then have "ID w \<in> ?V \<union> (\<lambda>w. ID w) ` set (next_layer layer)"
    using full unfolding next_layer_def seen_ok_def by blast
  moreover have "ID w \<notin> ?V"
  proof
    assume "ID w \<in> ?V"
    then obtain u where "u \<in> set layer" "ID u = ID w" by auto
    then have "u = w" using assms(1,2) inU unfolding consistent_def by blast
    then have "level (Suc n) w" using \<open>u \<in> set layer\<close> assms(1) by blast
    from level_unique [OF wl this] show False by simp
  qed
  ultimately obtain u where u: "u \<in> set (next_layer layer)" "ID u = ID w" by auto
  then obtain x where "x \<in> set layer" "u \<in> snd ` set (Vertices x)" using next_layer_child by blast
  then have "u \<in> U" using assms(1,2) unfolding consistent_def by blast
  then show ?thesis using u inU assms(2) unfolding consistent_def by blast
qed

section \<open>NewMerger\<close>

text \<open>
  What \<open>NewMerger\<close> establishes: the tiers hold vertices of their level, the children of a tier
  are in the tier below, and exactly the compute nodes are recorded.
\<close>

definition tiers_ok :: "vertex set \<Rightarrow> vertex list list \<Rightarrow> bool" where
  "tiers_ok U ts \<longleftrightarrow>
     (\<forall>i < length ts. \<forall>v \<in> set (ts ! i). level i v \<and> v \<in> U) \<and>
     (\<forall>i. Suc i < length ts \<longrightarrow> (\<forall>v \<in> set (ts ! Suc i). kids v \<subseteq> set (ts ! i)))"

lemma record_leaves:
  "fold (\<lambda>v m. if is_leaf v then m\<lparr>nodes := mput (ID v) v (nodes m)\<rparr> else m) layer m =
    m\<lparr>nodes := fold (\<lambda>v. mput (ID v) v) (filter is_leaf layer) (nodes m)\<rparr>"
  by (induction layer arbitrary: m) simp_all

lemma level_leaf: "level n v \<Longrightarrow> is_leaf v \<longleftrightarrow> n = 0"
  by (cases n) (auto simp: is_leaf_def)

lemma traverse_layered:
  assumes "layer \<noteq> []" and "\<forall>v \<in> set layer. level n v \<and> v \<in> U" and "consistent U" and "tiers m = []"
  shows "\<exists>ts. traverse layer m = Some (m\<lparr>nodes := fold (\<lambda>v. mput (ID v) v) (hd ts) (nodes m), tiers := ts\<rparr>) \<and>
    length ts = Suc n \<and> last ts = layer \<and> tiers_ok U ts"
  using assms
proof (induction n arbitrary: layer m)
  case 0
  then have "filter is_leaf layer = layer" "\<exists>v \<in> set layer. is_leaf v"
    using level_leaf [of 0] by (auto simp: filter_id_conv intro: hd_in_set)
  then have "traverse layer m = Some (m\<lparr>nodes := fold (\<lambda>v. mput (ID v) v) layer (nodes m), tiers := [layer]\<rparr>)"
    using 0(1,4) by (subst traverse.simps) (simp add: record_leaves)
  then show ?case using 0(2) by (intro exI [of _ "[layer]"]) (simp add: tiers_ok_def)
next
  case (Suc n)
  let ?next = "next_layer layer"
  have inner: "\<not> is_leaf v" if "v \<in> set layer" for v using that Suc.prems(2) level_leaf by fastforce
  obtain v where v: "v \<in> set layer" using Suc.prems(1) by (cases layer) auto
  then obtain k w where "(k, w) \<in> set (Vertices v)" using Suc.prems(2) by (cases "Vertices v") auto
  then have "w \<in> kids v" by (force simp: kids_def)
  then have "?next \<noteq> []" using next_layer_complete [OF Suc.prems(2,3) v] by force
  moreover have "\<forall>w \<in> set ?next. level n w \<and> w \<in> U"
  proof
    fix w assume "w \<in> set ?next"
    then obtain x where x: "x \<in> set layer" "w \<in> kids x" using next_layer_child unfolding kids_def by blast
    then have "level (Suc n) x" "x \<in> U" using Suc.prems(2) by blast+
    then show "level n w \<and> w \<in> U"
      using x level_kids Suc.prems(3) unfolding consistent_def kids_def by blast
  qed
  ultimately obtain ts where ts: "traverse ?next m = Some (m\<lparr>nodes := fold (\<lambda>v. mput (ID v) v) (hd ts) (nodes m), tiers := ts\<rparr>)"
    "length ts = Suc n" "last ts = ?next" "tiers_ok U ts"
    using Suc.IH [of ?next m] Suc.prems(3,4) by blast
  have "traverse layer m = map_option (\<lambda>m. m\<lparr>tiers := tiers m @ [layer]\<rparr>) (traverse ?next m)"
    using Suc.prems(1) inner by (subst traverse.simps) (auto simp: record_leaves Let_def)
  then have "traverse layer m = Some (m\<lparr>nodes := fold (\<lambda>v. mput (ID v) v) (hd (ts @ [layer])) (nodes m), tiers := ts @ [layer]\<rparr>)"
    using ts(1,2) by (cases ts) auto
  moreover have "tiers_ok U (ts @ [layer])"
  proof -
    have "ts \<noteq> []" using ts(2) by auto
    then have "ts ! n = ?next" using ts(2,3) by (simp add: last_conv_nth)
    then have "kids v \<subseteq> set (ts ! n)" if "v \<in> set layer" for v
      using next_layer_complete [OF Suc.prems(2,3) that] by auto
    then show ?thesis
      using ts(2,4) Suc.prems(2) unfolding tiers_ok_def
      by (auto simp: nth_append less_Suc_eq simp del: level.simps)
  qed
  ultimately show ?case using ts(2) by (intro exI [of _ "ts @ [layer]"]) simp
qed

section \<open>Merge\<close>

text \<open>
  The vertex that stands for an original one: the one it was merged into, or its own. After a tier
  has been merged, the representative of each of its vertices has its ID as key in \<open>nodes\<close>,
  reaches the same compute nodes, and has the representatives of its children as children.
\<close>

definition rep :: "Merger \<Rightarrow> vertex \<Rightarrow> vertex option" where
  "rep m v = (case map_of (refs m) (ID v) of Some r \<Rightarrow> Some r | None \<Rightarrow> map_of (nodes m) (ID v))"

definition good_rep :: "vertex set \<Rightarrow> nat \<Rightarrow> Merger \<Rightarrow> vertex \<Rightarrow> bool" where
  "good_rep U n m v \<longleftrightarrow>
     (\<exists>r. rep m v = Some r \<and> map_of (nodes m) (ID r) = Some r \<and> set (leaves r) = set (leaves v) \<and>
        (\<exists>u \<in> U. level n u \<and> ID r = ID u))"

definition nodes_ok :: "Merger \<Rightarrow> bool" where
  "nodes_ok m \<longleftrightarrow> (\<forall>i r. map_of (nodes m) i = Some r \<longrightarrow> ID r = i)"

text \<open>The leaves below a list of IDs.\<close>

definition sig_leaves :: "Merger \<Rightarrow> string list \<Rightarrow> vertex set" where
  "sig_leaves m sig = (\<Union>i \<in> set sig. set (leaves (the (map_of (nodes m) i))))"

lemma signature_set:
  assumes "level (Suc n) v"
  shows "set (signature rs v) =
    (\<lambda>w. case map_of rs (ID w) of Some r \<Rightarrow> ID r | None \<Rightarrow> ID w) ` kids v"
    and "distinct (signature rs v)" and "signature rs v \<noteq> []"
proof -
  let ?f = "\<lambda>i. case map_of rs i of Some r \<Rightarrow> ID r | None \<Rightarrow> i"
  let ?m = "fold (\<lambda>i. mput (?f i) True) (mkeys (Vertices v)) []"
  have keys: "set (mkeys (fold (\<lambda>i. mput (?f i) True) ks m)) = ?f ` set ks \<union> set (mkeys m)"
    for ks and m :: "(string, bool) gomap"
    by (induction ks arbitrary: m) (auto simp: mkeys_mput simp del: set_map)
  have "set (signature rs v) = ?f ` set (mkeys (Vertices v))"
    using keys [of "mkeys (Vertices v)" "[]"] by (simp add: signature_def del: set_map)
  also have "\<dots> = (\<lambda>w. ?f (ID w)) ` kids v"
    unfolding level_keys [OF assms] by (simp add: image_image)
  finally show s: "set (signature rs v) = (\<lambda>w. ?f (ID w)) ` kids v" .
  have "distinct (mkeys ?m)" by (rule fold_mput_distinct) simp
  then show "distinct (signature rs v)" by (simp add: signature_def)
  have "kids v \<noteq> {}" using assms by (auto simp: kids_def)
  then show "signature rs v \<noteq> []" using s by auto
qed

lemma leaves_kids: "Vertices v \<noteq> [] \<Longrightarrow> set (leaves v) = (\<Union>w \<in> kids v. set (leaves w))"
  by (cases v; cases "Vertices v") (auto simp: kids_def)

lemma signature_leaves:
  assumes "level (Suc n) v" and "\<And>w. w \<in> kids v \<Longrightarrow> good_rep U n m w" and "nodes_ok m"
  shows "sig_leaves m (signature (refs m) v) = set (leaves v)"
    and "i \<in> set (signature (refs m) v) \<Longrightarrow>
      (\<exists>r. map_of (nodes m) i = Some r) \<and> (\<exists>u \<in> U. level n u \<and> i = ID u)"
proof -
  let ?f = "\<lambda>w. case map_of (refs m) (ID w) of Some r \<Rightarrow> ID r | None \<Rightarrow> ID w"
  have look: "\<exists>r. map_of (nodes m) (?f w) = Some r \<and> set (leaves r) = set (leaves w) \<and> (\<exists>u \<in> U. level n u \<and> ?f w = ID u)"
    if w: "w \<in> kids v" for w
  proof -
    obtain r where r: "rep m w = Some r" "map_of (nodes m) (ID r) = Some r" "set (leaves r) = set (leaves w)"
      "\<exists>u \<in> U. level n u \<and> ID r = ID u"
      using assms(2) [OF w] unfolding good_rep_def by blast
    moreover have "?f w = ID r"
      using r(1) assms(3) by (auto simp: rep_def nodes_ok_def split: option.splits)
    ultimately show ?thesis by (intro exI [of _ r]) simp
  qed
  have leaf_eq: "set (leaves (the (map_of (nodes m) (?f w)))) = set (leaves w)" if "w \<in> kids v" for w
    using look [OF that] by fastforce
  have "sig_leaves m (signature (refs m) v) = (\<Union>w \<in> kids v. set (leaves (the (map_of (nodes m) (?f w)))))"
    unfolding sig_leaves_def signature_set(1) [OF assms(1)] by simp
  also have "\<dots> = (\<Union>w \<in> kids v. set (leaves w))" using leaf_eq by (rule SUP_cong [OF refl])
  also have "\<dots> = set (leaves v)" using assms(1) leaves_kids by simp
  finally show "sig_leaves m (signature (refs m) v) = set (leaves v)" .
  show "(\<exists>r. map_of (nodes m) i = Some r) \<and> (\<exists>u \<in> U. level n u \<and> i = ID u)" if "i \<in> set (signature (refs m) v)"
    using that look unfolding signature_set(1) [OF assms(1)] by blast
qed

lemma signature_cong:
  assumes "\<And>i. i \<in> set (mkeys (Vertices v)) \<Longrightarrow> map_of rs i = map_of rs' i"
  shows "signature rs v = signature rs' v"
proof -
  have "fold (\<lambda>i. mput (case map_of rs i of Some r \<Rightarrow> ID r | None \<Rightarrow> i) True) (mkeys (Vertices v)) [] =
      fold (\<lambda>i. mput (case map_of rs' i of Some r \<Rightarrow> ID r | None \<Rightarrow> i) True) (mkeys (Vertices v)) []"
    using assms by (intro fold_cong) auto
  then show ?thesis by (simp add: signature_def)
qed

lemma merged_vertex_Some:
  assumes "\<And>i. i \<in> set sig \<Longrightarrow> map_of ns i \<noteq> None"
  shows "merged_vertex ns v sig =
    Some (Vertex (Name v) (ID v) (map (\<lambda>i. (i, the (map_of ns i))) sig) [])"
proof -
  have "those (map (\<lambda>i. map_option (Pair i) (map_of ns i)) sig) = Some (map (\<lambda>i. (i, the (map_of ns i))) sig)"
    using assms by (induction sig) (auto split: option.splits)
  then show ?thesis by (simp add: merged_vertex_def)
qed

lemma leaves_of_merged:
  "sig \<noteq> [] \<Longrightarrow> set (leaves (Vertex n i (map (\<lambda>i. (i, the (map_of (nodes m) i))) sig) [])) = sig_leaves m sig"
  by (subst leaves_kids) (auto simp: kids_def sig_leaves_def)

text \<open>The invariant of \<open>mergeLayer\<close> after the vertices \<open>seen\<close> of a layer.\<close>

definition layer_inv :: "vertex list \<Rightarrow> Merger \<Rightarrow> vertex set \<Rightarrow> layer_state \<Rightarrow> bool" where
  "layer_inv layer m0 seen s \<longleftrightarrow>
     (case s of (m, filters, result) \<Rightarrow>
        tiers m = tiers m0 \<and>
        (\<forall>i. i \<notin> (\<lambda>v. ID v) ` set layer \<longrightarrow>
           map_of (nodes m) i = map_of (nodes m0) i \<and> map_of (refs m) i = map_of (refs m0) i) \<and>
        nodes_ok m \<and>
        filters = map (\<lambda>r. (mkeys (Vertices r), ID r)) result \<and>
        distinct (map (\<lambda>r. mkeys (Vertices r)) result) \<and>
        (\<forall>r \<in> set result. map_of (nodes m) (ID r) = Some r \<and>
           set (leaves r) = sig_leaves m0 (mkeys (Vertices r)) \<and>
           (\<exists>v \<in> seen. ID r = ID v \<and> mkeys (Vertices r) = signature (refs m0) v)) \<and>
        (\<forall>v \<in> seen. \<exists>r \<in> set result. rep m v = Some r \<and> mkeys (Vertices r) = signature (refs m0) v) \<and>
        (\<forall>v \<in> set layer. v \<notin> seen \<longrightarrow> map_of (refs m) (ID v) = None))"

text \<open>What a layer of level \<open>Suc n\<close> needs from the tiers below.\<close>

definition layer_ready :: "vertex set \<Rightarrow> nat \<Rightarrow> vertex list \<Rightarrow> Merger \<Rightarrow> bool" where
  "layer_ready U n layer m0 \<longleftrightarrow>
     (\<forall>v \<in> set layer. level (Suc n) v \<and> v \<in> U \<and> (\<forall>w \<in> kids v. w \<in> U \<and> good_rep U n m0 w) \<and>
        map_of (refs m0) (ID v) = None) \<and> nodes_ok m0"

lemma level_ids_disjoint:
  assumes "consistent U" and "u \<in> U" and "level k u" and "\<forall>v \<in> set layer. level (Suc n) v \<and> v \<in> U" and "k \<le> n"
  shows "ID u \<notin> (\<lambda>v. ID v) ` set layer"
proof
  assume "ID u \<in> (\<lambda>v. ID v) ` set layer"
  then obtain v where v: "v \<in> set layer" "ID u = ID v" by blast
  then have "u = v" using assms(1,2,4) unfolding consistent_def by blast
  then have "level (Suc n) u" using v(1) assms(4) by blast
  from level_unique [OF assms(3) this] assms(5) show False by linarith
qed

lemma merge_vertex_step:
  assumes inv: "layer_inv layer m0 seen s" and ready: "layer_ready U n layer m0" and "consistent U"
    and v: "v \<in> set layer" and seen: "seen \<subseteq> set layer"
  shows "\<exists>s'. merge_vertex v (Some s) = Some s' \<and> layer_inv layer m0 (insert v seen) s'"
proof -
  obtain m filters result where s: "s = (m, filters, result)" by (cases s)
  let ?ids = "(\<lambda>v. ID v) ` set layer" and ?sig = "signature (refs m0) v"
  have tiers: "tiers m = tiers m0"
    and same: "\<And>i. i \<notin> ?ids \<Longrightarrow> map_of (nodes m) i = map_of (nodes m0) i \<and> map_of (refs m) i = map_of (refs m0) i"
    and ok: "nodes_ok m" and filters: "filters = map (\<lambda>r. (mkeys (Vertices r), ID r)) result"
    and dist: "distinct (map (\<lambda>r. mkeys (Vertices r)) result)"
    and res: "\<And>r. r \<in> set result \<Longrightarrow> map_of (nodes m) (ID r) = Some r \<and>
        set (leaves r) = sig_leaves m0 (mkeys (Vertices r)) \<and>
        (\<exists>v \<in> seen. ID r = ID v \<and> mkeys (Vertices r) = signature (refs m0) v)"
    and prev: "\<And>v. v \<in> seen \<Longrightarrow> \<exists>r \<in> set result. rep m v = Some r \<and> mkeys (Vertices r) = signature (refs m0) v"
    and fresh: "\<And>v. v \<in> set layer \<Longrightarrow> v \<notin> seen \<Longrightarrow> map_of (refs m) (ID v) = None"
    using inv unfolding layer_inv_def s by blast+
  have lv: "level (Suc n) v" "v \<in> U" "\<And>w. w \<in> kids v \<Longrightarrow> w \<in> U \<and> good_rep U n m0 w"
    and lay: "\<forall>v \<in> set layer. level (Suc n) v \<and> v \<in> U" and ok0: "nodes_ok m0"
    using ready v unfolding layer_ready_def by blast+
  have low: "ID u \<notin> ?ids" if "u \<in> U" "level n u" for u
    by (rule level_ids_disjoint [OF assms(3) that lay order_refl])
  have "map_of (refs m) i = map_of (refs m0) i" if "i \<in> set (mkeys (Vertices v))" for i
  proof -
    obtain w where "w \<in> kids v" "i = ID w" using \<open>i \<in> _\<close> level_keys [OF lv(1)] by blast
    then show ?thesis using low level_kids [OF lv(1)] lv(3) same by blast
  qed
  then have sig: "signature (refs m) v = ?sig" by (rule signature_cong)
  have same_v: "u = v" if "u \<in> set layer" "ID u = ID v" for u
    using that lay lv(2) assms(3) unfolding consistent_def by blast
  show ?thesis
  proof (cases "map_of filters ?sig")
    case (Some i)
    then obtain r where r: "r \<in> set result" "mkeys (Vertices r) = ?sig" "ID r = i"
      unfolding filters by (auto dest!: map_of_SomeD)
    then have look: "map_of (nodes m) i = Some r" using res by blast
    define m' where "m' = m\<lparr>refs := mput (ID v) r (refs m)\<rparr>"
    have step: "merge_vertex v (Some s) = Some (m', filters, result)"
      by (simp add: merge_vertex_def s sig Some look m'_def)
    have refs': "map_of (refs m') i = (if i = ID v then Some r else map_of (refs m) i)" for i
      by (simp add: m'_def update_conv')
    have nodes': "nodes m' = nodes m" "tiers m' = tiers m0" using tiers by (simp_all add: m'_def)
    have rep': "rep m' u = (if ID u = ID v then Some r else rep m u)" for u
      by (simp add: rep_def refs' nodes'(1) split: option.split)
    have "layer_inv layer m0 (insert v seen) (m', filters, result)"
      unfolding layer_inv_def prod.case
    proof (intro conjI)
      show "\<forall>i. i \<notin> ?ids \<longrightarrow> map_of (nodes m') i = map_of (nodes m0) i \<and> map_of (refs m') i = map_of (refs m0) i"
        using same v by (auto simp: refs' nodes'(1))
      show "nodes_ok m'" using ok by (simp add: nodes_ok_def nodes'(1))
      show "\<forall>u \<in> insert v seen. \<exists>r \<in> set result. rep m' u = Some r \<and> mkeys (Vertices r) = signature (refs m0) u"
      proof
        fix u assume u: "u \<in> insert v seen"
        show "\<exists>r \<in> set result. rep m' u = Some r \<and> mkeys (Vertices r) = signature (refs m0) u"
        proof (cases "ID u = ID v")
          case True
          then have "u = v" using u seen same_v by blast
          then show ?thesis using r by (auto simp: rep')
        next
          case False
          then have "u \<in> seen" using u by blast
          then show ?thesis using prev [of u] False by (simp add: rep')
        qed
      qed
      show "\<forall>u \<in> set layer. u \<notin> insert v seen \<longrightarrow> map_of (refs m') (ID u) = None"
        using fresh same_v by (auto simp: refs')
      show "\<forall>r \<in> set result. map_of (nodes m') (ID r) = Some r \<and>
          set (leaves r) = sig_leaves m0 (mkeys (Vertices r)) \<and>
          (\<exists>v \<in> insert v seen. ID r = ID v \<and> mkeys (Vertices r) = signature (refs m0) v)"
        using res unfolding nodes'(1) by blast
    qed (use nodes'(2) filters dist in simp_all)
    then show ?thesis using step by blast
  next
    case None
    have new: "v \<notin> seen"
    proof
      assume "v \<in> seen"
      then obtain r where "r \<in> set result" "mkeys (Vertices r) = ?sig" using prev by blast
      then have "(?sig, ID r) \<in> set filters" unfolding filters by force
      then have "?sig \<in> fst ` set filters" by force
      then show False using None by (simp add: map_of_eq_None_iff)
    qed
    have sigs: "(\<exists>r. map_of (nodes m0) i = Some r) \<and> map_of (nodes m) i = map_of (nodes m0) i" if i: "i \<in> set ?sig" for i
    proof -
      from signature_leaves(2) [OF lv(1) _ ok0 i] lv(3)
      have "(\<exists>r. map_of (nodes m0) i = Some r) \<and> (\<exists>u \<in> U. level n u \<and> i = ID u)" by blast
      then show ?thesis using low same by blast
    qed
    define q where "q = Vertex (Name v) (ID v) (map (\<lambda>i. (i, the (map_of (nodes m0) i))) ?sig) []"
    have "merged_vertex (nodes m) v ?sig =
        Some (Vertex (Name v) (ID v) (map (\<lambda>i. (i, the (map_of (nodes m) i))) ?sig) [])"
      using sigs by (intro merged_vertex_Some) auto
    also have "\<dots> = Some q" using sigs by (simp add: q_def)
    finally have merged: "merged_vertex (nodes m) v ?sig = Some q" .
    have q: "ID q = ID v" "mkeys (Vertices q) = ?sig" "set (leaves q) = sig_leaves m0 ?sig"
      using leaves_of_merged signature_set(3) [OF lv(1)] by (simp_all add: q_def comp_def)
    define m' where "m' = m\<lparr>nodes := mput (ID v) q (nodes m)\<rparr>"
    have step: "merge_vertex v (Some s) = Some (m', filters @ [(?sig, ID v)], result @ [q])"
      by (simp add: merge_vertex_def s sig None merged m'_def)
    have nodes': "map_of (nodes m') i = (if i = ID v then Some q else map_of (nodes m) i)" for i
      by (simp add: m'_def update_conv')
    have refs': "refs m' = refs m" "tiers m' = tiers m0" using tiers by (simp_all add: m'_def)
    have other: "ID u \<noteq> ID v" if "u \<in> seen" for u using that new same_v seen by blast
    have rep_v: "rep m' v = Some q" using fresh [OF v new] by (simp add: rep_def refs'(1) nodes')
    have rep_u: "rep m' u = rep m u" if "u \<in> seen" for u
      using other [OF that] by (simp add: rep_def refs'(1) nodes' split: option.split)
    have sig_new: "?sig \<notin> (\<lambda>r. mkeys (Vertices r)) ` set result"
      using None unfolding filters by (force simp: map_of_eq_None_iff)
    have "layer_inv layer m0 (insert v seen) (m', filters @ [(?sig, ID v)], result @ [q])"
      unfolding layer_inv_def prod.case
    proof (intro conjI)
      show "\<forall>i. i \<notin> ?ids \<longrightarrow> map_of (nodes m') i = map_of (nodes m0) i \<and> map_of (refs m') i = map_of (refs m0) i"
        using same v by (auto simp: nodes' refs'(1))
      show "nodes_ok m'" using ok q(1) by (auto simp: nodes_ok_def nodes' split: if_splits)
      show "\<forall>u \<in> insert v seen. \<exists>r \<in> set (result @ [q]). rep m' u = Some r \<and> mkeys (Vertices r) = signature (refs m0) u"
        using prev rep_u rep_v q(2) by (auto simp del: set_map)
      show "\<forall>u \<in> set layer. u \<notin> insert v seen \<longrightarrow> map_of (refs m') (ID u) = None"
        using fresh by (simp add: refs'(1))
      show "\<forall>r \<in> set (result @ [q]). map_of (nodes m') (ID r) = Some r \<and>
          set (leaves r) = sig_leaves m0 (mkeys (Vertices r)) \<and>
          (\<exists>v \<in> insert v seen. ID r = ID v \<and> mkeys (Vertices r) = signature (refs m0) v)"
      proof
        fix r assume "r \<in> set (result @ [q])"
        then consider "r = q" | "r \<in> set result" by auto
        then show "map_of (nodes m') (ID r) = Some r \<and> set (leaves r) = sig_leaves m0 (mkeys (Vertices r)) \<and>
          (\<exists>v \<in> insert v seen. ID r = ID v \<and> mkeys (Vertices r) = signature (refs m0) v)"
        proof cases
          case 1
          then show ?thesis using q by (simp add: nodes')
        next
          case 2
          then obtain u where "u \<in> seen" "ID r = ID u" using res by blast
          then have "map_of (nodes m') (ID r) = Some r" using other res [OF 2] by (simp add: nodes')
          then show ?thesis using res [OF 2] by blast
        qed
      qed
      show "distinct (map (\<lambda>r. mkeys (Vertices r)) (result @ [q]))"
        using dist sig_new q(2) by (simp del: set_map) simp
    qed (use refs'(2) filters q in simp_all)
    then show ?thesis using step by blast
  qed
qed

text \<open>A whole layer: it never stores a nil vertex, and its result is the layer up to equal signatures.\<close>

lemma mergeLayer_ready:
  assumes "layer_ready U n layer m0" and "consistent U"
  shows "\<exists>m filters result. mergeLayer layer m0 = Some (m, result) \<and>
    layer_inv layer m0 (set layer) (m, filters, result)"
proof -
  have loop: "\<exists>s'. fold merge_vertex vs (Some s) = Some s' \<and> layer_inv layer m0 (set vs \<union> seen) s'"
    if "layer_inv layer m0 seen s" "set vs \<subseteq> set layer" "seen \<subseteq> set layer" for vs seen s
    using that
  proof (induction vs arbitrary: seen s)
    case (Cons v vs)
    then obtain s1 where "merge_vertex v (Some s) = Some s1" "layer_inv layer m0 (insert v seen) s1"
      using merge_vertex_step [OF Cons.prems(1) assms, of v] by auto
    then show ?case using Cons.IH [of "insert v seen" s1] Cons.prems(2,3) by simp
  qed simp
  have "layer_inv layer m0 {} (m0, [], [])"
    using assms(1) by (simp add: layer_inv_def layer_ready_def)
  then obtain s' where "fold merge_vertex layer (Some (m0, [], [])) = Some s'" "layer_inv layer m0 (set layer) s'"
    using loop [of "{}" "(m0, [], [])" layer] by auto
  then show ?thesis unfolding mergeLayer_def by (cases s') auto
qed

text \<open>The result of a layer, and what is kept for the tiers above and below.\<close>

definition merged_layer :: "vertex list \<Rightarrow> vertex list \<Rightarrow> bool" where
  "merged_layer layer result \<longleftrightarrow>
     distinct (map (\<lambda>r. mkeys (Vertices r)) result) \<and>
     (\<forall>v \<in> set layer. \<exists>r \<in> set result. set (leaves r) = set (leaves v)) \<and>
     (\<forall>r \<in> set result. \<exists>v \<in> set layer. ID r = ID v \<and> set (leaves r) = set (leaves v))"

lemma mergeLayer_step:
  assumes ready: "layer_ready U n layer m0" and "consistent U"
    and low: "\<forall>k \<le> n. \<forall>v \<in> L k. level k v \<and> v \<in> U \<and> good_rep U k m0 v"
  shows "\<exists>m result. mergeLayer layer m0 = Some (m, result) \<and> tiers m = tiers m0 \<and> nodes_ok m \<and>
    merged_layer layer result \<and> (\<forall>v \<in> set layer. good_rep U (Suc n) m v) \<and>
    (\<forall>k \<le> n. \<forall>v \<in> L k. good_rep U k m v) \<and>
    (\<forall>v \<in> U. ID v \<notin> (\<lambda>v. ID v) ` set layer \<longrightarrow> map_of (refs m) (ID v) = map_of (refs m0) (ID v))"
proof -
  obtain m filters result where ml: "mergeLayer layer m0 = Some (m, result)"
    and inv: "layer_inv layer m0 (set layer) (m, filters, result)"
    using mergeLayer_ready [OF ready assms(2)] by blast
  let ?ids = "(\<lambda>v. ID v) ` set layer"
  have same: "\<And>i. i \<notin> ?ids \<Longrightarrow> map_of (nodes m) i = map_of (nodes m0) i \<and> map_of (refs m) i = map_of (refs m0) i"
    and ok: "nodes_ok m" and tiers: "tiers m = tiers m0"
    and dist: "distinct (map (\<lambda>r. mkeys (Vertices r)) result)"
    and res: "\<And>r. r \<in> set result \<Longrightarrow> map_of (nodes m) (ID r) = Some r \<and>
        set (leaves r) = sig_leaves m0 (mkeys (Vertices r)) \<and>
        (\<exists>v \<in> set layer. ID r = ID v \<and> mkeys (Vertices r) = signature (refs m0) v)"
    and all: "\<And>v. v \<in> set layer \<Longrightarrow> \<exists>r \<in> set result. rep m v = Some r \<and> mkeys (Vertices r) = signature (refs m0) v"
    using inv unfolding layer_inv_def prod.case by blast+
  have lay: "\<forall>v \<in> set layer. level (Suc n) v \<and> v \<in> U" and ok0: "nodes_ok m0"
    using ready unfolding layer_ready_def by blast+
  have sig: "sig_leaves m0 (signature (refs m0) v) = set (leaves v)" if "v \<in> set layer" for v
  proof (rule signature_leaves(1) [OF _ _ ok0])
    show "level (Suc n) v" and "\<And>w. w \<in> kids v \<Longrightarrow> good_rep U n m0 w"
      using that ready unfolding layer_ready_def by blast+
  qed
  have rep: "\<exists>r \<in> set result. rep m v = Some r \<and> set (leaves r) = set (leaves v)" if "v \<in> set layer" for v
    using all [OF that] res sig [OF that] by force
  have "good_rep U (Suc n) m v" if "v \<in> set layer" for v
  proof -
    obtain r where r: "r \<in> set result" "rep m v = Some r" "set (leaves r) = set (leaves v)"
      using rep [OF \<open>v \<in> set layer\<close>] by blast
    then obtain u where "u \<in> set layer" "ID r = ID u" using res by blast
    then show ?thesis using r res [OF r(1)] lay unfolding good_rep_def by blast
  qed
  moreover have "merged_layer layer result"
    unfolding merged_layer_def
  proof (intro conjI ballI)
    show "\<exists>r \<in> set result. set (leaves r) = set (leaves v)" if "v \<in> set layer" for v
      using rep [OF that] by blast
    show "\<exists>v \<in> set layer. ID r = ID v \<and> set (leaves r) = set (leaves v)" if "r \<in> set result" for r
      using res [OF that] sig by force
  qed (rule dist)
  moreover have "good_rep U k m v" if k: "k \<le> n" and v: "v \<in> L k" for k v
  proof -
    have lv: "level k v" "v \<in> U" "good_rep U k m0 v" using low k v by blast+
    then obtain r u where r: "rep m0 v = Some r" "map_of (nodes m0) (ID r) = Some r" "set (leaves r) = set (leaves v)"
      "u \<in> U" "level k u" "ID r = ID u"
      unfolding good_rep_def by blast
    have "ID v \<notin> ?ids" "ID r \<notin> ?ids"
      using level_ids_disjoint [OF assms(2) lv(2,1) lay k] level_ids_disjoint [OF assms(2) r(4,5) lay k] r(6) by simp_all
    then have "rep m v = Some r" "map_of (nodes m) (ID r) = Some r"
      using same r(1,2) by (simp_all add: rep_def split: option.splits)
    then show ?thesis using r unfolding good_rep_def by blast
  qed
  ultimately show ?thesis using ml tiers ok same by blast
qed

lemma merge_tiers_layered:
  assumes "consistent U" and ts: "tiers_ok U ts" and "rest = drop (Suc i) ts" and "nodes_ok m"
    and "\<forall>k \<le> i. \<forall>v \<in> set (ts ! k). good_rep U k m v"
    and "\<forall>v \<in> U. \<forall>k > i. level k v \<longrightarrow> map_of (refs m) (ID v) = None" and "Suc i \<le> length ts"
  shows "\<exists>m' rest'. merge_tiers rest m = Some (m', rest') \<and> list_all2 merged_layer rest rest'"
  using assms(3-)
proof (induction rest arbitrary: i m)
  case Nil
  then show ?case by simp
next
  case (Cons layer rest)
  have len: "Suc i < length ts" using Cons.prems(1) by (metis drop_eq_Nil leI list.distinct(1))
  have layer: "layer = ts ! Suc i" "rest = drop (Suc (Suc i)) ts"
    using Cons.prems(1) Cons_nth_drop_Suc [OF len] by (metis list.inject)+
  have lv: "level (Suc i) v \<and> v \<in> U" if "v \<in> set layer" for v
    using ts len that unfolding tiers_ok_def layer by blast
  have below: "kids v \<subseteq> set (ts ! i)" if "v \<in> set layer" for v
    using ts len that unfolding tiers_ok_def layer by blast
  have tier: "level k v \<and> v \<in> U" if "k \<le> i" "v \<in> set (ts ! k)" for k v
  proof -
    have "k < length ts" using that(1) len by simp
    then show ?thesis using ts that(2) unfolding tiers_ok_def by blast
  qed
  have ready: "layer_ready U i layer m"
    unfolding layer_ready_def
  proof (intro conjI ballI)
    fix v assume v: "v \<in> set layer"
    show "level (Suc i) v" "v \<in> U" using lv [OF v] by blast+
    show "map_of (refs m) (ID v) = None" using lv [OF v] Cons.prems(4) by (meson lessI)
    fix w assume "w \<in> kids v"
    then have w: "w \<in> set (ts ! i)" using below [OF v] by blast
    show "w \<in> U" using tier [OF order_refl w] by blast
    show "good_rep U i m w" using Cons.prems(3) w by blast
  qed (rule Cons.prems(2))
  have low: "\<forall>k \<le> i. \<forall>v \<in> set (ts ! k). level k v \<and> v \<in> U \<and> good_rep U k m v"
    using tier Cons.prems(3) by blast
  from mergeLayer_step [OF ready assms(1) low] obtain m' result where
    ml: "mergeLayer layer m = Some (m', result)" and ok: "nodes_ok m'" and res: "merged_layer layer result"
    and good: "\<forall>v \<in> set layer. good_rep U (Suc i) m' v" "\<forall>k \<le> i. \<forall>v \<in> set (ts ! k). good_rep U k m' v"
    and rf: "\<forall>v \<in> U. ID v \<notin> (\<lambda>v. ID v) ` set layer \<longrightarrow> map_of (refs m') (ID v) = map_of (refs m) (ID v)"
    by blast
  have refs_none: "\<forall>v \<in> U. \<forall>k > Suc i. level k v \<longrightarrow> map_of (refs m') (ID v) = None"
  proof (intro ballI allI impI)
    fix v k assume v: "v \<in> U" "Suc i < k" "level k v"
    have "ID v \<notin> (\<lambda>v. ID v) ` set layer"
    proof
      assume "ID v \<in> (\<lambda>v. ID v) ` set layer"
      then obtain u where "u \<in> set layer" "ID v = ID u" by blast
      then have "level (Suc i) v" using lv v(1) assms(1) unfolding consistent_def by metis
      from level_unique [OF v(3) this] v(2) show False by linarith
    qed
    then show "map_of (refs m') (ID v) = None" using rf v Cons.prems(4) by (metis Suc_lessD)
  qed
  have reps: "\<forall>k \<le> Suc i. \<forall>v \<in> set (ts ! k). good_rep U k m' v"
    using good layer(1) by (metis le_Suc_eq)
  have "Suc (Suc i) \<le> length ts" using len by simp
  from Cons.IH [OF layer(2) ok reps refs_none this] obtain m2 rest' where
    "merge_tiers rest m' = Some (m2, rest')" "list_all2 merged_layer rest rest'" by blast
  then show ?case using ml res by simp
qed

text \<open>The whole run on a layered graph.\<close>

lemma NewMerger_layered:
  assumes "vs \<noteq> []" and "\<forall>v \<in> set vs. level n v" and "consistent U" and "set vs \<subseteq> U"
  shows "\<exists>m. NewMerger vs = Some m \<and> length (tiers m) = Suc n \<and> set (last (tiers m)) = set vs \<and> tiers_ok U (tiers m) \<and>
    refs m = [] \<and> nodes m = fold (\<lambda>v. mput (ID v) v) (hd (tiers m)) []"
proof -
  let ?layer = "sort_key (\<lambda>v. ID v) vs"
  have "?layer \<noteq> []" "\<forall>v \<in> set ?layer. level n v \<and> v \<in> U" using assms by auto
  from traverse_layered [OF this assms(3), of empty_merger] obtain ts where
    "traverse ?layer empty_merger = Some (empty_merger\<lparr>nodes := fold (\<lambda>v. mput (ID v) v) (hd ts) [], tiers := ts\<rparr>)"
    "length ts = Suc n" "last ts = ?layer" "tiers_ok U ts"
    by (auto simp: empty_merger_def)
  then show ?thesis using assms(1) by (simp add: NewMerger_def empty_merger_def)
qed

lemma Merge_layered:
  assumes "vs \<noteq> []" and "\<forall>v \<in> set vs. level n v" and "consistent U" and "set vs \<subseteq> U"
  shows "\<exists>m m'. NewMerger vs = Some m \<and> Merge m = Some m' \<and> length (tiers m) = Suc n \<and>
    set (last (tiers m)) = set vs \<and> hd (tiers m') = hd (tiers m) \<and>
    list_all2 merged_layer (tl (tiers m)) (tl (tiers m')) \<and> length (tiers m') = Suc n"
proof -
  obtain m where m: "NewMerger vs = Some m" "length (tiers m) = Suc n" "set (last (tiers m)) = set vs" "tiers_ok U (tiers m)"
    "refs m = []" "nodes m = fold (\<lambda>v. mput (ID v) v) (hd (tiers m)) []"
    using NewMerger_layered [OF assms] by blast
  obtain t0 ts where ts: "tiers m = t0 # ts" using m(2) by (cases "tiers m") auto
  have t0: "level 0 v \<and> v \<in> U" if "v \<in> set t0" for v
    using m(4) that unfolding tiers_ok_def ts by fastforce
  have inj: "inj_on (\<lambda>v. ID v) (set t0)"
    using t0 assms(3) unfolding inj_on_def consistent_def by blast
  have look: "map_of (nodes m) (ID v) = Some v" if "v \<in> set t0" for v
    using alm.put_all_inj [OF inj that, of "\<lambda>v. v" "[]"] by (simp add: m(6) ts)
  have "ID r = i" if r: "map_of (nodes m) i = Some r" for i r
  proof -
    have "map_of (fold (\<lambda>v. mput (ID v) v) t0 []) i = Some r" using r by (simp add: m(6) ts)
    from alm.put_all_SomeD [OF this] show ?thesis by auto
  qed
  then have ok: "nodes_ok m" by (simp add: nodes_ok_def)
  have "good_rep U 0 m v" if v: "v \<in> set t0" for v
  proof -
    have "rep m v = Some v" using look [OF v] by (simp add: rep_def m(5))
    then show ?thesis using look [OF v] t0 [OF v] unfolding good_rep_def by blast
  qed
  then have reps: "\<forall>k \<le> 0. \<forall>v \<in> set (tiers m ! k). good_rep U k m v" by (simp add: ts)
  have none: "\<forall>v \<in> U. \<forall>k > 0. level k v \<longrightarrow> map_of (refs m) (ID v) = None" by (simp add: m(5))
  have "ts = drop (Suc 0) (tiers m)" "Suc 0 \<le> length (tiers m)" using ts by simp_all
  from merge_tiers_layered [OF assms(3) m(4) this(1) ok reps none this(2)] obtain m2 ts' where
    "merge_tiers ts m = Some (m2, ts')" "list_all2 merged_layer ts ts'" by blast
  moreover from this have "length ts' = n" using m(2) ts by (simp add: list_all2_lengthD)
  ultimately show ?thesis using m(1,2,3) ts by (auto simp: Merge_def)
qed

text \<open>The layer the merger was given and the top tier it ends with.\<close>

lemma Merge_layered_top:
  assumes "vs \<noteq> []" and "\<forall>v \<in> set vs. level (Suc n) v" and "consistent (\<Union>v \<in> set vs. set (subs v))"
  shows "\<exists>m m'. NewMerger vs = Some m \<and> Merge m = Some m' \<and> length (tiers m) = Suc (Suc n) \<and>
    list_all2 merged_layer (tl (tiers m)) (tl (tiers m')) \<and> hd (tiers m') = hd (tiers m) \<and>
    merged_layer vs (TopTier m')"
proof -
  have "set vs \<subseteq> (\<Union>v \<in> set vs. set (subs v))" using subs_self by blast
  from Merge_layered [OF assms this] obtain m m' where r: "NewMerger vs = Some m" "Merge m = Some m'"
    "length (tiers m) = Suc (Suc n)" "set (last (tiers m)) = set vs" "hd (tiers m') = hd (tiers m)"
    "list_all2 merged_layer (tl (tiers m)) (tl (tiers m'))" "length (tiers m') = Suc (Suc n)"
    by blast
  have two: "tl xs \<noteq> [] \<and> last (tl xs) = last xs" if "length xs = Suc (Suc n)" for xs :: "vertex list list"
    using that by (cases xs; cases "tl xs") auto
  have "list_all2 merged_layer xs ys \<Longrightarrow> xs \<noteq> [] \<Longrightarrow> merged_layer (last xs) (last ys)" for xs ys
    by (induction xs ys rule: list_all2_induct) (auto dest: list_all2_lengthD)
  then have "merged_layer (last (tl (tiers m))) (last (tl (tiers m')))"
    using r(6) two [OF r(3)] by blast
  then have "merged_layer (last (tiers m)) (last (tiers m'))"
    using two [OF r(3)] two [OF r(7)] by simp
  moreover have "TopTier m' = last (tiers m')" using r(7) by (auto simp: TopTier_def)
  ultimately have "merged_layer (last (tiers m)) (TopTier m')" by simp
  moreover have "merged_layer vs ys" if "merged_layer (last (tiers m)) ys" for ys
    using that r(4) by (simp add: merged_layer_def)
  ultimately show ?thesis using r by (intro exI [of _ m] exI [of _ m'] conjI) blast+
qed

section \<open>Properties\<close>

text \<open>
  C8. \<open>NewMerger\<close> and \<open>Merge\<close> on a layered multi-path graph: if all compute nodes are at
  the same depth and an ID belongs to one vertex, both return; every tier above the compute nodes
  is replaced by one whose switches have pairwise different sets of children, in which each old switch has
  a representative with the same compute nodes, and every new switch carries the ID and the compute nodes of
  an old one of that tier. The top tier covers the vertices the merger was given.
\<close>

theorem Merge_layered_graph:
  assumes "vs \<noteq> []" and "\<forall>v \<in> set vs. level (Suc n) v" and "consistent (\<Union>v \<in> set vs. set (subs v))"
  shows "\<exists>m m'. NewMerger vs = Some m \<and> Merge m = Some m' \<and> length (tiers m) = Suc (Suc n) \<and>
    list_all2 merged_layer (tl (tiers m)) (tl (tiers m')) \<and> hd (tiers m') = hd (tiers m) \<and>
    distinct (map (\<lambda>r. mkeys (Vertices r)) (TopTier m')) \<and>
    (\<forall>v \<in> set vs. \<exists>r \<in> set (TopTier m'). set (leaves r) = set (leaves v)) \<and>
    (\<forall>r \<in> set (TopTier m'). \<exists>v \<in> set vs. ID r = ID v \<and> set (leaves r) = set (leaves v))"
proof -
  obtain m m' where m: "NewMerger vs = Some m" "Merge m = Some m'" "length (tiers m) = Suc (Suc n)"
    "list_all2 merged_layer (tl (tiers m)) (tl (tiers m'))" "hd (tiers m') = hd (tiers m)" "merged_layer vs (TopTier m')"
    using Merge_layered_top [OF assms] by (elim exE conjE)
  then show ?thesis unfolding merged_layer_def [of vs] by (intro exI [of _ m] exI [of _ m'] conjI) blast+
qed

definition sw :: "string \<Rightarrow> vertex list \<Rightarrow> vertex" where
  "sw n ws = Vertex n n (map (\<lambda>w. (ID w, w)) ws) []"

definition sample_fabric :: "vertex list" where
  "sample_fabric =
     (let a = sw ''a'' []; b = sw ''b'' [];
          l1 = sw ''l1'' [a, b]; l2 = sw ''l2'' [a, b]
      in [sw ''s2'' [l1, l2], sw ''s1'' [l1, l2]])"

theorem Merge_layered_graph_witness:
  "\<exists>m m'. NewMerger sample_fabric = Some m \<and> Merge m = Some m' \<and>
     (\<forall>v \<in> set sample_fabric. \<exists>r \<in> set (TopTier m'). set (leaves r) = set (leaves v))"
proof -
  have "sample_fabric \<noteq> []" "\<forall>v \<in> set sample_fabric. level (Suc 1) v"
    by (simp_all add: sample_fabric_def sw_def Let_def)
  moreover have "consistent (\<Union>v \<in> set sample_fabric. set (subs v))"
    by (simp add: sample_fabric_def sw_def Let_def consistent_def)
  ultimately show ?thesis using Merge_layered_graph [of sample_fabric 1] by metis
qed

text \<open>
  \<open>NewMerger\<close> does not return on a top layer without compute nodes in which every vertex
  is linked only to vertices of that layer: \<open>traverse\<close> then calls itself with an empty layer, and
  an empty layer has neither a leaf nor a child, so it does so again.
\<close>

theorem NewMerger_peer_links:
  assumes "vs \<noteq> []" and "\<forall>v \<in> set vs. Vertices v \<noteq> [] \<and> set (mkeys (Vertices v)) \<subseteq> (\<lambda>w. ID w) ` set vs"
  shows "NewMerger vs = None"
proof -
  let ?layer = "sort_key (\<lambda>v. ID v) vs"
  let ?V = "set (map (\<lambda>v. ID v) ?layer)"
  have skip: "fold (visit_child v) ks (?V, []) = (?V, [])" if "set ks \<subseteq> ?V" for ks v
    using that by (induction ks) (auto simp: visit_child_def simp del: set_map)
  have "fold next_children ws (?V, []) = (?V, [])" if "set ws \<subseteq> set vs" for ws
  proof -
    have "next_children v (?V, []) = (?V, [])" if "v \<in> set vs" for v
      using that assms(2) unfolding next_children_def by (intro skip) auto
    then show ?thesis using that by (induction ws) auto
  qed
  then have "next_layer ?layer = []" by (simp add: next_layer_def del: set_map)
  moreover have "\<not> (\<exists>v \<in> set ?layer. is_leaf v)" using assms(2) by (auto simp: is_leaf_def)
  moreover have "traverse [] m = None" for m by (subst traverse.simps) simp
  ultimately have "traverse ?layer m = None" for m
    using assms(1) by (subst traverse.simps) (simp add: Let_def)
  then show ?thesis using assms(1) by (simp add: NewMerger_def)
qed

theorem NewMerger_peer_links_witness:
  "NewMerger [sw ''a'' [leaf [] ''b''], sw ''b'' [leaf [] ''a'']] = None"
  by (rule NewMerger_peer_links) (simp_all add: sw_def)

end
