(* ===== verification/Httperr.thy ===== *)
theory Httperr
  imports Prelude
begin

text \<open>
  \<open>internal/httperr/http_error.go\<close>: an error with an HTTP status code, the status codes of
  \<open>net/http\<close> that the program names, and the writers (\<open>io.Writer\<close>) that the
  generators print to.

  A writer is a state \<open>'w\<close> with a write operation that may fail. The locale \<open>go_writer\<close>
  states the contract of \<open>io.Writer\<close> that the generators rely on; \<open>bytes.Buffer\<close>, the
  writer the program passes, is its instance.
\<close>

section \<open>Errors\<close>

record http_error =
  err_code :: nat
  err_msg :: string

definition NewError :: "nat \<Rightarrow> string \<Rightarrow> http_error" where
  "NewError code msg = \<lparr>err_code = code, err_msg = msg\<rparr>"

definition Error_Error :: "http_error \<Rightarrow> string" where
  "Error_Error e = err_msg e"

definition Error_Code :: "http_error \<Rightarrow> nat" where
  "Error_Code e = err_code e"

abbreviation StatusOK :: nat where "StatusOK \<equiv> 200"
abbreviation StatusAccepted :: nat where "StatusAccepted \<equiv> 202"
abbreviation StatusBadRequest :: nat where "StatusBadRequest \<equiv> 400"
abbreviation StatusUnauthorized :: nat where "StatusUnauthorized \<equiv> 401"
abbreviation StatusNotFound :: nat where "StatusNotFound \<equiv> 404"
abbreviation StatusMethodNotAllowed :: nat where "StatusMethodNotAllowed \<equiv> 405"
abbreviation StatusRequestTimeout :: nat where "StatusRequestTimeout \<equiv> 408"
abbreviation StatusTooManyRequests :: nat where "StatusTooManyRequests \<equiv> 429"
abbreviation StatusInternalServerError :: nat where "StatusInternalServerError \<equiv> 500"
abbreviation StatusBadGateway :: nat where "StatusBadGateway \<equiv> 502"
abbreviation StatusServiceUnavailable :: nat where "StatusServiceUnavailable \<equiv> 503"
abbreviation StatusGatewayTimeout :: nat where "StatusGatewayTimeout \<equiv> 504"

type_synonym 'a http_res = "http_error + 'a"

text \<open>An \<open>error\<close> turned into an HTTP error.\<close>

definition with_code :: "nat \<Rightarrow> 'a res \<Rightarrow> 'a http_res" where
  "with_code code r = (case r of Inl msg \<Rightarrow> Inl (NewError code msg) | Inr x \<Rightarrow> Inr x)"

lemma with_code_simps [simp]:
  "with_code c (Inl msg) = Inl (NewError c msg)"
  "with_code c (Inr x) = Inr x"
  by (simp_all add: with_code_def)

lemma NewError_fields [simp]: "err_code (NewError c m) = c" "err_msg (NewError c m) = m"
  by (simp_all add: NewError_def)

section \<open>Writers\<close>

type_synonym 'w writer = "string \<Rightarrow> 'w \<Rightarrow> 'w res"

text \<open>A write either fails or appends exactly the text it was given.\<close>

locale go_writer =
  fixes wr :: "string \<Rightarrow> 'w \<Rightarrow> 'w res"
    and contents :: "'w \<Rightarrow> string"
  assumes write_appends: "wr s w = Inr w' \<Longrightarrow> contents w' = contents w @ s"
begin

lemma write_all_appends:
  "fold_sum (\<lambda>x. wr (f x)) xs w = Inr w' \<Longrightarrow> contents w' = contents w @ concat (map f xs)"
  by (induction xs arbitrary: w) (auto simp: write_appends split: sum.splits)

end

text \<open>\<open>bytes.Buffer\<close>: writing never fails.\<close>

definition buf_write :: "string writer" where
  "buf_write s w = Inr (w @ s)"

interpretation buf: go_writer buf_write "\<lambda>w. w"
  by unfold_locales (auto simp: buf_write_def)

lemma buf_write_eq: "buf_write s w = Inr (w @ s)"
  by (simp add: buf_write_def)

end
