(* ===== verification/TestSets.thy ===== *)
theory TestSets
  imports Topology
begin

text \<open>
  \<open>pkg/translate/output.go\<close>: the two fixed graphs that the test provider
  (\<open>pkg/providers/test\<close>) serves; the witnesses of the generator's properties run on them.
\<close>

text \<open>A switch without a name, with the given children under their keys.\<close>

abbreviation switch_v :: "string \<Rightarrow> (string \<times> vertex) list \<Rightarrow> vertex" where
  "switch_v i cs \<equiv> Vertex [] i cs []"

definition GetTreeTestSet :: "bool \<Rightarrow> vertex \<times> (string, string) gomap" where
  "GetTreeTestSet testForLongLabelName =
     (let s3name = (if testForLongLabelName
                    then ''S3very-very-long-id-to-check-label-value-limits-of-63-characters'' else ''S3'');
          instance2node = [(''I21'', ''Node201''), (''I22'', ''Node202''), (''I25'', ''Node205''),
                           (''I34'', ''Node304''), (''I35'', ''Node305''), (''I36'', ''Node306'')];
          n21 = leaf ''Node201'' ''I21''; n22 = leaf ''Node202'' ''I22''; n25 = leaf ''Node205'' ''I25'';
          n34 = leaf ''Node304'' ''I34''; n35 = leaf ''Node305'' ''I35''; n36 = leaf ''Node306'' ''I36'';
          sw2 = switch_v ''S2'' [(''I21'', n21), (''I22'', n22), (''I25'', n25)];
          sw3 = switch_v s3name [(''I34'', n34), (''I35'', n35), (''I36'', n36)];
          sw1 = switch_v ''S1'' [(''S2'', sw2), (s3name, sw3)];
          treeRoot = switch_v [] [(''S1'', sw1)];
          root = switch_v [] [(TopologyTree, treeRoot)]
      in (root, instance2node))"

definition GetBlockWithMultiIBTestSet :: "vertex \<times> (string, string) gomap" where
  "GetBlockWithMultiIBTestSet =
     (let instance2node = [(''I14'', ''Node104''), (''I15'', ''Node105''), (''I16'', ''Node106''),
                           (''I21'', ''Node201''), (''I22'', ''Node202''), (''I25'', ''Node205''),
                           (''I31'', ''Node301''), (''I32'', ''Node302''), (''I33'', ''Node303''),
                           (''I41'', ''Node401''), (''I42'', ''Node402''), (''I43'', ''Node403'')];
          n14 = leaf ''Node104'' ''I14''; n15 = leaf ''Node105'' ''I15''; n16 = leaf ''Node106'' ''I16'';
          n21 = leaf ''Node201'' ''I21''; n22 = leaf ''Node202'' ''I22''; n25 = leaf ''Node205'' ''I25'';
          n31 = leaf ''Node301'' ''I31''; n32 = leaf ''Node302'' ''I32''; n33 = leaf ''Node303'' ''I33'';
          n41 = leaf ''Node401'' ''I41''; n42 = leaf ''Node402'' ''I42''; n43 = leaf ''Node403'' ''I43'';
          sw5 = switch_v ''S5'' [(''I31'', n31), (''I32'', n32), (''I33'', n33)];
          sw6 = switch_v ''S6'' [(''I41'', n41), (''I42'', n42), (''I43'', n43)];
          sw4 = switch_v ''S4'' [(''S5'', sw5), (''S6'', sw6)];
          ibRoot1 = switch_v ''IB1'' [(''S4'', sw4)];
          sw2 = switch_v ''S2'' [(''I14'', n14), (''I15'', n15), (''I16'', n16)];
          sw3 = switch_v ''S3'' [(''I21'', n21), (''I22'', n22), (''I25'', n25)];
          sw1 = switch_v ''S1'' [(''S2'', sw2), (''S3'', sw3)];
          ibRoot2 = switch_v ''IB2'' [(''S1'', sw1)];
          treeRoot = switch_v [] [(''IB1'', ibRoot1), (''IB2'', ibRoot2)];
          block1 = switch_v ''B1'' [(''I14'', n14), (''I15'', n15), (''I16'', n16)];
          block2 = switch_v ''B2'' [(''I21'', n21), (''I22'', n22), (''I25'', n25)];
          block3 = switch_v ''B3'' [(''I31'', n31), (''I32'', n32), (''I33'', n33)];
          block4 = switch_v ''B4'' [(''I41'', n41), (''I42'', n42), (''I43'', n43)];
          blockRoot = switch_v [] [(''B1'', block1), (''B2'', block2), (''B3'', block3), (''B4'', block4)];
          root = switch_v [] [(TopologyBlock, blockRoot), (TopologyTree, treeRoot)]
      in (root, instance2node))"

end
