(* ===== verification/Translate.thy ===== *)
theory Translate
  imports Topology Httperr TestSets
begin

text \<open>
  \<open>pkg/translate/topology.go\<close>: the configuration of the SLURM topology generator, its validation,
  and the network topology it builds from the graph: the adjacency list of the tree by IDs, the compute
  nodes with their instance and block, and the blocks in the order in which their nodes appear in the tree.

  \<open>init_tree_loop\<close> is the queue of \<open>initTree\<close>, \<open>block_order_loop\<close> the stack of
  \<open>initBlocks\<close>; both terminate because the vertices they take are trees.
\<close>

section \<open>Configuration\<close>

record TopologySpec =
  spec_Plugin :: string
  spec_BlockSizes :: "int list"
  spec_ClusterDefault :: bool
  spec_Nodes :: "string list"

record Config =
  cfg_Plugin :: string
  cfg_BlockSizes :: "int list"
  cfg_FakeNodePool :: string
  cfg_Topologies :: "(string, TopologySpec) gomap"

record blockInfo =
  bi_id :: string
  bi_name :: string
  bi_indx :: nat
  bi_nodes :: "string list"

record nodeInfo =
  ni_instanceID :: string
  ni_blockID :: string
  ni_blockIndx :: "nat option"

record NetworkTopology =
  nt_config :: Config
  nt_tree :: "(string, string list) gomap"
  nt_blocks :: "blockInfo list"
  nt_vertices :: "(string, vertex) gomap"
  nt_nodeInfo :: "(string, nodeInfo) gomap"
  nt_metadata :: "(string, string) gomap"

definition has_child :: "vertex \<Rightarrow> string \<Rightarrow> bool" where
  "has_child root k \<longleftrightarrow> map_of (Vertices root) k \<noteq> None"

text \<open>The body of the loop over the partitions: the error message, if any.\<close>

definition validate_spec :: "vertex \<Rightarrow> string \<Rightarrow> TopologySpec \<Rightarrow> string option" where
  "validate_spec root topo spec =
     (if spec_Plugin spec = TopologyTree \<and> \<not> has_child root TopologyTree
      then Some (''missing tree topology for topology '' @ quote topo)
      else if spec_Plugin spec = TopologyBlock \<and> \<not> has_child root TopologyBlock
      then Some (''missing block topology for topology '' @ quote topo)
      else if spec_Plugin spec \<notin> {TopologyTree, TopologyBlock, TopologyFlat}
      then Some (''unsupported topology plugin '' @ quote (spec_Plugin spec) @ '' for topology '' @ quote topo)
      else if length (spec_Nodes spec) = 0 \<and> spec_Plugin spec \<noteq> TopologyFlat
      then Some (''topology '' @ quote topo @ '' specifies no nodes'')
      else None)"

fun validate_specs :: "vertex \<Rightarrow> (string, TopologySpec) gomap \<Rightarrow> string option" where
  "validate_specs root [] = None"
| "validate_specs root ((topo, spec) # rest) =
     (case validate_spec root topo spec of Some err \<Rightarrow> Some err | None \<Rightarrow> validate_specs root rest)"

definition Validate :: "Config \<Rightarrow> vertex \<Rightarrow> string option" where
  "Validate cfg root =
     (if length (cfg_Topologies cfg) \<noteq> 0
      then (if length (cfg_Plugin cfg) \<noteq> 0
            then Some ''plugin and topologies parameters are mutually exclusive''
            else validate_specs root (cfg_Topologies cfg))
      else if cfg_Plugin cfg = TopologyTree
      then (if has_child root TopologyTree then None else Some ''missing tree topology'')
      else if cfg_Plugin cfg = TopologyBlock
      then (if has_child root TopologyBlock then None else Some ''missing block topology'')
      else Some (''unsupported topology plugin '' @ quote (cfg_Plugin cfg)))"

section \<open>The tree\<close>

fun vsize :: "vertex \<Rightarrow> nat" where
  "vsize (Vertex n i cs m) = Suc (sum_list (map (\<lambda>(k, w). vsize w) cs))"

lemma vsize_pos [simp]: "0 < vsize v"
  by (cases v) simp

lemma vsize_children: "sum_list (map vsize (mvals (Vertices v))) < vsize v"
  by (cases v) (simp add: comp_def case_prod_unfold)

text \<open>One turn of the queue loop for the vertex \<open>v\<close>.\<close>

definition init_tree_step :: "vertex \<Rightarrow> NetworkTopology \<Rightarrow> NetworkTopology" where
  "init_tree_step v nt =
     (let nt = (if map_of (nt_tree nt) (ID v) = None
                then nt\<lparr>nt_tree := mput (ID v) [] (nt_tree nt),
                        nt_vertices := mput (ID v) v (nt_vertices nt),
                        nt_nodeInfo :=
                          (if length (Vertices v) = 0
                           then mput (Name v) \<lparr>ni_instanceID = ID v, ni_blockID = [], ni_blockIndx = None\<rparr> (nt_nodeInfo nt)
                           else nt_nodeInfo nt)\<rparr>
                else nt)
      in nt\<lparr>nt_tree := fold (\<lambda>i t. mput (ID v) (mget0 [] t (ID v) @ [i]) t) (mkeys (Vertices v)) (nt_tree nt)\<rparr>)"

function init_tree_loop :: "vertex list \<Rightarrow> NetworkTopology \<Rightarrow> NetworkTopology" where
  "init_tree_loop [] nt = nt"
| "init_tree_loop (v # queue) nt = init_tree_loop (queue @ mvals (Vertices v)) (init_tree_step v nt)"
  by pat_completeness auto
termination
  using vsize_children
  by (relation "measure (\<lambda>(queue, nt). sum_list (map vsize queue))") simp_all

declare init_tree_loop.simps [simp del]

definition initTree :: "vertex \<Rightarrow> NetworkTopology \<Rightarrow> NetworkTopology" where
  "initTree root nt =
     (case map_of (Vertices root) TopologyTree of
        None \<Rightarrow> nt
      | Some tree \<Rightarrow>
          (let nt = init_tree_loop [tree] nt
           in nt\<lparr>nt_tree := map (\<lambda>(k, val). (k, sort val)) (nt_tree nt)\<rparr>))"

section \<open>The blocks\<close>

text \<open>Without tree data every block is taken, in the order of the keys.\<close>

definition add_plain_block :: "(string, vertex) gomap \<Rightarrow> string \<Rightarrow> NetworkTopology \<Rightarrow> NetworkTopology" where
  "add_plain_block bs i nt =
     (case map_of bs i of
        None \<Rightarrow> nt
      | Some v \<Rightarrow>
          (let indx = length (nt_blocks nt)
           in nt\<lparr>nt_blocks := nt_blocks nt @
                    [\<lparr>bi_id = ID v, bi_name = Name v, bi_indx = indx, bi_nodes = map (\<lambda>w. Name w) (mvals (Vertices v))\<rparr>],
                 nt_nodeInfo :=
                   fold (\<lambda>w. mput (Name w) \<lparr>ni_instanceID = ID w, ni_blockID = i, ni_blockIndx = Some indx\<rparr>)
                     (mvals (Vertices v)) (nt_nodeInfo nt)\<rparr>))"

definition set_block_id :: "string \<Rightarrow> vertex \<Rightarrow> (string, nodeInfo) gomap \<Rightarrow> (string, nodeInfo) gomap" where
  "set_block_id b v infos =
     (case map_of infos (Name v) of
        Some info \<Rightarrow> mput (Name v) (info\<lparr>ni_blockID := b\<rparr>) infos
      | None \<Rightarrow> infos)"

definition set_block_indx :: "nat \<Rightarrow> vertex \<Rightarrow> (string, nodeInfo) gomap \<Rightarrow> (string, nodeInfo) gomap" where
  "set_block_indx indx v infos =
     (case map_of infos (Name v) of
        Some info \<Rightarrow> mput (Name v) (info\<lparr>ni_blockIndx := Some indx\<rparr>) infos
      | None \<Rightarrow> infos)"

definition markBlockNodes :: "vertex \<Rightarrow> nat \<Rightarrow> NetworkTopology \<Rightarrow> blockInfo \<times> NetworkTopology" where
  "markBlockNodes block indx nt =
     (\<lparr>bi_id = ID block, bi_name = Name block, bi_indx = indx, bi_nodes = map (\<lambda>v. Name v) (mvals (Vertices block))\<rparr>,
      nt\<lparr>nt_nodeInfo := fold (set_block_indx indx) (mvals (Vertices block)) (nt_nodeInfo nt)\<rparr>)"

text \<open>A leaf of the tree: if its block has no index yet, it gets the next one.\<close>

definition visit_leaf :: "(string, vertex) gomap \<Rightarrow> vertex \<Rightarrow> NetworkTopology \<Rightarrow> NetworkTopology" where
  "visit_leaf blockMap v nt =
     (case map_of (nt_nodeInfo nt) (Name v) of
        None \<Rightarrow> nt
      | Some nInfo \<Rightarrow>
          if length (ni_blockID nInfo) \<noteq> 0 \<and> ni_blockIndx nInfo = None
          then (case map_of blockMap (ni_blockID nInfo) of
                  None \<Rightarrow> nt
                | Some block \<Rightarrow>
                    (let (bInfo, nt) = markBlockNodes block (length (nt_blocks nt)) nt
                     in nt\<lparr>nt_blocks := nt_blocks nt @ [bInfo]\<rparr>))
          else nt)"

text \<open>The children of \<open>v\<close> by sorted key, each pushed in front of the stack: the last key comes first.\<close>

definition push_children :: "vertex \<Rightarrow> vertex list \<Rightarrow> vertex list" where
  "push_children v stack = fold (\<lambda>(key, w) stack. w # stack) (sort_key fst (Vertices v)) stack"

lemma push_children_mset: "mset (push_children v stack) = mset (mvals (Vertices v)) + mset stack"
proof -
  have "mset (fold (\<lambda>(key, w) stack. w # stack) xs st) = mset (map snd xs) + mset st"
    for xs :: "(string \<times> vertex) list" and st
    by (induction xs arbitrary: st) auto
  then show ?thesis by (simp add: push_children_def)
qed

lemma push_children_size: "sum_list (map vsize (push_children v stack)) < vsize v + sum_list (map vsize stack)"
proof -
  have "sum_list (map vsize (push_children v stack)) =
      sum_list (map vsize (mvals (Vertices v))) + sum_list (map vsize stack)"
    using push_children_mset [of v stack] by (metis image_mset_union mset_map sum_mset.union sum_mset_sum_list)
  then show ?thesis using vsize_children [of v] by simp
qed

function block_order_loop :: "(string, vertex) gomap \<Rightarrow> vertex list \<Rightarrow> NetworkTopology \<Rightarrow> NetworkTopology" where
  "block_order_loop blockMap [] nt = nt"
| "block_order_loop blockMap (v # stack) nt =
     (if length (Vertices v) = 0 then block_order_loop blockMap stack (visit_leaf blockMap v nt)
      else block_order_loop blockMap (push_children v stack) nt)"
  by pat_completeness auto
termination
  using push_children_size
  by (relation "measure (\<lambda>(bm, stack, nt). sum_list (map vsize stack))") simp_all

declare block_order_loop.simps [simp del]

definition initBlocks :: "vertex \<Rightarrow> NetworkTopology \<Rightarrow> NetworkTopology" where
  "initBlocks root nt =
     (case map_of (Vertices root) TopologyBlock of
        None \<Rightarrow> nt
      | Some blockRoot \<Rightarrow>
          if length (Vertices blockRoot) = 0 then nt
          else (let nt = nt\<lparr>nt_blocks := []\<rparr>
                in case map_of (Vertices root) TopologyTree of
                     None \<Rightarrow> fold (add_plain_block (Vertices blockRoot)) (sort (mkeys (Vertices blockRoot))) nt
                   | Some treeRoot \<Rightarrow>
                       (let blockMap = fold (\<lambda>block. mput (ID block) block) (mvals (Vertices blockRoot)) [];
                            infos = fold (\<lambda>block. fold (set_block_id (ID block)) (mvals (Vertices block)))
                                      (mvals (Vertices blockRoot)) (nt_nodeInfo nt)
                        in block_order_loop blockMap [treeRoot] (nt\<lparr>nt_nodeInfo := infos\<rparr>))))"

definition empty_topology :: "Config \<Rightarrow> (string, string) gomap \<Rightarrow> NetworkTopology" where
  "empty_topology cfg meta =
     \<lparr>nt_config = cfg, nt_tree = [], nt_blocks = [], nt_vertices = [], nt_nodeInfo = [], nt_metadata = meta\<rparr>"

definition NewNetworkTopology :: "vertex \<Rightarrow> Config \<Rightarrow> NetworkTopology res" where
  "NewNetworkTopology root cfg =
     (case Validate cfg root of
        Some err \<Rightarrow> Inl err
      | None \<Rightarrow> Inr (initBlocks root (initTree root (empty_topology cfg (Metadata root)))))"

section \<open>What initTree builds\<close>

text \<open>
  A tree whose IDs are distinct and whose children are filed under their IDs. On such a tree the
  adjacency list has one entry per vertex.
\<close>

definition all_subs :: "vertex list \<Rightarrow> vertex list" where
  "all_subs vs = concat (map subs vs)"

definition keyed :: "vertex list \<Rightarrow> bool" where
  "keyed vs \<longleftrightarrow> (\<forall>v \<in> set (all_subs vs). \<forall>(k, w) \<in> set (Vertices v). k = ID w)"

definition unique_ids :: "vertex list \<Rightarrow> bool" where
  "unique_ids vs \<longleftrightarrow> distinct (map (\<lambda>v. ID v) (all_subs vs))"

lemma all_subs_Cons: "mset (all_subs (v # q)) = add_mset v (mset (all_subs (q @ mvals (Vertices v))))"
  by (simp add: all_subs_def subs_unfold [of v])

lemma all_subs_Cons_set: "set (all_subs (v # q)) = insert v (set (all_subs (q @ mvals (Vertices v))))"
  using arg_cong [OF all_subs_Cons, of set_mset v q] by simp

lemma unique_ids_Cons:
  "unique_ids (v # q) \<longleftrightarrow>
    unique_ids (q @ mvals (Vertices v)) \<and> ID v \<notin> (\<lambda>w. ID w) ` set (all_subs (q @ mvals (Vertices v)))"
proof -
  have "mset (map (\<lambda>w. ID w) (all_subs (v # q))) = mset (ID v # map (\<lambda>w. ID w) (all_subs (q @ mvals (Vertices v))))"
    using all_subs_Cons [of v q] by simp
  then have "distinct (map (\<lambda>w. ID w) (all_subs (v # q))) =
      distinct (ID v # map (\<lambda>w. ID w) (all_subs (q @ mvals (Vertices v))))"
    by (rule mset_eq_imp_distinct_iff)
  then show ?thesis by (auto simp: unique_ids_def)
qed

lemma keyed_Cons:
  "keyed (v # q) \<longleftrightarrow> keyed (q @ mvals (Vertices v)) \<and> (\<forall>(k, w) \<in> set (Vertices v). k = ID w)"
  unfolding keyed_def all_subs_Cons_set by auto

lemma append_entries:
  "map_of t k = Some xs \<Longrightarrow>
    map_of (fold (\<lambda>i t. mput k (mget0 [] t k @ [i]) t) ks t) = (map_of t)(k \<mapsto> xs @ ks)"
proof (induction ks arbitrary: t xs)
  case Nil
  then show ?case by (auto simp: fun_eq_iff)
next
  case (Cons i ks)
  have "map_of (mput k (mget0 [] t k @ [i]) t) k = Some (xs @ [i])"
    using Cons.prems by (simp add: mget0_def update_conv')
  from Cons.IH [OF this] show ?case by (auto simp: update_conv' fun_eq_iff)
qed

lemma init_tree_step_fresh:
  assumes "map_of (nt_tree nt) (ID v) = None"
  shows "map_of (nt_tree (init_tree_step v nt)) = (map_of (nt_tree nt))(ID v \<mapsto> mkeys (Vertices v))"
    and "map_of (nt_vertices (init_tree_step v nt)) = (map_of (nt_vertices nt))(ID v \<mapsto> v)"
    and "nt_nodeInfo (init_tree_step v nt) =
      (if Vertices v = [] then mput (Name v) \<lparr>ni_instanceID = ID v, ni_blockID = [], ni_blockIndx = None\<rparr> (nt_nodeInfo nt)
       else nt_nodeInfo nt)"
proof -
  have "map_of (mput (ID v) [] (nt_tree nt)) (ID v) = Some []" by (simp add: update_conv')
  from append_entries [OF this] show
    "map_of (nt_tree (init_tree_step v nt)) = (map_of (nt_tree nt))(ID v \<mapsto> mkeys (Vertices v))"
    using assms by (simp add: init_tree_step_def update_conv')
  show "map_of (nt_vertices (init_tree_step v nt)) = (map_of (nt_vertices nt))(ID v \<mapsto> v)"
    using assms by (simp add: init_tree_step_def update_conv')
  show "nt_nodeInfo (init_tree_step v nt) =
      (if Vertices v = [] then mput (Name v) \<lparr>ni_instanceID = ID v, ni_blockID = [], ni_blockIndx = None\<rparr> (nt_nodeInfo nt)
       else nt_nodeInfo nt)"
    using assms by (simp add: init_tree_step_def)
qed

lemma init_tree_rest:
  assumes "unique_ids (v # queue)" and "\<forall>w \<in> set (all_subs (v # queue)). map_of (nt_tree nt) (ID w) = None"
  defines "rest \<equiv> queue @ mvals (Vertices v)"
  shows "unique_ids rest" and "ID v \<notin> (\<lambda>w. ID w) ` set (all_subs rest)" and "map_of (nt_tree nt) (ID v) = None"
    and "\<forall>w \<in> set (all_subs rest). map_of (nt_tree (init_tree_step v nt)) (ID w) = None"
proof -
  show u: "unique_ids rest" "ID v \<notin> (\<lambda>w. ID w) ` set (all_subs rest)"
    using assms(1) unfolding unique_ids_Cons rest_def by blast+
  show none: "map_of (nt_tree nt) (ID v) = None" using assms(2) unfolding all_subs_Cons_set by blast
  show "\<forall>w \<in> set (all_subs rest). map_of (nt_tree (init_tree_step v nt)) (ID w) = None"
  proof
    fix w assume w: "w \<in> set (all_subs rest)"
    then have "ID w \<noteq> ID v" using u(2) by (metis image_eqI)
    then show "map_of (nt_tree (init_tree_step v nt)) (ID w) = None"
      using assms(2) w unfolding init_tree_step_fresh(1) [OF none] all_subs_Cons_set rest_def by simp
  qed
qed

lemma init_tree_loop_entries:
  assumes "unique_ids queue" and "\<forall>v \<in> set (all_subs queue). map_of (nt_tree nt) (ID v) = None"
  shows "(\<forall>v \<in> set (all_subs queue).
      map_of (nt_tree (init_tree_loop queue nt)) (ID v) = Some (mkeys (Vertices v)) \<and>
      map_of (nt_vertices (init_tree_loop queue nt)) (ID v) = Some v) \<and>
    (\<forall>i. i \<notin> (\<lambda>v. ID v) ` set (all_subs queue) \<longrightarrow>
      map_of (nt_tree (init_tree_loop queue nt)) i = map_of (nt_tree nt) i \<and>
      map_of (nt_vertices (init_tree_loop queue nt)) i = map_of (nt_vertices nt) i)"
  using assms
proof (induction queue nt rule: init_tree_loop.induct)
  case (1 nt)
  then show ?case by (simp add: all_subs_def init_tree_loop.simps)
next
  case (2 v queue nt)
  let ?rest = "queue @ mvals (Vertices v)" and ?nt = "init_tree_step v nt"
  note u = init_tree_rest [OF 2(2,3)]
  note step = init_tree_step_fresh [OF u(3)]
  note IH = 2(1) [OF u(1,4)]
  show ?case
  proof (intro conjI ballI allI impI)
    fix w assume w: "w \<in> set (all_subs (v # queue))"
    consider "w = v" | "w \<in> set (all_subs ?rest)" using w unfolding all_subs_Cons_set by blast
    then show "map_of (nt_tree (init_tree_loop (v # queue) nt)) (ID w) = Some (mkeys (Vertices w))"
      and "map_of (nt_vertices (init_tree_loop (v # queue) nt)) (ID w) = Some w"
      using IH u(2) unfolding init_tree_loop.simps by (cases; simp add: step)+
  next
    fix i assume i: "i \<notin> (\<lambda>v. ID v) ` set (all_subs (v # queue))"
    then have "i \<noteq> ID v" "i \<notin> (\<lambda>v. ID v) ` set (all_subs ?rest)" unfolding all_subs_Cons_set by auto
    then show "map_of (nt_tree (init_tree_loop (v # queue) nt)) i = map_of (nt_tree nt) i"
      and "map_of (nt_vertices (init_tree_loop (v # queue) nt)) i = map_of (nt_vertices nt) i"
      using IH unfolding init_tree_loop.simps by (simp_all add: step)
  qed
qed

lemma map_sorted_values: "map_of (map (\<lambda>(k, val). (k, sort val)) m) i = map_option sort (map_of m i)"
  by (induction m) auto

lemma initTree_entries:
  assumes "map_of (Vertices root) TopologyTree = Some tree" and "unique_ids [tree]" and "nt_tree nt = []"
    and "v \<in> set (subs tree)"
  shows "map_of (nt_tree (initTree root nt)) (ID v) = Some (sort (mkeys (Vertices v)))"
    and "map_of (nt_vertices (initTree root nt)) (ID v) = Some v"
proof -
  have "\<forall>v \<in> set (all_subs [tree]). map_of (nt_tree nt) (ID v) = None" by (simp add: assms(3))
  note loop = init_tree_loop_entries [OF assms(2) this]
  have "v \<in> set (all_subs [tree])" using assms(4) by (simp add: all_subs_def)
  then have "map_of (nt_tree (init_tree_loop [tree] nt)) (ID v) = Some (mkeys (Vertices v))"
    "map_of (nt_vertices (init_tree_loop [tree] nt)) (ID v) = Some v" using loop by blast+
  then show "map_of (nt_tree (initTree root nt)) (ID v) = Some (sort (mkeys (Vertices v)))"
    and "map_of (nt_vertices (initTree root nt)) (ID v) = Some v"
    by (simp_all add: initTree_def assms(1) map_sorted_values Let_def)
qed

section \<open>What initBlocks keeps\<close>

lemma add_plain_block_keeps:
  "nt_tree (fold (add_plain_block bs) is nt) = nt_tree nt \<and>
   nt_vertices (fold (add_plain_block bs) is nt) = nt_vertices nt \<and>
   nt_config (fold (add_plain_block bs) is nt) = nt_config nt \<and>
   nt_metadata (fold (add_plain_block bs) is nt) = nt_metadata nt"
  by (induction "is" arbitrary: nt) (simp_all add: add_plain_block_def Let_def split: option.split)

lemma visit_leaf_keeps:
  "nt_tree (visit_leaf bm v nt) = nt_tree nt \<and> nt_vertices (visit_leaf bm v nt) = nt_vertices nt \<and>
   nt_config (visit_leaf bm v nt) = nt_config nt \<and> nt_metadata (visit_leaf bm v nt) = nt_metadata nt"
  by (simp add: visit_leaf_def markBlockNodes_def split: option.split)

lemma block_order_loop_keeps:
  "nt_tree (block_order_loop bm stack nt) = nt_tree nt \<and>
   nt_vertices (block_order_loop bm stack nt) = nt_vertices nt \<and>
   nt_config (block_order_loop bm stack nt) = nt_config nt \<and>
   nt_metadata (block_order_loop bm stack nt) = nt_metadata nt"
  by (induction bm stack nt rule: block_order_loop.induct)
    (simp_all add: visit_leaf_keeps block_order_loop.simps)

lemma initBlocks_keeps [simp]:
  "nt_tree (initBlocks root nt) = nt_tree nt" "nt_vertices (initBlocks root nt) = nt_vertices nt"
  "nt_config (initBlocks root nt) = nt_config nt" "nt_metadata (initBlocks root nt) = nt_metadata nt"
  by (simp_all add: initBlocks_def add_plain_block_keeps block_order_loop_keeps Let_def split: option.split)

lemma init_tree_step_keeps:
  "nt_config (init_tree_step v nt) = nt_config nt" "nt_metadata (init_tree_step v nt) = nt_metadata nt"
  "nt_blocks (init_tree_step v nt) = nt_blocks nt"
  by (simp_all add: init_tree_step_def Let_def)

lemma init_tree_loop_keeps:
  "nt_config (init_tree_loop q nt) = nt_config nt \<and> nt_metadata (init_tree_loop q nt) = nt_metadata nt \<and>
   nt_blocks (init_tree_loop q nt) = nt_blocks nt"
  by (induction q nt rule: init_tree_loop.induct) (simp_all add: init_tree_step_keeps init_tree_loop.simps)

lemma initTree_keeps [simp]:
  "nt_config (initTree root nt) = nt_config nt" "nt_metadata (initTree root nt) = nt_metadata nt"
  "nt_blocks (initTree root nt) = nt_blocks nt"
  by (simp_all add: initTree_def init_tree_loop_keeps Let_def split: option.split)

section \<open>Block indices\<close>

text \<open>
  The blocks are numbered by their position, and a node with a block index is one of the nodes
  of the block at that position.
\<close>

definition indices_ok :: "NetworkTopology \<Rightarrow> bool" where
  "indices_ok nt \<longleftrightarrow>
     map bi_indx (nt_blocks nt) = [0..<length (nt_blocks nt)] \<and>
     (\<forall>n info k. map_of (nt_nodeInfo nt) n = Some info \<longrightarrow> ni_blockIndx info = Some k \<longrightarrow>
        k < length (nt_blocks nt) \<and> n \<in> set (bi_nodes (nt_blocks nt ! k)))"

lemma indices_ok_snoc:
  assumes "indices_ok nt" and "bi_indx b = length (nt_blocks nt)"
    and "\<And>n info k. map_of infos n = Some info \<Longrightarrow> ni_blockIndx info = Some k \<Longrightarrow>
      (\<exists>info'. map_of (nt_nodeInfo nt) n = Some info' \<and> ni_blockIndx info' = Some k) \<or>
      k = length (nt_blocks nt) \<and> n \<in> set (bi_nodes b)"
    and "nt_blocks nt' = nt_blocks nt @ [b]" and "nt_nodeInfo nt' = infos"
  shows "indices_ok nt'"
proof -
  have "k < length (nt_blocks nt @ [b]) \<and> n \<in> set (bi_nodes ((nt_blocks nt @ [b]) ! k))"
    if "map_of infos n = Some info" "ni_blockIndx info = Some k" for n info k
    using assms(3) [OF that] assms(1) unfolding indices_ok_def by (auto simp: nth_append)
  then show ?thesis using assms(1,2,4,5) by (simp add: indices_ok_def)
qed

lemma set_block_indx_lookup:
  "map_of (fold (set_block_indx k) vs infos) n =
    (if n \<in> (\<lambda>v. Name v) ` set vs then map_option (\<lambda>i. i\<lparr>ni_blockIndx := Some k\<rparr>) (map_of infos n)
     else map_of infos n)"
  by (induction vs arbitrary: infos)
    (auto simp: set_block_indx_def update_conv' option.map_comp comp_def split: option.split)

lemma set_block_id_lookup:
  "map_of (fold (set_block_id b) vs infos) n =
    (if n \<in> (\<lambda>v. Name v) ` set vs then map_option (\<lambda>i. i\<lparr>ni_blockID := b\<rparr>) (map_of infos n)
     else map_of infos n)"
  by (induction vs arbitrary: infos)
    (auto simp: set_block_id_def update_conv' option.map_comp comp_def split: option.split)

lemma visit_leaf_indices: "indices_ok nt \<Longrightarrow> indices_ok (visit_leaf bm v nt)"
proof -
  assume ok: "indices_ok nt"
  have "indices_ok (let (bInfo, nt) = markBlockNodes block (length (nt_blocks nt)) nt
      in nt\<lparr>nt_blocks := nt_blocks nt @ [bInfo]\<rparr>)" for block
  proof -
    let ?b = "fst (markBlockNodes block (length (nt_blocks nt)) nt)"
    show ?thesis
      by (rule indices_ok_snoc [OF ok, of ?b "fold (set_block_indx (length (nt_blocks nt))) (mvals (Vertices block)) (nt_nodeInfo nt)"])
        (auto simp: markBlockNodes_def set_block_indx_lookup split: if_splits)
  qed
  then show ?thesis using ok by (auto simp: visit_leaf_def split: option.split)
qed

lemma block_order_loop_indices: "indices_ok nt \<Longrightarrow> indices_ok (block_order_loop bm stack nt)"
  by (induction bm stack nt rule: block_order_loop.induct)
    (simp_all add: visit_leaf_indices block_order_loop.simps)

lemma add_plain_block_indices: "indices_ok nt \<Longrightarrow> indices_ok (add_plain_block bs i nt)"
proof (cases "map_of bs i")
  case (Some v)
  assume ok: "indices_ok nt"
  let ?k = "length (nt_blocks nt)"
  let ?info = "\<lambda>w. \<lparr>ni_instanceID = ID w, ni_blockID = i, ni_blockIndx = Some ?k\<rparr>"
  let ?b = "\<lparr>bi_id = ID v, bi_name = Name v, bi_indx = ?k, bi_nodes = map (\<lambda>w. Name w) (mvals (Vertices v))\<rparr>"
  let ?infos = "fold (\<lambda>w. mput (Name w) (?info w)) (mvals (Vertices v)) (nt_nodeInfo nt)"
  show ?thesis
  proof (rule indices_ok_snoc [OF ok, of ?b ?infos])
    fix n info k
    assume n: "map_of ?infos n = Some info" "ni_blockIndx info = Some k"
    from alm.put_all_SomeD [OF n(1)]
    have "(n \<in> (\<lambda>w. Name w) ` set (mvals (Vertices v)) \<and> ni_blockIndx info = Some ?k) \<or> map_of (nt_nodeInfo nt) n = Some info"
      by fastforce
    then show "(\<exists>info'. map_of (nt_nodeInfo nt) n = Some info' \<and> ni_blockIndx info' = Some k) \<or>
        k = ?k \<and> n \<in> set (bi_nodes ?b)"
      using n(2) by auto
  qed (use Some in \<open>simp_all add: add_plain_block_def Let_def\<close>)
qed (simp add: add_plain_block_def)

text \<open>Every node of a block that is in the tree gets an index.\<close>

definition info_le :: "(string, nodeInfo) gomap \<Rightarrow> (string, nodeInfo) gomap \<Rightarrow> bool" where
  "info_le infos infos' \<longleftrightarrow>
     (\<forall>n info. map_of infos n = Some info \<longrightarrow>
        (\<exists>info'. map_of infos' n = Some info' \<and> ni_blockID info' = ni_blockID info \<and>
           (ni_blockIndx info \<noteq> None \<longrightarrow> ni_blockIndx info' \<noteq> None)))"

lemma info_le_refl [simp]: "info_le infos infos"
  by (simp add: info_le_def)

lemma info_le_trans: "info_le a b \<Longrightarrow> info_le b c \<Longrightarrow> info_le a c"
  unfolding info_le_def by metis

lemma set_block_indx_le: "info_le infos (fold (set_block_indx k) vs infos)"
  by (simp add: info_le_def set_block_indx_lookup)

lemma visit_leaf_le: "info_le (nt_nodeInfo nt) (nt_nodeInfo (visit_leaf bm v nt))"
  by (simp add: visit_leaf_def markBlockNodes_def set_block_indx_le split: option.split)

lemma block_order_loop_le: "info_le (nt_nodeInfo nt) (nt_nodeInfo (block_order_loop bm stack nt))"
proof (induction bm stack nt rule: block_order_loop.induct)
  case (2 bm v stack nt)
  then show ?case using info_le_trans [OF visit_leaf_le] by (auto simp: block_order_loop.simps)
qed (simp add: block_order_loop.simps)

text \<open>What the loop needs to know about a node: its block is in the map and contains it.\<close>

definition in_block :: "(string, vertex) gomap \<Rightarrow> NetworkTopology \<Rightarrow> string \<Rightarrow> bool" where
  "in_block bm nt n \<longleftrightarrow>
     (\<exists>info block. map_of (nt_nodeInfo nt) n = Some info \<and> ni_blockID info \<noteq> [] \<and>
        map_of bm (ni_blockID info) = Some block \<and> n \<in> (\<lambda>v. Name v) ` set (mvals (Vertices block)))"

lemma in_block_le: "in_block bm nt n \<Longrightarrow> info_le (nt_nodeInfo nt) (nt_nodeInfo nt') \<Longrightarrow> in_block bm nt' n"
  unfolding in_block_def info_le_def by metis

lemma visit_leaf_marks:
  assumes "in_block bm nt (Name v)"
  shows "\<exists>info. map_of (nt_nodeInfo (visit_leaf bm v nt)) (Name v) = Some info \<and> ni_blockIndx info \<noteq> None"
proof -
  obtain info block where i: "map_of (nt_nodeInfo nt) (Name v) = Some info" "ni_blockID info \<noteq> []"
    "map_of bm (ni_blockID info) = Some block" "Name v \<in> (\<lambda>v. Name v) ` set (mvals (Vertices block))"
    using assms unfolding in_block_def by blast
  show ?thesis
  proof (cases "ni_blockIndx info = None")
    case True
    then show ?thesis using i by (simp add: visit_leaf_def markBlockNodes_def set_block_indx_lookup)
  next
    case False
    then show ?thesis using i by (auto simp: visit_leaf_def)
  qed
qed

lemma push_children_leaves:
  assumes "Vertices v \<noteq> []"
  shows "set (concat (map leaves (push_children v stack))) = set (leaves v) \<union> set (concat (map leaves stack))"
proof -
  have "set (push_children v stack) = snd ` set (Vertices v) \<union> set stack"
    using arg_cong [OF push_children_mset, of set_mset v stack] by simp
  moreover have "set (leaves v) = (\<Union>w \<in> snd ` set (Vertices v). set (leaves w))"
    using assms by (cases v; cases "Vertices v") auto
  ultimately show ?thesis by simp
qed

lemma block_order_loop_marks:
  assumes "w \<in> set (concat (map leaves stack))" and "in_block bm nt (Name w)"
  shows "\<exists>info. map_of (nt_nodeInfo (block_order_loop bm stack nt)) (Name w) = Some info \<and> ni_blockIndx info \<noteq> None"
  using assms
proof (induction bm stack nt rule: block_order_loop.induct)
  case (2 bm v stack nt)
  show ?case
  proof (cases "Vertices v = []")
    case False
    then have "w \<in> set (concat (map leaves (push_children v stack)))"
      using 2(3) push_children_leaves [OF False] by simp
    from 2(2) [OF _ this 2(4)] False show ?thesis by (simp add: block_order_loop.simps)
  next
    case True
    then have loop: "block_order_loop bm (v # stack) nt = block_order_loop bm stack (visit_leaf bm v nt)"
      by (simp add: block_order_loop.simps)
    show ?thesis
    proof (cases "w \<in> set (concat (map leaves stack))")
      case True
      from 2(1) [OF _ this in_block_le [OF 2(4) visit_leaf_le]] \<open>Vertices v = []\<close> show ?thesis
        by (simp add: loop)
    next
      case False
      then have "w = v" using 2(3) True by (cases v) auto
      then obtain info where "map_of (nt_nodeInfo (visit_leaf bm v nt)) (Name w) = Some info" "ni_blockIndx info \<noteq> None"
        using visit_leaf_marks 2(4) by blast
      then show ?thesis
        using block_order_loop_le [of "visit_leaf bm v nt" bm stack] unfolding info_le_def loop by metis
    qed
  qed
qed simp

text \<open>After the first loop over the blocks a node has the ID of some block that contains it.\<close>

lemma set_block_ids_lookup:
  assumes "map_of infos n \<noteq> None" and "\<exists>b \<in> set bs. n \<in> (\<lambda>v. Name v) ` set (mvals (Vertices b))"
  shows "\<exists>b \<in> set bs. n \<in> (\<lambda>v. Name v) ` set (mvals (Vertices b)) \<and>
    (\<exists>info. map_of (fold (\<lambda>b. fold (set_block_id (ID b)) (mvals (Vertices b))) bs infos) n = Some info \<and> ni_blockID info = ID b)"
  using assms
proof (induction bs rule: rev_induct)
  case (snoc b bs)
  define infos' where "infos' = fold (\<lambda>b. fold (set_block_id (ID b)) (mvals (Vertices b))) bs infos"
  have some: "map_of infos' n \<noteq> None"
    using snoc.prems(1) unfolding infos'_def
    by (induction bs rule: rev_induct) (auto simp: set_block_id_lookup)
  show ?case
  proof (cases "n \<in> (\<lambda>v. Name v) ` set (mvals (Vertices b))")
    case True
    then show ?thesis using some
      by (auto simp: set_block_id_lookup infos'_def [symmetric] intro!: bexI [of _ b])
  next
    case False
    then have "\<exists>b \<in> set bs. n \<in> (\<lambda>v. Name v) ` set (mvals (Vertices b))" using snoc.prems(2) by auto
    from snoc.IH [OF snoc.prems(1) this] show ?thesis
      using False by (auto simp: set_block_id_lookup infos'_def [symmetric])
  qed
qed simp

lemma init_tree_loop_nodes:
  assumes "unique_ids queue" and "\<forall>v \<in> set (all_subs queue). map_of (nt_tree nt) (ID v) = None"
  shows "(\<forall>n. map_of (nt_nodeInfo nt) n \<noteq> None \<longrightarrow> map_of (nt_nodeInfo (init_tree_loop queue nt)) n \<noteq> None) \<and>
    (\<forall>v \<in> set (all_subs queue). Vertices v = [] \<longrightarrow> map_of (nt_nodeInfo (init_tree_loop queue nt)) (Name v) \<noteq> None)"
  using assms
proof (induction queue nt rule: init_tree_loop.induct)
  case (1 nt)
  then show ?case by (simp add: all_subs_def init_tree_loop.simps)
next
  case (2 v queue nt)
  let ?rest = "queue @ mvals (Vertices v)" and ?nt = "init_tree_step v nt"
  note u = init_tree_rest [OF 2(2,3)]
  note step = init_tree_step_fresh [OF u(3)]
  note IH = 2(1) [OF u(1,4)]
  have keep: "map_of (nt_nodeInfo nt) n \<noteq> None \<Longrightarrow> map_of (nt_nodeInfo ?nt) n \<noteq> None" for n
    by (simp add: step(3) update_conv')
  moreover have "Vertices v = [] \<Longrightarrow> map_of (nt_nodeInfo ?nt) (Name v) \<noteq> None"
    by (simp add: step(3) update_conv')
  ultimately show ?case using IH unfolding init_tree_loop.simps all_subs_Cons_set by blast
qed

lemma leaf_subs: "w \<in> set (leaves v) \<Longrightarrow> w \<in> set (subs v) \<and> Vertices w = []"
  by (induction v rule: leaves.induct) fastforce+

lemma initBlocks_marks:
  assumes "map_of (Vertices root) TopologyTree = Some tree" and "map_of (Vertices root) TopologyBlock = Some blockRoot"
    and "distinct (map (\<lambda>b. ID b) (mvals (Vertices blockRoot)))" and "\<forall>b \<in> set (mvals (Vertices blockRoot)). ID b \<noteq> []"
    and "w \<in> set (leaves tree)" and "map_of (nt_nodeInfo nt) (Name w) \<noteq> None"
    and "\<exists>b \<in> set (mvals (Vertices blockRoot)). Name w \<in> (\<lambda>v. Name v) ` set (mvals (Vertices b))"
  shows "\<exists>info. map_of (nt_nodeInfo (initBlocks root nt)) (Name w) = Some info \<and> ni_blockIndx info \<noteq> None"
proof -
  let ?bs = "mvals (Vertices blockRoot)"
  let ?bm = "fold (\<lambda>b. mput (ID b) b) ?bs []"
  let ?infos = "fold (\<lambda>b. fold (set_block_id (ID b)) (mvals (Vertices b))) ?bs (nt_nodeInfo nt)"
  let ?nt = "nt\<lparr>nt_blocks := [], nt_nodeInfo := ?infos\<rparr>"
  obtain b info where b: "b \<in> set ?bs" "Name w \<in> (\<lambda>v. Name v) ` set (mvals (Vertices b))"
    "map_of ?infos (Name w) = Some info" "ni_blockID info = ID b"
    using set_block_ids_lookup [OF assms(6,7)] by blast
  have "inj_on (\<lambda>b. ID b) (set ?bs)" using assms(3) unfolding distinct_map [of _ ?bs] by blast
  from alm.put_all_inj [OF this b(1), of "\<lambda>b. b" "[]"] have "map_of ?bm (ID b) = Some b" .
  moreover have "ID b \<noteq> []" using b(1) assms(4) by blast
  ultimately have "in_block ?bm ?nt (Name w)"
    using b unfolding in_block_def by (intro exI [of _ info] exI [of _ b]) simp
  moreover have "w \<in> set (concat (map leaves [tree]))" using assms(5) by simp
  moreover have "Vertices blockRoot \<noteq> []" using assms(7) by auto
  ultimately show ?thesis
    using block_order_loop_marks [of w "[tree]" ?bm ?nt] by (simp add: initBlocks_def assms(1,2))
qed

lemma initBlocks_indices:
  assumes "indices_ok nt" and "nt_blocks nt = []"
  shows "indices_ok (initBlocks root nt)"
proof -
  have none: "map_of (nt_nodeInfo nt) n = Some info \<Longrightarrow> ni_blockIndx info = None" for n info
    using assms unfolding indices_ok_def by fastforce
  have ids: "map_of (fold (\<lambda>b. fold (set_block_id (ID b)) (mvals (Vertices b))) bs (nt_nodeInfo nt)) n = Some info \<Longrightarrow>
      ni_blockIndx info = None" for bs n info
    using none
    by (induction bs arbitrary: n info rule: rev_induct) (fastforce simp: set_block_id_lookup split: if_splits)+
  have plain: "indices_ok nt \<Longrightarrow> indices_ok (fold (add_plain_block bs) is nt)" for bs "is" nt
    by (induction "is" arbitrary: nt) (simp_all add: add_plain_block_indices)
  have "indices_ok (nt\<lparr>nt_blocks := [], nt_nodeInfo := infos\<rparr>)"
    if "\<And>n info. map_of infos n = Some info \<Longrightarrow> ni_blockIndx info = None" for infos
    using that unfolding indices_ok_def by fastforce
  moreover have "indices_ok (nt\<lparr>nt_blocks := []\<rparr>)"
    using none unfolding indices_ok_def by fastforce
  ultimately show ?thesis
    using assms ids
    by (auto simp: initBlocks_def Let_def intro!: plain block_order_loop_indices split: option.split)
qed

lemma init_tree_step_indices:
  "indices_ok nt \<Longrightarrow> nt_blocks nt = [] \<Longrightarrow> indices_ok (init_tree_step v nt)"
  by (auto simp: indices_ok_def init_tree_step_def Let_def update_conv' split: if_splits)

lemma initTree_indices:
  assumes "indices_ok nt" and "nt_blocks nt = []"
  shows "indices_ok (initTree root nt)"
proof -
  have "indices_ok nt \<Longrightarrow> nt_blocks nt = [] \<Longrightarrow> indices_ok (init_tree_loop q nt)" for q nt
    by (induction q nt rule: init_tree_loop.induct)
      (simp_all add: init_tree_loop.simps init_tree_step_indices init_tree_step_keeps)
  then show ?thesis
    using assms by (simp add: initTree_def indices_ok_def Let_def split: option.split)
qed

section \<open>The order of the blocks\<close>

text \<open>
  What the loop over the tree is to compute: the leaves from the last child to the first, by sorted key; the blocks
  that contain them, each at its first leaf; an entry of the output for a block of the graph.
\<close>

function leaf_order :: "vertex \<Rightarrow> vertex list" where
  "leaf_order v =
     (if Vertices v = [] then [v] else concat (map leaf_order (rev (map snd (sort_key fst (Vertices v))))))"
  by pat_completeness auto

lemma child_vsize: "w \<in> set (mvals (Vertices v)) \<Longrightarrow> vsize w < vsize v"
  using member_le_sum_list [of "vsize w" "map vsize (mvals (Vertices v))"] vsize_children [of v] by fastforce

termination leaf_order
  using child_vsize by (relation "measure vsize") force+

declare leaf_order.simps [simp del]

definition block_with :: "vertex list \<Rightarrow> string \<Rightarrow> vertex option" where
  "block_with bs n = find (\<lambda>b. n \<in> (\<lambda>v. Name v) ` set (mvals (Vertices b))) bs"

definition first_blocks :: "vertex list \<Rightarrow> vertex list \<Rightarrow> vertex list" where
  "first_blocks bs ws = rev (remdups (rev (List.map_filter (\<lambda>w. block_with bs (Name w)) ws)))"

definition block_entry :: "nat \<Rightarrow> vertex \<Rightarrow> blockInfo" where
  "block_entry k b = \<lparr>bi_id = ID b, bi_name = Name b, bi_indx = k, bi_nodes = map (\<lambda>v. Name v) (mvals (Vertices b))\<rparr>"

definition listed_blocks :: "vertex list \<Rightarrow> blockInfo list" where
  "listed_blocks bs = map (\<lambda>k. block_entry k (bs ! k)) [0..<length bs]"

definition disjoint_blocks :: "vertex list \<Rightarrow> bool" where
  "disjoint_blocks bs \<longleftrightarrow>
     (\<forall>b \<in> set bs. \<forall>b' \<in> set bs. b \<noteq> b' \<longrightarrow>
        (\<lambda>v. Name v) ` set (mvals (Vertices b)) \<inter> (\<lambda>v. Name v) ` set (mvals (Vertices b')) = {})"

lemma leaf_order_set: "set (leaf_order v) = set (leaves v)"
proof (induction v rule: leaf_order.induct)
  case (1 v)
  have "set (leaves v) = (\<Union>w \<in> snd ` set (Vertices v). set (leaves w))" if "Vertices v \<noteq> []"
    using that by (cases v; cases "Vertices v") auto
  moreover have "leaves v = [v]" if "Vertices v = []" using that by (cases v) auto
  ultimately show ?case using 1 by (cases "Vertices v = []") (simp_all add: leaf_order.simps [of v])
qed

lemma push_children_order: "push_children v stack = rev (map snd (sort_key fst (Vertices v))) @ stack"
proof -
  have "fold (\<lambda>(key, w) stack. w # stack) xs st = rev (map snd xs) @ st" for xs :: "(string \<times> vertex) list" and st
    by (induction xs arbitrary: st) auto
  then show ?thesis by (simp add: push_children_def)
qed

lemma listed_blocks_snoc [simp]: "listed_blocks (bs @ [b]) = listed_blocks bs @ [block_entry (length bs) b]"
  by (simp add: listed_blocks_def nth_append)

lemma listed_blocks_nth: "length (listed_blocks bs) = length bs" "k < length bs \<Longrightarrow> listed_blocks bs ! k = block_entry k (bs ! k)"
  by (simp_all add: listed_blocks_def)

lemma first_blocks_snoc:
  "first_blocks bs (ws @ [w]) =
    (case block_with bs (Name w) of
       None \<Rightarrow> first_blocks bs ws
     | Some b \<Rightarrow> if b \<in> set (first_blocks bs ws) then first_blocks bs ws else first_blocks bs ws @ [b])"
  by (auto simp: first_blocks_def map_filter_def split: option.split)

lemma first_blocks_set: "set (first_blocks bs ws) = {b. \<exists>w \<in> set ws. block_with bs (Name w) = Some b}"
  by (force simp: first_blocks_def map_filter_def)

lemma first_blocks_distinct: "distinct (first_blocks bs ws)"
  by (simp add: first_blocks_def)

lemma block_with_Some:
  "block_with bs n = Some b \<Longrightarrow> b \<in> set bs \<and> n \<in> (\<lambda>v. Name v) ` set (mvals (Vertices b))"
  unfolding block_with_def find_Some_iff by auto

lemma block_with_iff:
  assumes "disjoint_blocks bs"
  shows "block_with bs n = Some b \<longleftrightarrow> b \<in> set bs \<and> n \<in> (\<lambda>v. Name v) ` set (mvals (Vertices b))"
proof
  assume b: "b \<in> set bs \<and> n \<in> (\<lambda>v. Name v) ` set (mvals (Vertices b))"
  then obtain b' where b': "block_with bs n = Some b'"
    unfolding block_with_def by (metis (no_types, lifting) find_None_iff2 option.exhaust)
  with b have "b = b'" using assms block_with_Some [OF b'] unfolding disjoint_blocks_def by blast
  then show "block_with bs n = Some b" using b' by simp
qed (rule block_with_Some)

text \<open>The nodes when the blocks \<open>ls\<close> are listed: each knows its block and, once the block is listed, its position.\<close>

definition node_marks :: "vertex list \<Rightarrow> vertex list \<Rightarrow> (string, nodeInfo) gomap \<Rightarrow> bool" where
  "node_marks bs ls infos \<longleftrightarrow>
     (\<forall>n info. map_of infos n = Some info \<longrightarrow>
        ni_blockID info = (case block_with bs n of None \<Rightarrow> [] | Some b \<Rightarrow> ID b) \<and>
        (\<forall>k. ni_blockIndx info = Some k \<longleftrightarrow> k < length ls \<and> block_with bs n = Some (ls ! k)))"

lemma node_marks_entry:
  assumes "node_marks bs ls infos" and "map_of infos n = Some info"
  shows "ni_blockID info = (case block_with bs n of None \<Rightarrow> [] | Some b \<Rightarrow> ID b)"
    and "ni_blockIndx info = None \<longleftrightarrow> (\<forall>b \<in> set ls. block_with bs n \<noteq> Some b)"
proof -
  have e: "ni_blockID info = (case block_with bs n of None \<Rightarrow> [] | Some b \<Rightarrow> ID b)"
    "\<And>k. ni_blockIndx info = Some k \<longleftrightarrow> k < length ls \<and> block_with bs n = Some (ls ! k)"
    using assms unfolding node_marks_def by blast+
  show "ni_blockID info = (case block_with bs n of None \<Rightarrow> [] | Some b \<Rightarrow> ID b)" by (rule e(1))
  show "ni_blockIndx info = None \<longleftrightarrow> (\<forall>b \<in> set ls. block_with bs n \<noteq> Some b)"
    using e(2) by (metis in_set_conv_nth not_None_eq)
qed

lemma set_block_indx_marks:
  assumes "node_marks bs ls infos" and "disjoint_blocks bs" and "b \<in> set bs" and "b \<notin> set ls"
  shows "node_marks bs (ls @ [b]) (fold (set_block_indx (length ls)) (mvals (Vertices b)) infos)"
  unfolding node_marks_def
proof (intro allI impI)
  fix n info
  assume n: "map_of (fold (set_block_indx (length ls)) (mvals (Vertices b)) infos) n = Some info"
  let ?in = "n \<in> (\<lambda>v. Name v) ` set (mvals (Vertices b))"
  obtain old where old: "map_of infos n = Some old" "info = (if ?in then old\<lparr>ni_blockIndx := Some (length ls)\<rparr> else old)"
    using n unfolding set_block_indx_lookup by (auto split: if_splits)
  have e: "ni_blockID old = (case block_with bs n of None \<Rightarrow> [] | Some b \<Rightarrow> ID b)"
    "\<And>k. ni_blockIndx old = Some k \<longleftrightarrow> k < length ls \<and> block_with bs n = Some (ls ! k)"
    using assms(1) old(1) unfolding node_marks_def by blast+
  have inb: "?in \<longleftrightarrow> block_with bs n = Some b" using block_with_iff [OF assms(2)] assms(3) by simp
  have "ni_blockIndx info = Some k \<longleftrightarrow> k < length (ls @ [b]) \<and> block_with bs n = Some ((ls @ [b]) ! k)" for k
  proof (cases ?in)
    case True
    then have "k < length ls \<Longrightarrow> block_with bs n \<noteq> Some (ls ! k)" using inb assms(4) by (metis nth_mem option.inject)
    then show ?thesis using True inb old(2) by (auto simp: nth_append less_Suc_eq)
  next
    case False
    then show ?thesis using inb old(2) e(2) by (auto simp: nth_append less_Suc_eq)
  qed
  then show "ni_blockID info = (case block_with bs n of None \<Rightarrow> [] | Some b \<Rightarrow> ID b) \<and>
    (\<forall>k. ni_blockIndx info = Some k \<longleftrightarrow> k < length (ls @ [b]) \<and> block_with bs n = Some ((ls @ [b]) ! k))"
    using old(2) e(1) by simp
qed

text \<open>What holds in every turn of the loop: \<open>ws\<close> are the leaves seen.\<close>

definition order_inv :: "vertex list \<Rightarrow> vertex list \<Rightarrow> NetworkTopology \<Rightarrow> bool" where
  "order_inv bs ws nt \<longleftrightarrow>
     nt_blocks nt = listed_blocks (first_blocks bs ws) \<and> node_marks bs (first_blocks bs ws) (nt_nodeInfo nt)"

lemma visit_leaf_dom: "map_of (nt_nodeInfo (visit_leaf bm v nt)) n = None \<longleftrightarrow> map_of (nt_nodeInfo nt) n = None"
  by (simp add: visit_leaf_def markBlockNodes_def set_block_indx_lookup split: option.split)

lemma visit_leaf_order:
  assumes inv: "order_inv bs ws nt" and "disjoint_blocks bs" and ids: "\<forall>b \<in> set bs. ID b \<noteq> [] \<and> map_of bm (ID b) = Some b"
    and known: "map_of (nt_nodeInfo nt) (Name v) \<noteq> None"
  shows "order_inv bs (ws @ [v]) (visit_leaf bm v nt)"
proof -
  let ?ls = "first_blocks bs ws"
  note parts = inv [unfolded order_inv_def]
  obtain info where info: "map_of (nt_nodeInfo nt) (Name v) = Some info" using known by blast
  note entry = node_marks_entry [OF parts [THEN conjunct2] info]
  show ?thesis
  proof (cases "block_with bs (Name v)")
    case None
    then show ?thesis using inv info entry(1) by (simp add: visit_leaf_def first_blocks_snoc order_inv_def)
  next
    case (Some b)
    then have b: "b \<in> set bs" using block_with_Some by blast
    show ?thesis
    proof (cases "b \<in> set ?ls")
      case True
      then have "ni_blockIndx info \<noteq> None" using entry(2) Some by blast
      then show ?thesis using inv info Some True by (auto simp: visit_leaf_def first_blocks_snoc order_inv_def)
    next
      case False
      then have "ni_blockIndx info = None" using entry(2) Some by auto
      moreover have "ni_blockID info = ID b" using entry(1) Some by simp
      moreover have "length (nt_blocks nt) = length ?ls" using parts by (simp add: listed_blocks_nth)
      ultimately show ?thesis
        using set_block_indx_marks [OF parts [THEN conjunct2] assms(2) b False] info ids b Some False parts
        by (simp add: visit_leaf_def markBlockNodes_def first_blocks_snoc order_inv_def block_entry_def)
    qed
  qed
qed

lemma block_order_loop_order:
  assumes "order_inv bs ws nt" and "disjoint_blocks bs" and "\<forall>b \<in> set bs. ID b \<noteq> [] \<and> map_of bm (ID b) = Some b"
    and "\<forall>w \<in> set (concat (map leaves stack)). map_of (nt_nodeInfo nt) (Name w) \<noteq> None"
  shows "order_inv bs (ws @ concat (map leaf_order stack)) (block_order_loop bm stack nt)"
  using assms
proof (induction bm stack nt arbitrary: ws rule: block_order_loop.induct)
  case (1 bm nt)
  then show ?case by (simp add: block_order_loop.simps)
next
  case (2 bm v stack nt)
  show ?case
  proof (cases "Vertices v = []")
    case True
    then have v: "leaves v = [v]" "leaf_order v = [v]" by (cases v; simp add: leaf_order.simps)+
    have "order_inv bs (ws @ [v]) (visit_leaf bm v nt)"
      using 2(6) v(1) by (intro visit_leaf_order [OF 2(3,4,5)]) simp
    from 2(1) [OF _ this 2(4,5)] show ?thesis
      using True 2(6) v by (simp add: block_order_loop.simps visit_leaf_dom)
  next
    case False
    have "concat (map leaf_order (push_children v stack)) = leaf_order v @ concat (map leaf_order stack)"
      using False by (simp add: push_children_order leaf_order.simps [of v])
    moreover have "\<forall>w \<in> set (concat (map leaves (push_children v stack))). map_of (nt_nodeInfo nt) (Name w) \<noteq> None"
      using 2(6) unfolding push_children_leaves [OF False] by simp
    ultimately show ?thesis using 2(2) [OF _ 2(3,4,5)] False by (simp add: block_order_loop.simps)
  qed
qed

text \<open>After \<open>initTree\<close> no node has a block; after the first loop over the blocks each has that which contains it.\<close>

definition unmarked :: "(string, nodeInfo) gomap \<Rightarrow> bool" where
  "unmarked infos \<longleftrightarrow> (\<forall>n info. map_of infos n = Some info \<longrightarrow> ni_blockID info = [] \<and> ni_blockIndx info = None)"

lemma init_tree_step_unmarked: "unmarked (nt_nodeInfo nt) \<Longrightarrow> unmarked (nt_nodeInfo (init_tree_step v nt))"
  by (auto simp: init_tree_step_def unmarked_def Let_def update_conv' split: if_splits)

lemma initTree_unmarked: "unmarked (nt_nodeInfo nt) \<Longrightarrow> unmarked (nt_nodeInfo (initTree root nt))"
proof -
  have "unmarked (nt_nodeInfo nt) \<Longrightarrow> unmarked (nt_nodeInfo (init_tree_loop q nt))" for q nt
    by (induction q nt rule: init_tree_loop.induct) (simp_all add: init_tree_loop.simps init_tree_step_unmarked)
  then show "unmarked (nt_nodeInfo nt) \<Longrightarrow> ?thesis" by (simp add: initTree_def Let_def split: option.split)
qed

lemma set_block_ids_from:
  assumes "unmarked infos"
  shows "map_of (fold (\<lambda>b. fold (set_block_id (ID b)) (mvals (Vertices b))) bs infos) n = Some info \<Longrightarrow>
    ni_blockIndx info = None \<and>
    ((\<forall>b \<in> set bs. n \<notin> (\<lambda>v. Name v) ` set (mvals (Vertices b))) \<and> ni_blockID info = [] \<or>
     (\<exists>b \<in> set bs. n \<in> (\<lambda>v. Name v) ` set (mvals (Vertices b)) \<and> ni_blockID info = ID b))"
proof (induction bs arbitrary: info rule: rev_induct)
  case Nil
  then show ?case using assms by (simp add: unmarked_def)
next
  case (snoc b bs)
  let ?infos = "fold (\<lambda>b. fold (set_block_id (ID b)) (mvals (Vertices b))) bs infos"
  show ?case
  proof (cases "n \<in> (\<lambda>v. Name v) ` set (mvals (Vertices b))")
    case True
    then obtain old where "map_of ?infos n = Some old" "info = old\<lparr>ni_blockID := ID b\<rparr>"
      using snoc.prems by (auto simp: set_block_id_lookup)
    then show ?thesis using snoc.IH True by simp
  next
    case False
    then have "map_of ?infos n = Some info" using snoc.prems by (simp add: set_block_id_lookup)
    from snoc.IH [OF this] show ?thesis using False by auto
  qed
qed

lemma set_block_ids_marks:
  assumes "unmarked infos" and "disjoint_blocks bs"
  shows "node_marks bs [] (fold (\<lambda>b. fold (set_block_id (ID b)) (mvals (Vertices b))) bs infos)"
  unfolding node_marks_def
proof (intro allI impI)
  fix n info
  assume "map_of (fold (\<lambda>b. fold (set_block_id (ID b)) (mvals (Vertices b))) bs infos) n = Some info"
  note ids = set_block_ids_from [OF assms(1) this]
  have "ni_blockID info = (case block_with bs n of None \<Rightarrow> [] | Some b \<Rightarrow> ID b)"
  proof (cases "block_with bs n")
    case None
    then have "\<forall>b \<in> set bs. n \<notin> (\<lambda>v. Name v) ` set (mvals (Vertices b))"
      unfolding block_with_def find_None_iff by blast
    then have "ni_blockID info = []" using ids by blast
    then show ?thesis using None by simp
  next
    case (Some b)
    have "b' = b" if "b' \<in> set bs" "n \<in> (\<lambda>v. Name v) ` set (mvals (Vertices b'))" for b'
      using that Some block_with_iff [OF assms(2), of n b'] by simp
    moreover have "b \<in> set bs" "n \<in> (\<lambda>v. Name v) ` set (mvals (Vertices b))" using block_with_Some [OF Some] by blast+
    ultimately have "ni_blockID info = ID b" using ids by blast
    then show ?thesis using Some by simp
  qed
  then show "ni_blockID info = (case block_with bs n of None \<Rightarrow> [] | Some b \<Rightarrow> ID b) \<and>
      (\<forall>k. ni_blockIndx info = Some k \<longleftrightarrow> k < length [] \<and> block_with bs n = Some ([] ! k))"
    using ids by simp
qed

lemma initBlocks_order:
  assumes tree: "map_of (Vertices root) TopologyTree = Some tree" and block: "map_of (Vertices root) TopologyBlock = Some blockRoot"
    and ids: "distinct (map (\<lambda>b. ID b) (mvals (Vertices blockRoot)))" "\<forall>b \<in> set (mvals (Vertices blockRoot)). ID b \<noteq> []"
    and apart: "disjoint_blocks (mvals (Vertices blockRoot))" and free: "unmarked (nt_nodeInfo nt)" "nt_blocks nt = []"
    and known: "\<forall>w \<in> set (leaves tree). map_of (nt_nodeInfo nt) (Name w) \<noteq> None"
  shows "order_inv (mvals (Vertices blockRoot)) (leaf_order tree) (initBlocks root nt)"
proof (cases "Vertices blockRoot = []")
  case True
  then show ?thesis using free
    by (simp add: initBlocks_def block order_inv_def first_blocks_def block_with_def map_filter_def listed_blocks_def
        node_marks_def unmarked_def)
next
  case False
  let ?bs = "mvals (Vertices blockRoot)"
  let ?bm = "fold (\<lambda>b. mput (ID b) b) ?bs []"
  let ?infos = "fold (\<lambda>b. fold (set_block_id (ID b)) (mvals (Vertices b))) ?bs (nt_nodeInfo nt)"
  have inj: "inj_on (\<lambda>b. ID b) (set ?bs)" using ids(1) unfolding distinct_map [of _ ?bs] by blast
  have "map_of ?bm (ID b) = Some b" if "b \<in> set ?bs" for b
    using alm.put_all_inj [OF inj that, of "\<lambda>b. b" "[]"] .
  moreover have "order_inv ?bs [] (nt\<lparr>nt_blocks := [], nt_nodeInfo := ?infos\<rparr>)"
    using set_block_ids_marks [OF free(1) apart]
    by (simp add: order_inv_def first_blocks_def listed_blocks_def map_filter_def)
  moreover have "map_of infos n \<noteq> None \<Longrightarrow> map_of (fold (\<lambda>b. fold (set_block_id (ID b)) (mvals (Vertices b))) bs infos) n \<noteq> None"
    for bs infos n by (induction bs rule: rev_induct) (auto simp: set_block_id_lookup)
  then have "\<forall>w \<in> set (concat (map leaves [tree])). map_of ?infos (Name w) \<noteq> None" using known by simp
  ultimately have "order_inv ?bs ([] @ concat (map leaf_order [tree])) (block_order_loop ?bm [tree] (nt\<lparr>nt_blocks := [], nt_nodeInfo := ?infos\<rparr>))"
    using ids(2) by (intro block_order_loop_order [OF _ apart]) simp_all
  then show ?thesis using False by (simp add: initBlocks_def tree block)
qed

section \<open>Properties\<close>

text \<open>
  C9. Validation accepts exactly the configurations the generator supports: without partitions a tree
  or block plugin whose data the graph has; with partitions no cluster-wide plugin, and for each partition
  the flat plugin, or a tree or block plugin whose data the graph has and at least one node.
\<close>

theorem Validate_accepts:
  "Validate cfg root = None \<longleftrightarrow>
    (if cfg_Topologies cfg = []
     then (cfg_Plugin cfg = TopologyTree \<and> map_of (Vertices root) TopologyTree \<noteq> None) \<or>
          (cfg_Plugin cfg = TopologyBlock \<and> map_of (Vertices root) TopologyBlock \<noteq> None)
     else cfg_Plugin cfg = [] \<and>
          list_all (\<lambda>(topo, spec).
             spec_Plugin spec = TopologyFlat \<or>
             (spec_Plugin spec = TopologyTree \<and> map_of (Vertices root) TopologyTree \<noteq> None \<and> spec_Nodes spec \<noteq> []) \<or>
             (spec_Plugin spec = TopologyBlock \<and> map_of (Vertices root) TopologyBlock \<noteq> None \<and> spec_Nodes spec \<noteq> []))
            (cfg_Topologies cfg))"
proof -
  have names: "TopologyTree \<noteq> TopologyBlock" "TopologyTree \<noteq> TopologyFlat" "TopologyBlock \<noteq> TopologyFlat"
    by (simp_all add: TopologyTree_def TopologyBlock_def TopologyFlat_def)
  have one: "validate_spec root topo spec = None \<longleftrightarrow>
      spec_Plugin spec = TopologyFlat \<or>
      (spec_Plugin spec = TopologyTree \<and> map_of (Vertices root) TopologyTree \<noteq> None \<and> spec_Nodes spec \<noteq> []) \<or>
      (spec_Plugin spec = TopologyBlock \<and> map_of (Vertices root) TopologyBlock \<noteq> None \<and> spec_Nodes spec \<noteq> [])"
    for topo spec
    using names by (auto simp: validate_spec_def has_child_def)
  have "validate_specs root specs = None \<longleftrightarrow> list_all (\<lambda>(topo, spec). validate_spec root topo spec = None) specs" for specs
    by (induction specs) (auto split: option.splits)
  then show ?thesis using names by (auto simp: Validate_def has_child_def one)
qed

text \<open>
  C10. The blocks of a network topology: the output lists exactly the blocks of the graph that have a node in the tree,
  each once, in the order in which their first nodes come up when the tree is read by sorted key, last child
  first; each with its ID, its name, its position and the names of its nodes; and a compute node of the tree that
  belongs to a block has the ID of that block and its position, while a node with a position is listed there. The
  tree has distinct IDs, the blocks have distinct, non-empty IDs and no node in common.
\<close>

theorem NewNetworkTopology_blocks:
  assumes "NewNetworkTopology root cfg = Inr nt"
    and "map_of (Vertices root) TopologyTree = Some tree" and "unique_ids [tree]"
    and "map_of (Vertices root) TopologyBlock = Some blockRoot"
    and "distinct (map (\<lambda>b. ID b) (mvals (Vertices blockRoot)))" and "\<forall>b \<in> set (mvals (Vertices blockRoot)). ID b \<noteq> []"
    and "disjoint_blocks (mvals (Vertices blockRoot))"
  shows "nt_blocks nt = listed_blocks (first_blocks (mvals (Vertices blockRoot)) (leaf_order tree)) \<and>
    (\<forall>w \<in> set (leaves tree). \<forall>b \<in> set (mvals (Vertices blockRoot)). Name w \<in> (\<lambda>v. Name v) ` set (mvals (Vertices b)) \<longrightarrow>
       (\<exists>info k. map_of (nt_nodeInfo nt) (Name w) = Some info \<and> ni_blockID info = ID b \<and> ni_blockIndx info = Some k \<and>
          k < length (nt_blocks nt) \<and> nt_blocks nt ! k = block_entry k b)) \<and>
    (\<forall>n info k. map_of (nt_nodeInfo nt) n = Some info \<longrightarrow> ni_blockIndx info = Some k \<longrightarrow>
       k < length (nt_blocks nt) \<and> n \<in> set (bi_nodes (nt_blocks nt ! k)))"
proof -
  let ?e = "empty_topology cfg (Metadata root)" and ?bs = "mvals (Vertices blockRoot)"
  let ?ls = "first_blocks ?bs (leaf_order tree)"
  have nt: "nt = initBlocks root (initTree root ?e)"
    using assms(1) by (simp add: NewNetworkTopology_def split: option.splits)
  have e: "indices_ok ?e" "nt_blocks ?e = []" "nt_tree ?e = []" "unmarked (nt_nodeInfo ?e)"
    by (simp_all add: indices_ok_def empty_topology_def unmarked_def)
  have known: "map_of (nt_nodeInfo (initTree root ?e)) (Name w) \<noteq> None" if "w \<in> set (leaves tree)" for w
    using init_tree_loop_nodes [OF assms(3), of ?e] leaf_subs [OF that] e(3)
    by (simp add: initTree_def assms(2) Let_def all_subs_def)
  then have "order_inv ?bs (leaf_order tree) nt"
    unfolding nt using e(2) initTree_unmarked [OF e(4)] by (intro initBlocks_order [OF assms(2,4,5,6,7)]) simp_all
  then have order: "nt_blocks nt = listed_blocks ?ls" "node_marks ?bs ?ls (nt_nodeInfo nt)" unfolding order_inv_def by blast+
  have "\<exists>info k. map_of (nt_nodeInfo nt) (Name w) = Some info \<and> ni_blockID info = ID b \<and> ni_blockIndx info = Some k \<and>
      k < length (nt_blocks nt) \<and> nt_blocks nt ! k = block_entry k b"
    if w: "w \<in> set (leaves tree)" and b: "b \<in> set ?bs" "Name w \<in> (\<lambda>v. Name v) ` set (mvals (Vertices b))" for w b
  proof -
    obtain info where info: "map_of (nt_nodeInfo nt) (Name w) = Some info"
      using initBlocks_marks [OF assms(2,4,5,6) w known [OF w]] b unfolding nt by blast
    have "block_with ?bs (Name w) = Some b" using block_with_iff [OF assms(7)] b by blast
    moreover from this have "b \<in> set ?ls" using w unfolding first_blocks_set leaf_order_set by blast
    then obtain k where "k < length ?ls" "?ls ! k = b" unfolding in_set_conv_nth by blast
    ultimately show ?thesis using order info unfolding node_marks_def by (auto simp: listed_blocks_nth)
  qed
  moreover have "indices_ok nt" unfolding nt using e by (intro initBlocks_indices initTree_indices) simp_all
  ultimately show ?thesis using order(1) unfolding indices_ok_def by blast
qed

text \<open>The graph of two InfiniBand domains of the test provider, with the block plugin.\<close>

definition block_config :: Config where
  "block_config = \<lparr>cfg_Plugin = TopologyBlock, cfg_BlockSizes = [3], cfg_FakeNodePool = [], cfg_Topologies = []\<rparr>"

definition multi_ib :: vertex where
  "multi_ib = fst GetBlockWithMultiIBTestSet"

definition multi_ib_tree :: vertex where
  "multi_ib_tree = the (map_of (Vertices multi_ib) TopologyTree)"

definition multi_ib_blocks :: vertex where
  "multi_ib_blocks = the (map_of (Vertices multi_ib) TopologyBlock)"

lemma multi_ib_parts:
  "map_of (Vertices multi_ib) TopologyTree = Some multi_ib_tree"
  "map_of (Vertices multi_ib) TopologyBlock = Some multi_ib_blocks"
  by code_simp+

lemma multi_ib_unique: "unique_ids [multi_ib_tree]"
  by code_simp

lemma multi_ib_disjoint: "disjoint_blocks (mvals (Vertices multi_ib_blocks))"
  by code_simp

theorem NewNetworkTopology_blocks_witness:
  "\<exists>nt. NewNetworkTopology multi_ib block_config = Inr nt \<and>
     map (\<lambda>b. (bi_id b, bi_indx b, bi_nodes b)) (nt_blocks nt) =
       [(''B2'', 0, [''Node201'', ''Node202'', ''Node205'']), (''B1'', 1, [''Node104'', ''Node105'', ''Node106'']),
        (''B4'', 2, [''Node401'', ''Node402'', ''Node403'']), (''B3'', 3, [''Node301'', ''Node302'', ''Node303''])]"
proof -
  have "Validate block_config multi_ib = None" by code_simp
  then obtain nt where nt: "NewNetworkTopology multi_ib block_config = Inr nt"
    by (simp add: NewNetworkTopology_def)
  have "distinct (map (\<lambda>b. ID b) (mvals (Vertices multi_ib_blocks)))"
    "\<forall>b \<in> set (mvals (Vertices multi_ib_blocks)). ID b \<noteq> []" by code_simp+
  note blocks = NewNetworkTopology_blocks [OF nt multi_ib_parts(1) multi_ib_unique multi_ib_parts(2) this multi_ib_disjoint]
  have "map (\<lambda>b. (bi_id b, bi_indx b, bi_nodes b))
      (listed_blocks (first_blocks (mvals (Vertices multi_ib_blocks)) (leaf_order multi_ib_tree))) =
       [(''B2'', 0, [''Node201'', ''Node202'', ''Node205'']), (''B1'', 1, [''Node104'', ''Node105'', ''Node106'']),
        (''B4'', 2, [''Node401'', ''Node402'', ''Node403'']), (''B3'', 3, [''Node301'', ''Node302'', ''Node303''])]"
    by code_simp
  then show ?thesis using nt blocks by simp
qed

end
