(* ===== verification/Output.thy ===== *)
theory Output
  imports Translate Cluset
begin

text \<open>
  The writers of \<open>pkg/translate\<close>: \<open>tree.go\<close> and \<open>block.go\<close> (SLURM's tree and block
  formats), \<open>fake.go\<close> (the pool of fake nodes that pads small blocks), \<open>yaml.go\<close> (one unit
  per partition) and \<open>Generate\<close> of \<open>topology.go\<close>.

  Every function that prints takes the writer's operation \<open>wr\<close> (locale \<open>go_writer\<close>) and its
  state. The queue loops walk the adjacency list by IDs and need not end on a cyclic one; they are
  \<open>partial_function (option)\<close>, where \<open>None\<close> is not returning. The recursion \<open>dfs\<close> takes
  as fuel the number of IDs of the adjacency list plus two: a deeper call has an ID twice on its path and
  would not return either, which is the outcome \<open>None\<close>. \<open>yaml.Marshal\<close> is an argument.

  \<open>math.Log2\<close> of the number of blocks is exact for every list that fits into memory, and of 0 is
  minus infinity, which converts to the smallest integer.
\<close>

section \<open>Tree format\<close>

definition writeVertex :: "'w writer \<Rightarrow> vertex \<Rightarrow> 'w \<Rightarrow> 'w res" where
  "writeVertex wr v w =
     (if length (ID v) = 0 then Inr w
      else
        let kids = mvals (Vertices v);
            nodes = map (\<lambda>w. Name w) (filter (\<lambda>w. length (Vertices w) = 0) kids);
            switches = map (\<lambda>w. if length (Name w) \<noteq> 0 then Name w else ID w) (filter (\<lambda>w. length (Vertices w) \<noteq> 0) kids);
            comment = (if length (Name v) = 0 then [] else ''# '' @ Name v @ ''='' @ ID v @ newline);
            name = (if length (Name v) = 0 then ID v else Name v)
        in bind_sum
             (if length switches \<noteq> 0
              then wr (comment @ ''SwitchName='' @ name @ '' Switches='' @ join '','' (Compact switches) @ newline) w
              else Inr w)
             (\<lambda>w. if length nodes \<noteq> 0
                  then wr (comment @ ''SwitchName='' @ name @ '' Nodes='' @ join '','' (Compact nodes) @ newline) w
                  else Inr w))"

partial_function (option) tree_loop ::
  "'w writer \<Rightarrow> NetworkTopology \<Rightarrow> string list \<Rightarrow> 'w \<Rightarrow> 'w http_res option" where
  "tree_loop wr nt queue w =
     (case queue of
        [] \<Rightarrow> Some (Inr w)
      | i # queue \<Rightarrow>
          (case map_of (nt_vertices nt) i of
             None \<Rightarrow> Some (Inl (NewError StatusBadGateway (''missing vertex with ID '' @ quote i)))
           | Some v \<Rightarrow>
               (case writeVertex wr v w of
                  Inl err \<Rightarrow> Some (Inl (NewError StatusInternalServerError err))
                | Inr w \<Rightarrow> tree_loop wr nt (queue @ mget0 [] (nt_tree nt) i) w)))"

declare tree_loop.simps [code]

definition toTreeTopology :: "'w writer \<Rightarrow> NetworkTopology \<Rightarrow> 'w \<Rightarrow> 'w http_res option" where
  "toTreeTopology wr nt w = tree_loop wr nt [[]] w"

section \<open>Fake nodes\<close>

record fakeNodeConfig =
  fnc_baseBlockSize :: int
  fnc_index :: int
  fnc_nodes :: "string list"

definition getFakeNodeConfig :: "string \<Rightarrow> fakeNodeConfig" where
  "getFakeNodeConfig fakeNodeData =
     \<lparr>fnc_baseBlockSize = 0, fnc_index = 0, fnc_nodes = Expand [fakeNodeData]\<rparr>"

text \<open>The half-open slice \<open>xs[start:end]\<close>.\<close>

definition slice :: "int \<Rightarrow> int \<Rightarrow> 'a list \<Rightarrow> 'a list" where
  "slice start end' xs = take (nat (end' - start)) (drop (nat start) xs)"

definition getFreeFakeNodes :: "int \<Rightarrow> fakeNodeConfig \<Rightarrow> string res \<times> fakeNodeConfig" where
  "getFreeFakeNodes cnt fnc =
     (let start = fnc_index fnc;
          end' = fnc_index fnc + cnt
      in if end' > int (length (fnc_nodes fnc)) then (Inl ''not enough fake nodes available'', fnc)
         else (Inr (join '','' (Compact (slice start end' (fnc_nodes fnc)))), fnc\<lparr>fnc_index := end'\<rparr>))"

section \<open>Block format\<close>

fun min_size_loop :: "int \<Rightarrow> blockInfo list \<Rightarrow> int" where
  "min_size_loop m [] = m"
| "min_size_loop m (b # bs) =
     (let blocklen = int (length (bi_nodes b))
      in min_size_loop (if m = - 1 \<or> m > blocklen then blocklen else m) bs)"

definition findMinDomainSize :: "blockInfo list \<Rightarrow> int" where
  "findMinDomainSize blocks = min_size_loop (- 1) blocks"

text \<open>\<open>int(math.Log2(float64(n)))\<close>.\<close>

fun log2_floor :: "nat \<Rightarrow> nat" where
  "log2_floor n = (if n < 2 then 0 else Suc (log2_floor (n div 2)))"

declare log2_floor.simps [simp del]

definition log2_int :: "nat \<Rightarrow> int" where
  "log2_int n = (if n = 0 then min_int64 else int (log2_floor n))"

definition level_size :: "int \<Rightarrow> int \<Rightarrow> int" where
  "level_size base l = wrap64 (2 ^ nat l * base)"

text \<open>The requested sizes that are accepted before the first \<open>break\<close>.\<close>

definition accepted_sizes :: "int list \<Rightarrow> int \<Rightarrow> int \<Rightarrow> int list" where
  "accepted_sizes requested minDomainSize maxnumbs =
     (case requested of
        [] \<Rightarrow> []
      | candidate # _ \<Rightarrow>
          if candidate \<le> 0 \<or> candidate > minDomainSize then []
          else takeWhile (\<lambda>bs. bs \<in> set (map (level_size candidate) [0..maxnumbs])) requested)"

definition getBlockSize :: "blockInfo list \<Rightarrow> int list \<Rightarrow> bool \<Rightarrow> int list" where
  "getBlockSize blocks requestedBlockSizes useFake =
     (let minDomainSize =
            (if useFake \<and> length requestedBlockSizes \<noteq> 0 then hd requestedBlockSizes
             else findMinDomainSize blocks);
          maxnumbs = log2_int (length blocks);
          outputbs = accepted_sizes requestedBlockSizes minDomainSize maxnumbs
      in if length requestedBlockSizes \<noteq> 0 \<and> length outputbs = length requestedBlockSizes then outputbs
         else minDomainSize # map (level_size minDomainSize) [1..maxnumbs])"

text \<open>The names of a block on its line, padded with fake nodes.\<close>

definition block_names :: "blockInfo \<Rightarrow> fakeNodeConfig option \<Rightarrow> (string \<times> fakeNodeConfig option) http_res" where
  "block_names bInfo fnc =
     (let names = join '','' (Compact (bi_nodes bInfo))
      in case fnc of
           None \<Rightarrow> Inr (names, None)
         | Some f \<Rightarrow>
             if int (length (bi_nodes bInfo)) < fnc_baseBlockSize f
             then (case getFreeFakeNodes (fnc_baseBlockSize f - int (length (bi_nodes bInfo))) f of
                     (Inl err, f) \<Rightarrow> Inl (NewError StatusBadGateway err)
                   | (Inr fake, f) \<Rightarrow> Inr (names @ '','' @ fake, Some f))
             else Inr (names, Some f))"

definition write_block :: "'w writer \<Rightarrow> blockInfo \<Rightarrow> fakeNodeConfig option \<times> 'w \<Rightarrow> (fakeNodeConfig option \<times> 'w) http_res" where
  "write_block wr bInfo s =
     (case s of (fnc, w) \<Rightarrow>
        let comment = (if length (bi_name bInfo) \<noteq> 0 then ''# '' @ bi_id bInfo @ ''='' @ bi_name bInfo @ newline else [])
        in bind_sum (block_names bInfo fnc)
             (\<lambda>(names, fnc).
                bind_sum (with_code StatusInternalServerError
                            (wr (comment @ ''BlockName='' @ bi_id bInfo @ '' Nodes='' @ names @ newline) w))
                  (\<lambda>w. Inr (fnc, w))))"

definition toBlockTopology :: "'w writer \<Rightarrow> NetworkTopology \<Rightarrow> 'w \<Rightarrow> 'w http_res" where
  "toBlockTopology wr nt w =
     (let fnc = (if length (cfg_FakeNodePool (nt_config nt)) \<noteq> 0
                 then Some (getFakeNodeConfig (cfg_FakeNodePool (nt_config nt))) else None);
          finalBlockSizes = getBlockSize (nt_blocks nt) (cfg_BlockSizes (nt_config nt)) (fnc \<noteq> None);
          fnc = map_option (\<lambda>f. f\<lparr>fnc_baseBlockSize := hd finalBlockSizes\<rparr>) fnc
      in bind_sum (fold_sum (write_block wr) (nt_blocks nt) (fnc, w))
           (\<lambda>(fnc, w). with_code StatusInternalServerError
              (wr (''BlockSizes='' @ join '','' (map show_int finalBlockSizes) @ newline) w)))"

section \<open>YAML format\<close>

record Switch =
  sw_Name :: string
  sw_Children :: string
  sw_Nodes :: string

record Block =
  blk_Name :: string
  blk_Nodes :: string

record TopologyUnit =
  tu_Name :: string
  tu_Default :: bool
  tu_Flat :: bool
  tu_Tree :: "Switch list option"
  tu_Block :: "(int list \<times> Block list) option"

type_synonym selector = "string list"

definition newSelector :: "string list \<Rightarrow> selector" where
  "newSelector xs = remdups xs"

text \<open>
  \<open>dfs\<close> of \<open>findRequiredNodes\<close>: whether a leaf is below the ID, and the IDs on the paths to
  leaves so far.
\<close>

fun dfs :: "nat \<Rightarrow> (string, string list) gomap \<Rightarrow> selector \<Rightarrow> string \<Rightarrow> selector \<Rightarrow> (bool \<times> selector) option" where
  "dfs 0 tree lvs node required = None"
| "dfs (Suc f) tree lvs node required =
     map_option (\<lambda>(keep, required). (keep, if keep then node # required else required))
       (fold (\<lambda>child s. case s of None \<Rightarrow> None
                | Some (keep, required) \<Rightarrow>
                    map_option (\<lambda>(k, required). (k \<or> keep, required)) (dfs f tree lvs child required))
          (mget0 [] tree node) (Some (node \<in> set lvs, required)))"

definition findRequiredNodes :: "(string, string list) gomap \<Rightarrow> selector \<Rightarrow> selector option" where
  "findRequiredNodes tree lvs = map_option snd (dfs (Suc (Suc (length tree))) tree lvs [] [])"

definition buildSubTree :: "(string, string list) gomap \<Rightarrow> selector \<Rightarrow> (string, string list) gomap" where
  "buildSubTree tree required =
     fold (\<lambda>(parent, children) subtree.
             if parent \<in> set required
             then fold (\<lambda>child subtree. if child \<in> set required
                          then mput parent (mget0 [] subtree parent @ [child]) subtree else subtree)
                    children subtree
             else subtree)
       tree []"

definition getPartitionTree :: "(string, string list) gomap \<Rightarrow> string list \<Rightarrow> (string, string list) gomap option" where
  "getPartitionTree tree nodes = map_option (buildSubTree tree) (findRequiredNodes tree (newSelector nodes))"

definition add_to_block :: "(string, nodeInfo) gomap \<Rightarrow> string \<Rightarrow> (nat, blockInfo) gomap \<Rightarrow> (nat, blockInfo) gomap" where
  "add_to_block infos nodeName blockMap =
     (case map_of infos nodeName of
        None \<Rightarrow> blockMap
      | Some info \<Rightarrow>
          (case ni_blockIndx info of
             None \<Rightarrow> blockMap
           | Some indx \<Rightarrow>
               (case map_of blockMap indx of
                  None \<Rightarrow> mput indx \<lparr>bi_id = [], bi_name = [], bi_indx = indx, bi_nodes = [nodeName]\<rparr> blockMap
                | Some bInfo \<Rightarrow> mput indx (bInfo\<lparr>bi_nodes := bi_nodes bInfo @ [nodeName]\<rparr>) blockMap)))"

definition getBlockTopologyUnit :: "NetworkTopology \<Rightarrow> string \<Rightarrow> TopologySpec \<Rightarrow> TopologyUnit" where
  "getBlockTopologyUnit nt topoName topoSpec =
     (let nodeNames = Expand (spec_Nodes topoSpec);
          blockMap = fold (add_to_block (nt_nodeInfo nt)) nodeNames [];
          bInfos = sort_key bi_indx (mvals blockMap);
          blocks = map (\<lambda>(indx, bInfo). \<lparr>blk_Name = ''block'' @ show_nat indx, blk_Nodes = join '','' (Compact (bi_nodes bInfo))\<rparr>)
                     (enumerate 0 bInfos);
          blockSizes = getBlockSize bInfos (spec_BlockSizes topoSpec) False
      in \<lparr>tu_Name = topoName, tu_Default = spec_ClusterDefault topoSpec, tu_Flat = False, tu_Tree = None,
          tu_Block = Some (blockSizes, blocks)\<rparr>)"

text \<open>The switch that one turn of the loop of \<open>getTreeTopologyUnit\<close> adds.\<close>

definition partition_switch :: "selector \<Rightarrow> vertex \<Rightarrow> string list \<Rightarrow> Switch option" where
  "partition_switch nodeSelector v connects =
     (let switchSelector = newSelector connects;
          kids = mvals (Vertices v);
          lvs = map (\<lambda>w. Name w) (filter (\<lambda>w. length (Vertices w) = 0 \<and> Name w \<in> set nodeSelector) kids);
          childen = map (\<lambda>w. ID w) (filter (\<lambda>w. length (Vertices w) \<noteq> 0 \<and> ID w \<in> set switchSelector) kids)
      in if length childen \<noteq> 0 \<or> length lvs \<noteq> 0
         then Some \<lparr>sw_Name = ID v,
                    sw_Children = (if length childen \<noteq> 0 then join '','' (Compact childen) else []),
                    sw_Nodes = (if length lvs \<noteq> 0 then join '','' (Compact lvs) else [])\<rparr>
         else None)"

text \<open>\<open>nt.vertices\<close> holds a vertex for every key of the tree, so the lookup finds one.\<close>

partial_function (option) partition_loop ::
  "NetworkTopology \<Rightarrow> selector \<Rightarrow> (string, string list) gomap \<Rightarrow> string list \<Rightarrow> Switch list \<Rightarrow> Switch list option" where
  "partition_loop nt nodeSelector tree queue switches =
     (case queue of
        [] \<Rightarrow> Some switches
      | switchID # queue \<Rightarrow>
          (case map_of tree switchID of
             None \<Rightarrow> partition_loop nt nodeSelector tree queue switches
           | Some connects \<Rightarrow>
               partition_loop nt nodeSelector tree (queue @ connects)
                 (switches @
                  (if length switchID \<noteq> 0
                   then (case map_of (nt_vertices nt) switchID of
                           None \<Rightarrow> []
                         | Some v \<Rightarrow> (case partition_switch nodeSelector v connects of Some sw \<Rightarrow> [sw] | None \<Rightarrow> []))
                   else []))))"

declare partition_loop.simps [code]

definition node_ids :: "(string, nodeInfo) gomap \<Rightarrow> string list \<Rightarrow> string list res" where
  "node_ids infos nodeNames =
     fold_sum (\<lambda>nodeName ids. case map_of infos nodeName of
                 None \<Rightarrow> Inl (''missing instance ID for node '' @ quote nodeName)
               | Some info \<Rightarrow> Inr (ids @ [ni_instanceID info]))
       nodeNames []"

definition getTreeTopologyUnit :: "NetworkTopology \<Rightarrow> string \<Rightarrow> TopologySpec \<Rightarrow> TopologyUnit res option" where
  "getTreeTopologyUnit nt topoName topoSpec =
     (let nodeNames = Expand (spec_Nodes topoSpec)
      in case node_ids (nt_nodeInfo nt) nodeNames of
           Inl err \<Rightarrow> Some (Inl err)
         | Inr nodeIDs \<Rightarrow>
             (case getPartitionTree (nt_tree nt) nodeIDs of
                None \<Rightarrow> None
              | Some tree \<Rightarrow>
                  map_option
                    (\<lambda>switches. Inr \<lparr>tu_Name = topoName, tu_Default = spec_ClusterDefault topoSpec, tu_Flat = False,
                                     tu_Tree = Some switches, tu_Block = None\<rparr>)
                    (partition_loop nt (newSelector nodeNames) tree [[]] [])))"

definition topology_unit :: "NetworkTopology \<Rightarrow> string \<Rightarrow> TopologySpec \<Rightarrow> TopologyUnit http_res option" where
  "topology_unit nt topoName topoSpec =
     (if spec_Plugin topoSpec = TopologyTree
      then map_option (with_code StatusBadGateway) (getTreeTopologyUnit nt topoName topoSpec)
      else if spec_Plugin topoSpec = TopologyBlock
      then Some (Inr (getBlockTopologyUnit nt topoName topoSpec))
      else if spec_Plugin topoSpec = TopologyFlat
      then Some (Inr \<lparr>tu_Name = topoName, tu_Default = spec_ClusterDefault topoSpec, tu_Flat = True,
                      tu_Tree = None, tu_Block = None\<rparr>)
      else Some (Inl (NewError StatusBadRequest (''unsupported topology plugin '' @ quote (spec_Plugin topoSpec)))))"

fun topology_units :: "NetworkTopology \<Rightarrow> string list \<Rightarrow> TopologyUnit list http_res option" where
  "topology_units nt [] = Some (Inr [])"
| "topology_units nt (topoName # names) =
     (case map_of (cfg_Topologies (nt_config nt)) topoName of
        None \<Rightarrow> topology_units nt names
      | Some topoSpec \<Rightarrow>
          (case topology_unit nt topoName topoSpec of
             None \<Rightarrow> None
           | Some (Inl err) \<Rightarrow> Some (Inl err)
           | Some (Inr tu) \<Rightarrow> map_option (\<lambda>r. bind_sum r (\<lambda>tus. Inr (tu # tus))) (topology_units nt names)))"

definition toYamlTopology ::
  "(TopologyUnit list \<Rightarrow> string res) \<Rightarrow> 'w writer \<Rightarrow> NetworkTopology \<Rightarrow> 'w \<Rightarrow> 'w http_res option" where
  "toYamlTopology marshal wr nt w =
     map_option
       (\<lambda>r. bind_sum r
          (\<lambda>topologies. bind_sum (with_code StatusInternalServerError (marshal (sort_key tu_Name topologies)))
             (\<lambda>data. with_code StatusInternalServerError (wr data w))))
       (topology_units nt (sort (mkeys (cfg_Topologies (nt_config nt)))))"

section \<open>Generate\<close>

definition writeHeader :: "'w writer \<Rightarrow> NetworkTopology \<Rightarrow> 'w \<Rightarrow> 'w res" where
  "writeHeader wr nt w =
     (case map_of (nt_metadata nt) ''generated_at'' of
        Some v \<Rightarrow> if length v \<noteq> 0 then wr (''# generated_at: '' @ v @ newline) w else Inr w
      | None \<Rightarrow> Inr w)"

definition Generate ::
  "(TopologyUnit list \<Rightarrow> string res) \<Rightarrow> 'w writer \<Rightarrow> NetworkTopology \<Rightarrow> 'w \<Rightarrow> 'w http_res option" where
  "Generate marshal wr nt w =
     (case with_code StatusInternalServerError (writeHeader wr nt w) of
        Inl err \<Rightarrow> Some (Inl err)
      | Inr w \<Rightarrow>
          if length (cfg_Topologies (nt_config nt)) \<noteq> 0 then toYamlTopology marshal wr nt w
          else if cfg_Plugin (nt_config nt) = TopologyBlock then Some (toBlockTopology wr nt w)
          else toTreeTopology wr nt w)"

section \<open>The tree format is a breadth-first walk\<close>

text \<open>The lines of one vertex, and the order of the walk over the tree itself.\<close>

definition vertex_lines :: "vertex \<Rightarrow> string list" where
  "vertex_lines v =
     (let kids = mvals (Vertices v);
          nodes = map (\<lambda>w. Name w) (filter (\<lambda>w. Vertices w = []) kids);
          switches = map (\<lambda>w. if Name w \<noteq> [] then Name w else ID w) (filter (\<lambda>w. Vertices w \<noteq> []) kids);
          head = (if Name v = [] then ''SwitchName='' @ ID v
                  else ''# '' @ Name v @ ''='' @ ID v @ newline @ ''SwitchName='' @ Name v)
      in if ID v = [] then []
         else (if switches \<noteq> [] then [head @ '' Switches='' @ join '','' (Compact switches) @ newline] else []) @
              (if nodes \<noteq> [] then [head @ '' Nodes='' @ join '','' (Compact nodes) @ newline] else []))"

definition sorted_kids :: "vertex \<Rightarrow> vertex list" where
  "sorted_kids v = map snd (sort_key fst (Vertices v))"

lemma sorted_kids_mset: "mset (sorted_kids v) = mset (mvals (Vertices v))"
  by (simp add: sorted_kids_def)

lemma sorted_kids_size: "sum_list (map vsize (sorted_kids v)) < vsize v"
proof -
  have "sum_list (map vsize (sorted_kids v)) = sum_list (map vsize (mvals (Vertices v)))"
    using sorted_kids_mset [of v] by (metis mset_map sum_mset_sum_list)
  then show ?thesis using vsize_children [of v] by simp
qed

function bfs :: "vertex list \<Rightarrow> vertex list" where
  "bfs [] = []"
| "bfs (v # queue) = v # bfs (queue @ sorted_kids v)"
  by pat_completeness auto
termination
  using sorted_kids_size by (relation "measure (\<lambda>queue. sum_list (map vsize queue))") simp_all

declare bfs.simps [simp del]

lemma writeVertex_lines: "writeVertex wr v w = fold_sum wr (vertex_lines v) w"
proof -
  define switches where "switches = map (\<lambda>w. if Name w \<noteq> [] then Name w else ID w)
    (filter (\<lambda>w. Vertices w \<noteq> []) (mvals (Vertices v)))"
  define nodes where "nodes = map (\<lambda>w. Name w) (filter (\<lambda>w. Vertices w = []) (mvals (Vertices v)))"
  show ?thesis
    unfolding writeVertex_def vertex_lines_def Let_def length_0_conv
      switches_def [symmetric] nodes_def [symmetric]
    by (cases "ID v = []"; cases "Name v = []"; cases "switches = []"; cases "nodes = []")
      (simp_all add: fold_sum_one fold_sum_two del: fold_sum.simps(2))
qed

lemma all_subs_bfs: "set (all_subs (v # queue)) = insert v (set (all_subs (queue @ sorted_kids v)))"
proof -
  have "set (all_subs (queue @ sorted_kids v)) = set (all_subs (queue @ mvals (Vertices v)))"
    using arg_cong [OF sorted_kids_mset [of v], of set_mset] by (simp add: all_subs_def)
  then show ?thesis by (simp only: all_subs_Cons_set)
qed

lemma bfs_set: "set (bfs queue) = set (all_subs queue)"
  by (induction queue rule: bfs.induct) (simp_all add: bfs.simps all_subs_bfs del: set_append, simp add: all_subs_def)

lemma tree_loop_bfs:
  assumes "\<forall>v \<in> set (all_subs queue).
      map_of (nt_vertices nt) (ID v) = Some v \<and> map_of (nt_tree nt) (ID v) = Some (sort (mkeys (Vertices v))) \<and>
      (\<forall>(k, w) \<in> set (Vertices v). k = ID w)"
  shows "tree_loop wr nt (map (\<lambda>v. ID v) queue) w =
    Some (with_code StatusInternalServerError (fold_sum (writeVertex wr) (bfs queue) w))"
  using assms
proof (induction queue arbitrary: w rule: bfs.induct)
  case 1
  then show ?case by (subst tree_loop.simps) (simp add: bfs.simps)
next
  case (2 v queue)
  have v: "map_of (nt_vertices nt) (ID v) = Some v" "map_of (nt_tree nt) (ID v) = Some (sort (mkeys (Vertices v)))"
    "\<forall>(k, w) \<in> set (Vertices v). k = ID w"
    using 2(2) unfolding all_subs_bfs by blast+
  have "sort (mkeys (Vertices v)) = map fst (sort_key fst (Vertices v))" by (simp add: map_sort_key)
  also have "\<dots> = map (\<lambda>w. ID w) (sorted_kids v)" using v(3) by (auto simp: sorted_kids_def)
  finally have kids: "mget0 [] (nt_tree nt) (ID v) = map (\<lambda>w. ID w) (sorted_kids v)" by (simp add: mget0_def v(2))
  have rest: "\<forall>v \<in> set (all_subs (queue @ sorted_kids v)).
      map_of (nt_vertices nt) (ID v) = Some v \<and> map_of (nt_tree nt) (ID v) = Some (sort (mkeys (Vertices v))) \<and>
      (\<forall>(k, w) \<in> set (Vertices v). k = ID w)"
    using 2(2) unfolding all_subs_bfs by blast
  show ?case
    using 2(1) [OF rest]
    by (subst tree_loop.simps) (simp add: v(1) kids bfs.simps split: sum.split)
qed

context go_writer
begin

lemma writeVertex_appends:
  "writeVertex wr v w = Inr w' \<Longrightarrow> contents w' = contents w @ concat (vertex_lines v)"
  unfolding writeVertex_lines using write_all_appends [of "\<lambda>x. x" "vertex_lines v" w w'] by simp

lemma writeVertices_appends:
  "fold_sum (writeVertex wr) vs w = Inr w' \<Longrightarrow> contents w' = contents w @ concat (map (\<lambda>v. concat (vertex_lines v)) vs)"
  by (induction vs arbitrary: w) (auto simp: writeVertex_appends split: sum.splits)

end

lemma buf_writeVertices: "fold_sum (writeVertex buf_write) vs w = Inr (w @ concat (map (\<lambda>v. concat (vertex_lines v)) vs))"
proof -
  have "fold_sum buf_write xs w = Inr (fold (\<lambda>s w. w @ s) xs w)" for xs w
    by (induction xs arbitrary: w) (simp_all add: buf_write_eq)
  then have "\<exists>w'. fold_sum (writeVertex buf_write) vs w = Inr w'"
    by (induction vs arbitrary: w) (auto simp: writeVertex_lines)
  then show ?thesis using buf.writeVertices_appends by blast
qed

lemma NewNetworkTopology_entries:
  assumes "NewNetworkTopology root cfg = Inr nt" and "map_of (Vertices root) TopologyTree = Some tree"
    and "unique_ids [tree]" and "v \<in> set (subs tree)"
  shows "map_of (nt_vertices nt) (ID v) = Some v" and "map_of (nt_tree nt) (ID v) = Some (sort (mkeys (Vertices v)))"
    and "nt_config nt = cfg" and "nt_metadata nt = Metadata root"
proof -
  let ?e = "empty_topology cfg (Metadata root)"
  have nt: "nt = initBlocks root (initTree root ?e)"
    using assms(1) by (simp add: NewNetworkTopology_def split: option.splits)
  have "nt_tree ?e = []" by (simp add: empty_topology_def)
  from initTree_entries [OF assms(2,3) this assms(4)] show "map_of (nt_vertices nt) (ID v) = Some v"
    and "map_of (nt_tree nt) (ID v) = Some (sort (mkeys (Vertices v)))"
    by (simp_all add: nt)
  show "nt_config nt = cfg" "nt_metadata nt = Metadata root" by (simp_all add: nt empty_topology_def)
qed

section \<open>Block sizes\<close>

lemma log2_floor_le: "0 < n \<Longrightarrow> 2 ^ log2_floor n \<le> n"
proof (induction n rule: log2_floor.induct)
  case (1 n)
  then show ?case by (subst log2_floor.simps) auto
qed

lemma log2_int_bound:
  assumes "0 < n" and "0 \<le> l" and "l \<le> log2_int n"
  shows "(2 :: int) ^ nat l \<le> int n"
proof -
  have "nat l \<le> log2_floor n" using assms by (simp add: log2_int_def)
  then have "(2 :: nat) ^ nat l \<le> 2 ^ log2_floor n" by (rule power_increasing) simp
  also have "\<dots> \<le> n" using assms(1) by (rule log2_floor_le)
  finally have "(2 :: nat) ^ nat l \<le> n" .
  then show ?thesis by (metis of_nat_le_iff of_nat_numeral of_nat_power)
qed

definition total_nodes :: "blockInfo list \<Rightarrow> int" where
  "total_nodes blocks = sum_list (map (\<lambda>b. int (length (bi_nodes b))) blocks)"

lemma min_size_loop_spec:
  assumes "0 \<le> m"
  shows "0 \<le> min_size_loop m bs \<and> min_size_loop m bs \<le> m \<and>
    (\<forall>b \<in> set bs. min_size_loop m bs \<le> int (length (bi_nodes b))) \<and>
    (min_size_loop m bs = m \<or> (\<exists>b \<in> set bs. min_size_loop m bs = int (length (bi_nodes b))))"
  using assms
proof (induction bs arbitrary: m)
  case (Cons b bs)
  let ?m = "if m = - 1 \<or> m > int (length (bi_nodes b)) then int (length (bi_nodes b)) else m"
  have m: "0 \<le> ?m" "?m \<le> m" "?m \<le> int (length (bi_nodes b))" "?m = m \<or> ?m = int (length (bi_nodes b))"
    using Cons.prems by auto
  have step: "min_size_loop m (b # bs) = min_size_loop ?m bs" by (simp add: Let_def)
  note IH = Cons.IH [OF m(1)]
  show ?case unfolding step
  proof (intro conjI ballI)
    show "min_size_loop ?m bs \<le> int (length (bi_nodes c))" if "c \<in> set (b # bs)" for c
    proof (cases "c = b")
      case True
      have "min_size_loop ?m bs \<le> ?m" using IH by blast
      then show ?thesis unfolding True using m(3) by (rule order_trans)
    next
      case False
      then have "c \<in> set bs" using that by simp
      then show ?thesis using IH by blast
    qed
    show "min_size_loop ?m bs = m \<or> (\<exists>c \<in> set (b # bs). min_size_loop ?m bs = int (length (bi_nodes c)))"
    proof -
      from IH consider "min_size_loop ?m bs = ?m" | c where "c \<in> set bs" "min_size_loop ?m bs = int (length (bi_nodes c))"
        by blast
      then show ?thesis
      proof cases
        case 1
        then show ?thesis using m(4) by auto
      next
        case 2
        then show ?thesis by auto
      qed
    qed
  qed (use IH m(2) in linarith)+
qed simp

lemma findMinDomainSize_spec:
  assumes "blocks \<noteq> []"
  shows "(\<forall>b \<in> set blocks. findMinDomainSize blocks \<le> int (length (bi_nodes b))) \<and>
    (\<exists>b \<in> set blocks. findMinDomainSize blocks = int (length (bi_nodes b)))"
proof -
  obtain b bs where "blocks = b # bs" using assms by (cases blocks) auto
  then show ?thesis
    using min_size_loop_spec [of "int (length (bi_nodes b))" bs] by (auto simp: findMinDomainSize_def Let_def)
qed

lemma min_times_blocks: "blocks \<noteq> [] \<Longrightarrow> findMinDomainSize blocks * int (length blocks) \<le> total_nodes blocks"
proof -
  assume ne: "blocks \<noteq> []"
  have "(\<forall>b \<in> set bs. m \<le> int (length (bi_nodes b))) \<Longrightarrow> m * int (length bs) \<le> total_nodes bs" for m bs
    by (induction bs) (auto simp: total_nodes_def algebra_simps)
  then show ?thesis using findMinDomainSize_spec [OF ne] by blast
qed

text \<open>A size of a level up to the logarithm of the number of blocks fits into the blocks.\<close>

lemma level_size_feasible:
  assumes "blocks \<noteq> []" and "0 < base" and "base \<le> findMinDomainSize blocks" and "total_nodes blocks \<le> max_int64"
    and "0 \<le> l" and "l \<le> log2_int (length blocks)"
  shows "level_size base l = 2 ^ nat l * base \<and> 0 < level_size base l \<and> level_size base l \<le> total_nodes blocks"
proof -
  have "(2 :: int) ^ nat l \<le> int (length blocks)" using assms by (intro log2_int_bound) auto
  then have "2 ^ nat l * base \<le> int (length blocks) * findMinDomainSize blocks"
    using assms(2,3) by (intro mult_mono) auto
  also have "\<dots> \<le> total_nodes blocks" using min_times_blocks [OF assms(1)] by (simp add: mult.commute)
  finally have le: "2 ^ nat l * base \<le> total_nodes blocks" .
  have pos: "0 < 2 ^ nat l * base" using assms(2) by simp
  then have "level_size base l = 2 ^ nat l * base"
    unfolding level_size_def using le assms(4) by (intro wrap64_id) (auto simp: min_int64_def)
  then show ?thesis using le pos by simp
qed

lemma upto_int: "[0..int n] = map int [0..<Suc n]"
  by (induction n) (simp_all add: upto_rec2)

lemma takeWhile_full: "length (takeWhile P xs) = length xs \<Longrightarrow> takeWhile P xs = xs \<and> list_all P xs"
  by (metis takeWhile_eq_take take_all_iff order_refl list_all_iff set_takeWhileD)

lemma getBlockSize_cases:
  fixes blocks req useFake
  defines "m \<equiv> if useFake \<and> req \<noteq> [] then hd req else findMinDomainSize blocks"
    and "n \<equiv> log2_int (length blocks)"
  shows "(getBlockSize blocks req useFake = req \<and> req \<noteq> [] \<and> 0 < hd req \<and> hd req \<le> m \<and>
      (\<forall>bs \<in> set req. \<exists>l \<in> {0..n}. bs = level_size (hd req) l)) \<or>
    getBlockSize blocks req useFake = m # map (level_size m) [1..n]"
proof (cases "req \<noteq> [] \<and> length (accepted_sizes req m n) = length req")
  case True
  then obtain c cs where req: "req = c # cs" by (cases req) auto
  then have c: "0 < c" "c \<le> m" and full: "length (takeWhile (\<lambda>bs. bs \<in> set (map (level_size c) [0..n])) req) = length req"
    using True by (auto simp: accepted_sizes_def split: if_splits)
  have all: "\<forall>bs \<in> set req. \<exists>l \<in> {0..n}. bs = level_size c l"
  proof -
    have "list_all (\<lambda>bs. bs \<in> set (map (level_size c) [0..n])) req" using takeWhile_full [OF full] by blast
    then show ?thesis unfolding list_all_iff by auto
  qed
  have "accepted_sizes req m n = takeWhile (\<lambda>bs. bs \<in> set (map (level_size c) [0..n])) req"
    using c by (simp add: accepted_sizes_def req)
  then have "accepted_sizes req m n = req" using takeWhile_full [OF full] by simp
  then have "getBlockSize blocks req useFake = req"
    using True by (simp add: getBlockSize_def m_def n_def Let_def)
  then show ?thesis using c all req by simp
next
  case False
  then show ?thesis by (auto simp: getBlockSize_def m_def n_def Let_def)
qed

section \<open>Required nodes of a partition\<close>

text \<open>The edges of the adjacency list.\<close>

definition tree_edges :: "(string, string list) gomap \<Rightarrow> (string \<times> string) set" where
  "tree_edges tree = {(i, j). j \<in> set (mget0 [] tree i)}"

definition leads_to :: "(string, string list) gomap \<Rightarrow> selector \<Rightarrow> string \<Rightarrow> bool" where
  "leads_to tree lvs i \<longleftrightarrow> (\<exists>l \<in> set lvs. (i, l) \<in> (tree_edges tree)\<^sup>*)"

lemma leads_to_unfold:
  "leads_to tree lvs i \<longleftrightarrow> i \<in> set lvs \<or> (\<exists>j \<in> set (mget0 [] tree i). leads_to tree lvs j)"
proof
  assume "leads_to tree lvs i"
  then obtain l where l: "l \<in> set lvs" "(i, l) \<in> (tree_edges tree)\<^sup>*" by (auto simp: leads_to_def)
  from l(2) show "i \<in> set lvs \<or> (\<exists>j \<in> set (mget0 [] tree i). leads_to tree lvs j)"
    by (cases rule: converse_rtranclE) (use l(1) in \<open>auto simp: leads_to_def tree_edges_def\<close>)
next
  assume "i \<in> set lvs \<or> (\<exists>j \<in> set (mget0 [] tree i). leads_to tree lvs j)"
  then show "leads_to tree lvs i"
    unfolding leads_to_def
    by (auto simp: tree_edges_def intro: converse_rtrancl_into_rtrancl)
qed

text \<open>The IDs reachable from \<open>i\<close> that lead to a leaf.\<close>

definition on_path :: "(string, string list) gomap \<Rightarrow> selector \<Rightarrow> string \<Rightarrow> string set" where
  "on_path tree lvs i = {j. (i, j) \<in> (tree_edges tree)\<^sup>* \<and> leads_to tree lvs j}"

lemma on_path_unfold:
  "on_path tree lvs i = (if leads_to tree lvs i then {i} else {}) \<union> (\<Union>j \<in> set (mget0 [] tree i). on_path tree lvs j)"
proof -
  have "(i, j) \<in> (tree_edges tree)\<^sup>* \<longleftrightarrow> i = j \<or> (\<exists>k \<in> set (mget0 [] tree i). (k, j) \<in> (tree_edges tree)\<^sup>*)" for j
    by (auto simp: tree_edges_def elim: converse_rtranclE intro: converse_rtrancl_into_rtrancl)
  then show ?thesis by (auto simp: on_path_def)
qed

text \<open>The loop over the children, with any recursive call that answers as specified.\<close>

lemma dfs_children:
  assumes "\<And>child required k r. child \<in> set cs \<Longrightarrow> rec child required = Some (k, r) \<Longrightarrow>
      k = leads_to tree lvs child \<and> set r = set required \<union> on_path tree lvs child"
    and "fold (\<lambda>child s. case s of None \<Rightarrow> None
           | Some (keep, required) \<Rightarrow> map_option (\<lambda>(k, required). (k \<or> keep, required)) (rec child required))
          cs s0 = Some (keep, r)"
  shows "\<exists>keep0 required. s0 = Some (keep0, required) \<and>
    keep = (keep0 \<or> (\<exists>c \<in> set cs. leads_to tree lvs c)) \<and> set r = set required \<union> (\<Union>c \<in> set cs. on_path tree lvs c)"
  using assms
proof (induction cs arbitrary: s0)
  case Nil
  then show ?case by simp
next
  case (Cons c cs)
  let ?f = "\<lambda>child s. case s of None \<Rightarrow> None
    | Some (keep, required) \<Rightarrow> map_option (\<lambda>(k, required). (k \<or> keep, required)) (rec child required)"
  have "fold ?f cs (?f c s0) = Some (keep, r)" using Cons.prems(2) by simp
  from Cons.IH [OF _ this] Cons.prems(1) obtain keep1 r1 where s1: "?f c s0 = Some (keep1, r1)"
    and out: "keep = (keep1 \<or> (\<exists>c \<in> set cs. leads_to tree lvs c))" "set r = set r1 \<union> (\<Union>c \<in> set cs. on_path tree lvs c)"
    by auto
  from s1 obtain keep0 required k where s0: "s0 = Some (keep0, required)" "rec c required = Some (k, r1)" "keep1 = (k \<or> keep0)"
    by (auto split: option.splits)
  have "k = leads_to tree lvs c \<and> set r1 = set required \<union> on_path tree lvs c"
    using Cons.prems(1) [OF _ s0(2)] by simp
  then show ?case using s0 out by auto
qed

lemma dfs_spec:
  "dfs f tree lvs node required = Some (keep, r) \<Longrightarrow>
    keep = leads_to tree lvs node \<and> set r = set required \<union> on_path tree lvs node"
proof (induction f arbitrary: node required keep r)
  case (Suc f)
  then obtain r0 where loop: "fold (\<lambda>child s. case s of None \<Rightarrow> None
           | Some (keep, required) \<Rightarrow> map_option (\<lambda>(k, required). (k \<or> keep, required)) (dfs f tree lvs child required))
          (mget0 [] tree node) (Some (node \<in> set lvs, required)) = Some (keep, r0)"
    and r: "r = (if keep then node # r0 else r0)"
    by auto
  from dfs_children [OF _ loop, of tree lvs] Suc.IH
  have "keep = (node \<in> set lvs \<or> (\<exists>c \<in> set (mget0 [] tree node). leads_to tree lvs c))"
    and "set r0 = set required \<union> (\<Union>c \<in> set (mget0 [] tree node). on_path tree lvs c)"
    by auto
  then show ?case using r leads_to_unfold [of tree lvs node] on_path_unfold [of tree lvs node] by auto
qed simp

text \<open>On the adjacency list of a tree the recursion is no deeper than the tree is high.\<close>

lemma dfs_returns:
  assumes "\<forall>u \<in> set (subs v). map_of tree (ID u) = Some (sort (mkeys (Vertices u))) \<and> (\<forall>(k, w) \<in> set (Vertices u). k = ID w)"
    and "height v \<le> f"
  shows "dfs f tree lvs (ID v) required \<noteq> None"
  using assms
proof (induction f arbitrary: v required)
  case 0
  then show ?case using height_pos [of v] by simp
next
  case (Suc f)
  have here: "map_of tree (ID v) = Some (sort (mkeys (Vertices v)))" "\<forall>(k, w) \<in> set (Vertices v). k = ID w"
    using Suc.prems(1) subs_self by blast+
  have child: "dfs f tree lvs c r \<noteq> None" if c: "c \<in> set (mget0 [] tree (ID v))" for c r
  proof -
    obtain w where w: "(c, w) \<in> set (Vertices v)" using c by (auto simp: mget0_def here(1))
    then have "c = ID w" using here(2) by auto
    moreover have "height w \<le> f" using height_child [OF w] Suc.prems(2) by simp
    moreover have "set (subs w) \<subseteq> set (subs v)"
      using w by (force simp: subs_unfold [of v])
    ultimately show ?thesis using Suc.IH [of w r] Suc.prems(1) by blast
  qed
  have "fold (\<lambda>child s. case s of None \<Rightarrow> None
           | Some (keep, required) \<Rightarrow> map_option (\<lambda>(k, required). (k \<or> keep, required)) (dfs f tree lvs child required))
          cs (Some s) \<noteq> None" if "set cs \<subseteq> set (mget0 [] tree (ID v))" for cs s
    using that
  proof (induction cs arbitrary: s)
    case (Cons c cs)
    obtain keep r where s: "s = (keep, r)" by (cases s)
    obtain k r' where "dfs f tree lvs c r = Some (k, r')" using child [of c r] Cons.prems by auto
    then show ?case using Cons.IH [of "(k \<or> keep, r')"] Cons.prems by (simp add: s)
  qed simp
  then show ?case by simp
qed

text \<open>The pruned adjacency list.\<close>

lemma append_filtered:
  "map_of (fold (\<lambda>child t. if child \<in> R then mput p (mget0 [] t p @ [child]) t else t) cs t) i =
    (if i = p \<and> filter (\<lambda>c. c \<in> R) cs \<noteq> [] then Some (mget0 [] t p @ filter (\<lambda>c. c \<in> R) cs) else map_of t i)"
  by (induction cs arbitrary: t) (auto simp: update_conv' mget0_def)

lemma buildSubTree_lookup:
  assumes "distinct (mkeys tree)"
  shows "map_of (buildSubTree tree required) i =
    (let cs = filter (\<lambda>c. c \<in> set required) (mget0 [] tree i)
     in if i \<in> set required \<and> cs \<noteq> [] then Some cs else None)"
proof -
  let ?step = "\<lambda>(parent, children) subtree.
             if parent \<in> set required
             then fold (\<lambda>child subtree. if child \<in> set required
                          then mput parent (mget0 [] subtree parent @ [child]) subtree else subtree)
                    children subtree
             else subtree"
  have "map_of (fold ?step tr t) i =
      (let cs = filter (\<lambda>c. c \<in> set required) (mget0 [] tr i)
       in if i \<in> set required \<and> cs \<noteq> [] then Some cs else map_of t i)"
    if "distinct (mkeys tr)" "\<And>k. k \<in> set (mkeys tr) \<Longrightarrow> map_of t k = None" for tr t
    using that
  proof (induction tr arbitrary: t)
    case Nil
    then show ?case by (simp add: mget0_def)
  next
    case (Cons pc tr)
    obtain p cs where pc: "pc = (p, cs)" by (cases pc)
    let ?t = "?step (p, cs) t"
    have look: "map_of ?t j = (if j = p \<and> p \<in> set required \<and> filter (\<lambda>c. c \<in> set required) cs \<noteq> []
        then Some (filter (\<lambda>c. c \<in> set required) cs) else map_of t j)" for j
      using Cons.prems(2) [of p] by (simp add: append_filtered mget0_def pc)
    have "p \<notin> set (mkeys tr)" using Cons.prems(1) by (simp add: pc)
    then have "mget0 [] tr p = []" by (simp add: mget0_def map_of_eq_None_iff [symmetric] del: set_map split: option.split)
      (metis map_of_eq_None_iff option.distinct(1) set_map)
    moreover have "map_of (fold ?step tr ?t) i =
        (let cs = filter (\<lambda>c. c \<in> set required) (mget0 [] tr i)
         in if i \<in> set required \<and> cs \<noteq> [] then Some cs else map_of ?t i)"
      using Cons.prems \<open>p \<notin> set (mkeys tr)\<close>
      by (intro Cons.IH) (auto simp: pc look [unfolded prod.case] simp del: set_map)
    ultimately show ?case unfolding pc fold_Cons comp_def look by (auto simp: mget0_def Let_def)
  qed
  from this [OF assms, of "[]"] show ?thesis by (simp add: buildSubTree_def Let_def)
qed

lemma NewNetworkTopology_distinct:
  "NewNetworkTopology root cfg = Inr nt \<Longrightarrow> distinct (mkeys (nt_tree nt))"
proof -
  have entries: "distinct (mkeys t) \<Longrightarrow> distinct (mkeys (fold (\<lambda>i t. mput k (mget0 [] t k @ [i]) t) ks t))"
    for k ks and t :: "(string, string list) gomap"
    by (induction ks arbitrary: t) (simp_all add: distinct_update)
  have step: "distinct (mkeys (nt_tree nt)) \<Longrightarrow> distinct (mkeys (nt_tree (init_tree_step v nt)))" for v nt
    by (auto simp: init_tree_step_def Let_def entries distinct_update)
  have loop: "distinct (mkeys (nt_tree nt)) \<Longrightarrow> distinct (mkeys (nt_tree (init_tree_loop q nt)))" for q nt
    by (induction q nt rule: init_tree_loop.induct) (simp_all add: init_tree_loop.simps step)
  have "distinct (mkeys (nt_tree nt)) \<Longrightarrow> distinct (mkeys (nt_tree (initTree root nt)))" for nt
    using loop by (auto simp: initTree_def Let_def comp_def case_prod_unfold split: option.split)
  then show "NewNetworkTopology root cfg = Inr nt \<Longrightarrow> ?thesis"
    by (auto simp: NewNetworkTopology_def empty_topology_def split: option.splits)
qed

text \<open>A tree with distinct IDs is no higher than its adjacency list is long.\<close>

lemma height_subs: "height v \<le> length (subs v)"
proof (induction v rule: height.induct)
  case (1 n i cs m)
  have "foldr (\<lambda>(k, v). max (height v)) xs 0 \<le> length (concat (map (\<lambda>(k, w). subs w) xs))" if "set xs \<subseteq> set cs" for xs
    using that
  proof (induction xs)
    case (Cons x xs)
    obtain k w where x: "x = (k, w)" by (cases x)
    have "(k, w) \<in> set cs" "set xs \<subseteq> set cs" using Cons.prems x by auto
    moreover from 1 [OF this(1) refl] have "height w \<le> length (subs w)" .
    ultimately show ?case using Cons.IH by (simp add: x del: height.simps subs.simps)
  qed simp
  from this [of cs] show ?case by simp
qed

lemma findRequiredNodes_returns:
  assumes "NewNetworkTopology root cfg = Inr nt" and "map_of (Vertices root) TopologyTree = Some tree"
    and "unique_ids [tree]" and "keyed [tree]" and "ID tree = []"
  shows "findRequiredNodes (nt_tree nt) lvs \<noteq> None"
proof -
  note entries = NewNetworkTopology_entries [OF assms(1-3)]
  have "height tree \<le> length (subs tree)" by (rule height_subs)
  also have "\<dots> = card ((\<lambda>v. ID v) ` set (subs tree))"
  proof -
    have "distinct (map (\<lambda>v. ID v) (subs tree))" using assms(3) by (simp add: unique_ids_def all_subs_def)
    then have "card (set (map (\<lambda>v. ID v) (subs tree))) = length (map (\<lambda>v. ID v) (subs tree))"
      by (rule distinct_card)
    then show ?thesis by simp
  qed
  also have "\<dots> \<le> card (set (mkeys (nt_tree nt)))"
  proof (rule card_mono)
    show "(\<lambda>v. ID v) ` set (subs tree) \<subseteq> set (mkeys (nt_tree nt))"
      using entries(2) set_fst_map_of [of _ "nt_tree nt"] by fastforce
  qed simp
  also have "\<dots> \<le> length (nt_tree nt)" by (metis card_length length_map)
  finally have "height tree \<le> Suc (Suc (length (nt_tree nt)))" by simp
  moreover have "\<forall>u \<in> set (subs tree). map_of (nt_tree nt) (ID u) = Some (sort (mkeys (Vertices u))) \<and>
      (\<forall>(k, w) \<in> set (Vertices u). k = ID w)"
    using entries(2) assms(4) unfolding keyed_def by (simp add: all_subs_def)
  ultimately have "dfs (Suc (Suc (length (nt_tree nt)))) (nt_tree nt) lvs (ID tree) [] \<noteq> None"
    by (intro dfs_returns)
  then show ?thesis by (simp add: findRequiredNodes_def assms(5) del: dfs.simps)
qed

section \<open>Padding with fake nodes\<close>

text \<open>The line of a block whose fake nodes are \<open>fakes\<close>.\<close>

definition block_line :: "blockInfo \<Rightarrow> string list \<Rightarrow> string" where
  "block_line b fakes =
     (if bi_name b \<noteq> [] then ''# '' @ bi_id b @ ''='' @ bi_name b @ newline else []) @
     ''BlockName='' @ bi_id b @ '' Nodes='' @ join '','' (Compact (bi_nodes b)) @
     (if fakes = [] then [] else '','' @ join '','' (Compact fakes)) @ newline"

lemma write_block_plain: "write_block buf_write b (None, w) = Inr (None, w @ block_line b [])"
  by (simp add: write_block_def block_names_def block_line_def buf_write_eq)

lemma write_block_fake:
  assumes "write_block buf_write b (Some f, w) = Inr (s, w')" and "0 \<le> fnc_index f" and "fnc_index f \<le> int (length (fnc_nodes f))"
  defines "n \<equiv> nat (fnc_baseBlockSize f - int (length (bi_nodes b)))"
  shows "s = Some (f\<lparr>fnc_index := fnc_index f + int n\<rparr>) \<and> fnc_index f + int n \<le> int (length (fnc_nodes f)) \<and>
    w' = w @ block_line b (take n (drop (nat (fnc_index f)) (fnc_nodes f)))"
proof (cases "int (length (bi_nodes b)) < fnc_baseBlockSize f")
  case False
  then show ?thesis using assms by (auto simp: write_block_def block_names_def block_line_def buf_write_eq)
next
  case True
  then have pos: "0 < n" and int_n: "fnc_baseBlockSize f - int (length (bi_nodes b)) = int n" by (simp_all add: n_def)
  have fits: "fnc_index f + int n \<le> int (length (fnc_nodes f))"
    using assms(1) True by (auto simp: write_block_def block_names_def getFreeFakeNodes_def Let_def int_n buf_write_eq split: if_splits)
  then have "take n (drop (nat (fnc_index f)) (fnc_nodes f)) \<noteq> []" using pos assms(2) by simp
  then show ?thesis
    using assms(1) True fits
    by (simp add: write_block_def block_names_def getFreeFakeNodes_def Let_def int_n block_line_def buf_write_eq slice_def)
qed

lemma take_drop_append: "take (n + m) xs = take n xs @ take m (drop n xs)"
  by (rule take_add)

lemma write_blocks_fake:
  assumes "fold_sum (write_block buf_write) bs (Some f, w) = Inr (s, w')" and "0 \<le> fnc_index f"
    and "fnc_index f \<le> int (length (fnc_nodes f))"
  shows "\<exists>fakes. length fakes = length bs \<and>
    (\<forall>i < length bs. length (fakes ! i) = nat (fnc_baseBlockSize f - int (length (bi_nodes (bs ! i))))) \<and>
    prefix (concat fakes) (drop (nat (fnc_index f)) (fnc_nodes f)) \<and>
    w' = w @ concat (map2 block_line bs fakes)"
  using assms
proof (induction bs arbitrary: f w)
  case Nil
  then show ?case by auto
next
  case (Cons b bs)
  let ?n = "nat (fnc_baseBlockSize f - int (length (bi_nodes b)))"
  let ?mine = "take ?n (drop (nat (fnc_index f)) (fnc_nodes f))"
  obtain s1 w1 where one: "write_block buf_write b (Some f, w) = Inr (s1, w1)"
    and rest: "fold_sum (write_block buf_write) bs (s1, w1) = Inr (s, w')"
    using Cons.prems(1) by (auto split: sum.splits)
  note step = write_block_fake [OF one Cons.prems(2,3)]
  let ?f = "f\<lparr>fnc_index := fnc_index f + int ?n\<rparr>"
  have "fold_sum (write_block buf_write) bs (Some ?f, w1) = Inr (s, w')" using rest step by simp
  from Cons.IH [OF this] Cons.prems(2) step obtain fakes where f: "length fakes = length bs"
    "\<forall>i < length bs. length (fakes ! i) = nat (fnc_baseBlockSize f - int (length (bi_nodes (bs ! i))))"
    "prefix (concat fakes) (drop (nat (fnc_index f + int ?n)) (fnc_nodes f))"
    "w' = w1 @ concat (map2 block_line bs fakes)"
    by auto
  have idx: "nat (fnc_index f + int ?n) = ?n + nat (fnc_index f)" using Cons.prems(2) by (simp add: nat_add_distrib)
  have "drop (nat (fnc_index f)) (fnc_nodes f) = ?mine @ drop (?n + nat (fnc_index f)) (fnc_nodes f)"
    by (metis append_take_drop_id drop_drop)
  then have "prefix (?mine @ concat fakes) (drop (nat (fnc_index f)) (fnc_nodes f))"
    using f(3) unfolding idx by (metis same_prefix_prefix)
  moreover have "length ?mine = ?n"
  proof -
    have "fnc_index f + int n \<le> int (length xs) \<Longrightarrow> length (take n (drop (nat (fnc_index f)) xs)) = n" for n and xs :: "string list"
      using Cons.prems(2) by simp
    then show ?thesis using step by blast
  qed
  ultimately show ?case
    using f(1,2,4) step
    by (intro exI [of _ "?mine # fakes"]) (auto simp: nth_Cons split: nat.split)
qed

section \<open>Properties\<close>

definition header_text :: "(string, string) gomap \<Rightarrow> string" where
  "header_text meta =
     (case map_of meta ''generated_at'' of
        Some v \<Rightarrow> if v \<noteq> [] then ''# generated_at: '' @ v @ newline else []
      | None \<Rightarrow> [])"

lemma writeHeader_buf: "writeHeader buf_write nt w = Inr (w @ header_text (nt_metadata nt))"
  by (simp add: writeHeader_def header_text_def buf_write_eq split: option.split)

lemma length_all_subs_mset: "mset vs = mset ws \<Longrightarrow> length (all_subs vs) = length (all_subs ws)"
proof -
  assume "mset vs = mset ws"
  then have "image_mset (length \<circ> subs) (mset vs) = image_mset (length \<circ> subs) (mset ws)" by (rule arg_cong)
  then have "mset (map (length \<circ> subs) vs) = mset (map (length \<circ> subs) ws)" unfolding mset_map .
  then show ?thesis
    unfolding all_subs_def length_concat map_map by (metis sum_mset_sum_list)
qed

lemma bfs_length: "length (bfs queue) = length (all_subs queue)"
proof (induction queue rule: bfs.induct)
  case (2 v queue)
  have "length (all_subs (queue @ sorted_kids v)) = length (all_subs (queue @ mvals (Vertices v)))"
    by (rule length_all_subs_mset) (simp add: sorted_kids_mset)
  moreover have "length (all_subs (v # queue)) = Suc (length (all_subs (queue @ mvals (Vertices v))))"
    using arg_cong [OF all_subs_Cons [of v queue], of size] by simp
  ultimately show ?case using 2 by (simp only: bfs.simps list.size) 
qed (simp add: bfs.simps all_subs_def)

text \<open>
  C11. The tree generator is correct on trees: for a graph whose tree has distinct IDs, children filed under
  their IDs and a root with an empty ID, \<open>Generate\<close> ends without an error and prints the header and then
  the lines of every vertex of the tree, each vertex once, in breadth-first order with siblings sorted by
  key. In particular its walk over IDs always ends and misses no vertex.
\<close>

theorem Generate_tree:
  assumes "NewNetworkTopology root cfg = Inr nt" and "cfg_Topologies cfg = []" and "cfg_Plugin cfg = TopologyTree"
    and "map_of (Vertices root) TopologyTree = Some tree"
    and "unique_ids [tree]" and "keyed [tree]" and "ID tree = []"
  shows "Generate marshal buf_write nt [] =
      Some (Inr (header_text (Metadata root) @ concat (map (\<lambda>v. concat (vertex_lines v)) (bfs [tree])))) \<and>
    set (bfs [tree]) = set (subs tree) \<and> length (bfs [tree]) = length (subs tree)"
proof -
  note entries = NewNetworkTopology_entries [OF assms(1,4,5)]
  have "\<forall>v \<in> set (all_subs [tree]).
      map_of (nt_vertices nt) (ID v) = Some v \<and> map_of (nt_tree nt) (ID v) = Some (sort (mkeys (Vertices v))) \<and>
      (\<forall>(k, w) \<in> set (Vertices v). k = ID w)"
    using entries(1,2) assms(6) unfolding keyed_def by (simp add: all_subs_def)
  from tree_loop_bfs [OF this, of buf_write] have walk:
    "toTreeTopology buf_write nt w = Some (Inr (w @ concat (map (\<lambda>v. concat (vertex_lines v)) (bfs [tree]))))" for w
    by (simp add: toTreeTopology_def assms(7) buf_writeVertices)
  have names: "TopologyTree \<noteq> TopologyBlock" by (simp add: TopologyTree_def TopologyBlock_def)
  have cfg: "nt_config nt = cfg" "nt_metadata nt = Metadata root"
    using entries(3,4) [of tree] by simp_all
  have "length (bfs queue) = length (all_subs queue)" for queue by (rule bfs_length)
  moreover have "all_subs [tree] = subs tree" by (simp add: all_subs_def)
  ultimately have "set (bfs [tree]) = set (subs tree)" "length (bfs [tree]) = length (subs tree)"
    using bfs_set [of "[tree]"] by simp_all
  moreover have "Generate marshal buf_write nt [] = toTreeTopology buf_write nt (header_text (Metadata root))"
    by (simp add: Generate_def writeHeader_buf assms(2,3) cfg names)
  ultimately show ?thesis using walk by simp
qed

definition tree_set :: vertex where
  "tree_set = fst (GetTreeTestSet False)"

definition tree_config :: Config where
  "tree_config = \<lparr>cfg_Plugin = TopologyTree, cfg_BlockSizes = [], cfg_FakeNodePool = [], cfg_Topologies = []\<rparr>"

theorem Generate_tree_witness:
  "\<exists>nt out. NewNetworkTopology tree_set tree_config = Inr nt \<and>
     Generate (\<lambda>_. Inl []) buf_write nt [] = Some (Inr out) \<and>
     out = ''SwitchName=S1 Switches=S[2-3]'' @ newline @
           ''SwitchName=S2 Nodes=Node[201-202,205]'' @ newline @ ''SwitchName=S3 Nodes=Node[304-306]'' @ newline"
proof -
  have "Validate tree_config tree_set = None" by code_simp
  then obtain nt where nt: "NewNetworkTopology tree_set tree_config = Inr nt"
    by (simp add: NewNetworkTopology_def)
  define tree where "tree = the (map_of (Vertices tree_set) TopologyTree)"
  have tree: "map_of (Vertices tree_set) TopologyTree = Some tree" "unique_ids [tree]" "keyed [tree]" "ID tree = []"
    and cfg: "cfg_Topologies tree_config = []" "cfg_Plugin tree_config = TopologyTree"
    unfolding tree_def by code_simp+
  have "header_text (Metadata tree_set) @ concat (map (\<lambda>v. concat (vertex_lines v)) (bfs [tree])) =
      ''SwitchName=S1 Switches=S[2-3]'' @ newline @
      ''SwitchName=S2 Nodes=Node[201-202,205]'' @ newline @ ''SwitchName=S3 Nodes=Node[304-306]'' @ newline"
    unfolding tree_def by code_simp
  then show ?thesis
    using nt Generate_tree [OF nt cfg tree, of "\<lambda>_. Inl []"] by auto
qed

text \<open>
  C13. Block sizes can be met: with at least one block, no empty block and fewer nodes than a 64-bit integer
  counts, and no fake nodes, the sizes are either the requested ones or the powers of two of the smallest
  block; each of them is a power of two times the first, positive, and at most the number of nodes there are.
\<close>

theorem getBlockSize_feasible:
  fixes blocks :: "blockInfo list" and req :: "int list"
  assumes "blocks \<noteq> []" and "\<forall>b \<in> set blocks. bi_nodes b \<noteq> []" and "total_nodes blocks \<le> max_int64"
  defines "sizes \<equiv> getBlockSize blocks req False"
  shows "sizes \<noteq> [] \<and>
    (sizes = req \<or> sizes = map (\<lambda>i. 2 ^ i * findMinDomainSize blocks) [0..<Suc (log2_floor (length blocks))]) \<and>
    (\<forall>s \<in> set sizes. 0 < s \<and> s \<le> total_nodes blocks \<and> (\<exists>i. s = 2 ^ i * hd sizes))"
proof -
  let ?m = "findMinDomainSize blocks" and ?n = "log2_int (length blocks)"
  obtain b where b: "b \<in> set blocks" "?m = int (length (bi_nodes b))"
    using findMinDomainSize_spec [OF assms(1)] by blast
  then have pos: "0 < ?m" using assms(2) by auto
  have feasible: "level_size base l = 2 ^ nat l * base \<and> 0 < level_size base l \<and> level_size base l \<le> total_nodes blocks"
    if "0 < base" "base \<le> ?m" "l \<in> {0..?n}" for base l
    using that by (intro level_size_feasible [OF assms(1) _ _ assms(3)]) auto
  from getBlockSize_cases [of blocks req False] consider
    "sizes = req" "req \<noteq> []" "0 < hd req" "hd req \<le> ?m" "\<forall>bs \<in> set req. \<exists>l \<in> {0..?n}. bs = level_size (hd req) l"
    | "sizes = ?m # map (level_size ?m) [1..?n]"
    unfolding sizes_def by auto
  then show ?thesis
  proof cases
    case 1
    then show ?thesis using feasible [of "hd req"] by fastforce
  next
    case 2
    have n: "?n = int (log2_floor (length blocks))" using assms(1) by (simp add: log2_int_def)
    have zero: "level_size ?m 0 = ?m" using feasible [OF pos order_refl, of 0] n by simp
    have "sizes = map (level_size ?m) [0..?n]" using 2 zero upto_rec1 [of 0 ?n] n by simp
    also have "[0..?n] = map int [0..<Suc (log2_floor (length blocks))]"
      unfolding n by (rule upto_int)
    finally have eq: "sizes = map (\<lambda>i. level_size ?m (int i)) [0..<Suc (log2_floor (length blocks))]"
      by (simp add: comp_def del: upt_Suc)
    have val: "level_size ?m (int i) = 2 ^ i * ?m \<and> 0 < level_size ?m (int i) \<and> level_size ?m (int i) \<le> total_nodes blocks"
      if "i < Suc (log2_floor (length blocks))" for i
      using feasible [OF pos order_refl, of "int i"] that n by auto
    then have "sizes = map (\<lambda>i. 2 ^ i * ?m) [0..<Suc (log2_floor (length blocks))]"
      unfolding eq by (intro map_cong) auto
    moreover have "hd sizes = ?m" using 2 by simp
    moreover have "0 < s \<and> s \<le> total_nodes blocks \<and> (\<exists>i. s = 2 ^ i * ?m)" if s: "s \<in> set sizes" for s
    proof -
      obtain i where "i < Suc (log2_floor (length blocks))" "s = level_size ?m (int i)"
        using s unfolding eq set_map set_upt by auto
      then show ?thesis using val [of i] by blast
    qed
    moreover have "sizes \<noteq> []" using 2 by simp
    ultimately show ?thesis by (simp del: upt_Suc)
  qed
qed

definition two_blocks :: "blockInfo list" where
  "two_blocks =
     [\<lparr>bi_id = ''B1'', bi_name = [], bi_indx = 0, bi_nodes = [''n1'', ''n2'']\<rparr>,
      \<lparr>bi_id = ''B2'', bi_name = ''rack'', bi_indx = 1, bi_nodes = [''n3'', ''n4'', ''n5'']\<rparr>]"

theorem getBlockSize_feasible_witness:
  "getBlockSize two_blocks [3] False = [2, 4] \<and> 4 \<le> total_nodes two_blocks"
proof -
  have "two_blocks \<noteq> []" "\<forall>b \<in> set two_blocks. bi_nodes b \<noteq> []" "total_nodes two_blocks \<le> max_int64"
    by (simp_all add: two_blocks_def total_nodes_def max_int64_def)
  then have "\<forall>s \<in> set (getBlockSize two_blocks [3] False). s \<le> total_nodes two_blocks"
    using getBlockSize_feasible [of two_blocks "[3]"] by blast
  moreover have "getBlockSize two_blocks [3] False = [2, 4]" by code_simp
  ultimately show ?thesis by simp
qed

text \<open>
  C12. Fake padding: when the block generator with a pool of fake nodes succeeds, it printed one line per
  block and the line of sizes; each block got exactly as many fake nodes as it lacks to the first size, and
  the fake nodes of all blocks together are an initial part of the pool in its order, so no fake node is
  given out twice.
\<close>

theorem toBlockTopology_fake_pool:
  assumes "toBlockTopology buf_write nt w = Inr w'" and "cfg_FakeNodePool (nt_config nt) \<noteq> []"
  shows "\<exists>sizes fakes. sizes = getBlockSize (nt_blocks nt) (cfg_BlockSizes (nt_config nt)) True \<and>
    length fakes = length (nt_blocks nt) \<and>
    (\<forall>i < length (nt_blocks nt). length (fakes ! i) = nat (hd sizes - int (length (bi_nodes (nt_blocks nt ! i))))) \<and>
    prefix (concat fakes) (Expand [cfg_FakeNodePool (nt_config nt)]) \<and>
    w' = w @ concat (map2 block_line (nt_blocks nt) fakes) @
         ''BlockSizes='' @ join '','' (map show_int sizes) @ newline"
proof -
  let ?sizes = "getBlockSize (nt_blocks nt) (cfg_BlockSizes (nt_config nt)) True"
  let ?f = "(getFakeNodeConfig (cfg_FakeNodePool (nt_config nt)))\<lparr>fnc_baseBlockSize := hd ?sizes\<rparr>"
  obtain s w1 where blocks: "fold_sum (write_block buf_write) (nt_blocks nt) (Some ?f, w) = Inr (s, w1)"
    and out: "w' = w1 @ ''BlockSizes='' @ join '','' (map show_int ?sizes) @ newline"
    using assms
    by (auto simp: toBlockTopology_def Let_def with_code_def buf_write_eq bind_sum_def split: sum.splits)
  have idx: "0 \<le> fnc_index ?f" "fnc_index ?f \<le> int (length (fnc_nodes ?f))" by (simp_all add: getFakeNodeConfig_def)
  from write_blocks_fake [OF blocks idx] show ?thesis
    unfolding out by (auto simp: getFakeNodeConfig_def)
qed

definition padded_topology :: NetworkTopology where
  "padded_topology = (empty_topology
     \<lparr>cfg_Plugin = TopologyBlock, cfg_BlockSizes = [3], cfg_FakeNodePool = ''fake[1-4]'', cfg_Topologies = []\<rparr> [])
     \<lparr>nt_blocks := two_blocks\<rparr>"

theorem toBlockTopology_fake_pool_witness:
  "toBlockTopology buf_write padded_topology [] = Inr
     (''BlockName=B1 Nodes=n[1-2],fake1'' @ newline @
      ''# B2=rack'' @ newline @ ''BlockName=B2 Nodes=n[3-5]'' @ newline @ ''BlockSizes=3'' @ newline) \<and>
   (\<exists>fakes. length fakes = 2 \<and> length (fakes ! 0) = 1 \<and> prefix (concat fakes) (Expand [''fake[1-4]'']))"
proof -
  have run: "toBlockTopology buf_write padded_topology [] = Inr
     (''BlockName=B1 Nodes=n[1-2],fake1'' @ newline @
      ''# B2=rack'' @ newline @ ''BlockName=B2 Nodes=n[3-5]'' @ newline @ ''BlockSizes=3'' @ newline)" (is "_ = Inr ?out")
    by code_simp
  have pool: "cfg_FakeNodePool (nt_config padded_topology) \<noteq> []"
    by (simp add: padded_topology_def empty_topology_def)
  have blocks: "nt_blocks padded_topology = two_blocks" "length two_blocks = 2"
    "length (bi_nodes (two_blocks ! 0)) = 2" "cfg_FakeNodePool (nt_config padded_topology) = ''fake[1-4]''"
    by (simp_all add: padded_topology_def two_blocks_def empty_topology_def)
  have size: "hd (getBlockSize two_blocks (cfg_BlockSizes (nt_config padded_topology)) True) = 3" by code_simp
  from toBlockTopology_fake_pool [OF run pool] obtain fakes where "length fakes = 2" "length (fakes ! 0) = 1"
    "prefix (concat fakes) (Expand [''fake[1-4]''])"
    unfolding blocks(1,4) by (auto simp: blocks(2,3) size dest!: spec [of _ 0])
  then show ?thesis using run by blast
qed

text \<open>
  With no block the block generator prints the single size -1: the smallest domain of no block is the
  start value of the search, and the largest level is the conversion of minus infinity.
\<close>

theorem toBlockTopology_no_blocks:
  assumes "nt_blocks nt = []" and "cfg_FakeNodePool (nt_config nt) = []"
  shows "toBlockTopology buf_write nt w = Inr (w @ ''BlockSizes=-1'' @ newline)"
proof -
  have acc: "accepted_sizes req (- 1) m = []" for req m by (auto simp: accepted_sizes_def split: list.split)
  have "getBlockSize [] req False = [- 1]" for req
    by (simp add: getBlockSize_def findMinDomainSize_def log2_int_def acc Let_def min_int64_def)
  moreover have "show_int (- 1) = ''-1''" by code_simp
  ultimately show ?thesis
    using assms by (simp add: toBlockTopology_def with_code_def buf_write_eq)
qed

theorem toBlockTopology_no_blocks_witness:
  "toBlockTopology buf_write (empty_topology tree_config []) [] = Inr (''BlockSizes=-1'' @ newline)"
  using toBlockTopology_no_blocks [of "empty_topology tree_config []" "[]"]
  by (simp add: empty_topology_def tree_config_def)

lemma map_option_snd: "map_option snd x = Some r \<Longrightarrow> \<exists>k. x = Some (k, r)"
  by (cases x) auto

text \<open>
  C14. The tree of a partition is the required part of the network tree: on a tree with distinct IDs and
  children filed under their IDs the search ends, and an ID is kept exactly when it is reachable from the
  root and some node of the partition is reachable from it, with exactly its kept children in their order.
\<close>

theorem getPartitionTree_spec:
  assumes "NewNetworkTopology root cfg = Inr nt" and "map_of (Vertices root) TopologyTree = Some tree"
    and "unique_ids [tree]" and "keyed [tree]" and "ID tree = []"
  shows "\<exists>part. getPartitionTree (nt_tree nt) nodes = Some part \<and>
    (\<forall>i. map_of part i =
       (let cs = filter (\<lambda>c. c \<in> on_path (nt_tree nt) nodes []) (mget0 [] (nt_tree nt) i)
        in if i \<in> on_path (nt_tree nt) nodes [] \<and> cs \<noteq> [] then Some cs else None))"
proof -
  let ?sel = "newSelector nodes"
  obtain req where req: "findRequiredNodes (nt_tree nt) ?sel = Some req"
    using findRequiredNodes_returns [OF assms] by blast
  then obtain keep where "dfs (Suc (Suc (length (nt_tree nt)))) (nt_tree nt) ?sel [] [] = Some (keep, req)"
    using map_option_snd [OF req [unfolded findRequiredNodes_def]] by (elim exE)
  from dfs_spec [OF this] have "set req = set [] \<union> on_path (nt_tree nt) ?sel []" by (rule conjunct2)
  also have "\<dots> = on_path (nt_tree nt) ?sel []" by (simp only: list.set Un_empty_left)
  also have "on_path (nt_tree nt) ?sel [] = on_path (nt_tree nt) nodes []"
    by (simp only: on_path_def leads_to_def newSelector_def set_remdups)
  finally have kept: "set req = on_path (nt_tree nt) nodes []" .
  have "getPartitionTree (nt_tree nt) nodes = Some (buildSubTree (nt_tree nt) req)"
    by (simp only: getPartitionTree_def req option.map)
  then show ?thesis
    using buildSubTree_lookup [OF NewNetworkTopology_distinct [OF assms(1)], of req] unfolding kept by blast
qed

theorem getPartitionTree_spec_witness:
  "\<exists>nt part. NewNetworkTopology tree_set tree_config = Inr nt \<and>
     getPartitionTree (nt_tree nt) [''I21''] = Some part \<and>
     map_of part ''S2'' = (if ''S2'' \<in> on_path (nt_tree nt) [''I21''] [] then Some [''I21''] else None)"
proof -
  have "Validate tree_config tree_set = None" by code_simp
  then obtain nt where nt: "NewNetworkTopology tree_set tree_config = Inr nt"
    by (simp add: NewNetworkTopology_def)
  define tree where "tree = the (map_of (Vertices tree_set) TopologyTree)"
  have tree: "map_of (Vertices tree_set) TopologyTree = Some tree" "unique_ids [tree]" "keyed [tree]" "ID tree = []"
    unfolding tree_def by code_simp+
  from getPartitionTree_spec [OF nt tree, of "[''I21'']"] obtain part where
    part: "getPartitionTree (nt_tree nt) [''I21''] = Some part" and
    look: "map_of part ''S2'' = (let cs = filter (\<lambda>c. c \<in> on_path (nt_tree nt) [''I21''] []) (mget0 [] (nt_tree nt) ''S2'')
        in if ''S2'' \<in> on_path (nt_tree nt) [''I21''] [] \<and> cs \<noteq> [] then Some cs else None)" by blast
  have "map_option (\<lambda>t. map_of t ''S2'')
      (getPartitionTree (nt_tree (projr (NewNetworkTopology tree_set tree_config))) [''I21'']) = Some (Some [''I21''])"
    by code_simp
  then have "map_of part ''S2'' = Some [''I21'']" using nt part by simp
  then show ?thesis using nt part look by (auto simp: Let_def split: if_splits)
qed

end
