(* ===== verification/Queue.thy ===== *)
theory Queue
  imports Prelude Httperr
begin

text \<open>
  \<open>pkg/server/trailing_delay_queue.go\<close>: the queue between the HTTP handlers and the goroutine that
  computes topologies. Requests that arrive within the delay replace each other; the last one is handled when
  nothing arrived for longer than the delay, and its result is kept under the ID that the clients got.

  The mutex makes each critical section one atomic operation: \<open>Submit\<close>, \<open>Get\<close>, the part of
  \<open>run\<close> that takes the item (\<open>run_take\<close>) and the part that stores the result
  (\<open>run_store\<close>). Between the last two the goroutine computes outside the mutex. The inductive
  relation \<open>queue_step\<close> interleaves the operations; its label tells what the operation did.

  The cache of results is \<open>hashicorp/golang-lru\<close>; the locale \<open>lru_cache\<close> states what its
  documentation promises, and the list \<open>lru_list\<close> is a cache that keeps those promises. Random IDs and
  clock readings are inputs of the operations. Times and durations are integers in nanoseconds;
  \<open>time.Since\<close> saturates only after 292 years.
\<close>

section \<open>The cache of results\<close>

text \<open>The operations on a cache: an addition, or a look-up, which makes its key the most recent.\<close>

datatype ('k, 'v) lru_op = LAdd 'k 'v | LGet 'k

fun lru_key :: "('k, 'v) lru_op \<Rightarrow> 'k" where
  "lru_key (LAdd k v) = k"
| "lru_key (LGet k) = k"

locale lru_cache =
  fixes new :: "nat \<Rightarrow> 'c" and add :: "'k \<Rightarrow> 'v \<Rightarrow> 'c \<Rightarrow> 'c" and get :: "'k \<Rightarrow> 'c \<Rightarrow> 'v option \<times> 'c"
    and size_of :: "'c \<Rightarrow> nat"
  assumes get_new: "fst (get k (new n)) = None"
    and size_new: "size_of (new n) = n"
    and size_add: "size_of (add k v c) = size_of c"
    and size_get: "size_of (snd (get k c)) = size_of c"
    and get_add: "fst (get k' (add k v c)) = Some w \<Longrightarrow> (k' = k \<and> w = v) \<or> (k' \<noteq> k \<and> fst (get k' c) = Some w)"
    and get_get: "fst (get k' (snd (get k c))) = fst (get k' c)"
    and keeps: "card (lru_key ` set ops - {k}) < size_of c \<Longrightarrow> (\<forall>op \<in> set ops. \<forall>w. op \<noteq> LAdd k w) \<Longrightarrow>
      fst (get k (fold (\<lambda>op. case op of LAdd k v \<Rightarrow> add k v | LGet k \<Rightarrow> snd \<circ> get k) ops (add k v c))) = Some v"
begin

lemma get_added: "0 < size_of c \<Longrightarrow> fst (get k (add k v c)) = Some v"
  using keeps [of "[]" k c v] by simp

end

text \<open>A list of the entries, the most recent one first, that drops its last entry when it is too long.\<close>

record ('k, 'v) lru_list =
  lru_size :: nat
  lru_items :: "('k \<times> 'v) list"

definition lru_new :: "nat \<Rightarrow> ('k, 'v) lru_list" where
  "lru_new n = \<lparr>lru_size = n, lru_items = []\<rparr>"

definition lru_add :: "'k \<Rightarrow> 'v \<Rightarrow> ('k, 'v) lru_list \<Rightarrow> ('k, 'v) lru_list" where
  "lru_add k v c = c\<lparr>lru_items := take (lru_size c) ((k, v) # filter (\<lambda>p. fst p \<noteq> k) (lru_items c))\<rparr>"

definition lru_get :: "'k \<Rightarrow> ('k, 'v) lru_list \<Rightarrow> 'v option \<times> ('k, 'v) lru_list" where
  "lru_get k c =
     (case map_of (lru_items c) k of
        None \<Rightarrow> (None, c)
      | Some v \<Rightarrow> (Some v, c\<lparr>lru_items := (k, v) # filter (\<lambda>p. fst p \<noteq> k) (lru_items c)\<rparr>))"

lemma map_of_filter_ne: "map_of (filter (\<lambda>p. fst p \<noteq> k) xs) k' = (if k' = k then None else map_of xs k')"
  by (induction xs) auto

lemma map_of_take: "map_of (take n xs) k = Some v \<Longrightarrow> map_of xs k = Some v"
proof (induction xs arbitrary: n)
  case (Cons x xs)
  then show ?case by (cases n) (auto split: if_splits)
qed simp

definition ahead :: "'k \<Rightarrow> ('k \<times> 'v) list \<Rightarrow> 'k set" where
  "ahead k xs = fst ` set (takeWhile (\<lambda>p. fst p \<noteq> k) xs)"

text \<open>While fewer keys than the size are touched, an entry is kept.\<close>

definition lru_kept :: "'k \<Rightarrow> 'v \<Rightarrow> 'k set \<Rightarrow> ('k, 'v) lru_list \<Rightarrow> bool" where
  "lru_kept k v T c \<longleftrightarrow> map_of (lru_items c) k = Some v \<and> ahead k (lru_items c) \<subseteq> T \<and>
     distinct (map fst (takeWhile (\<lambda>p. fst p \<noteq> k) (lru_items c)))"

lemma map_of_take_ahead:
  assumes "map_of xs k = Some v" and "distinct (map fst (takeWhile (\<lambda>p. fst p \<noteq> k) xs))"
    and "card (ahead k xs) < n"
  shows "map_of (take n xs) k = Some v"
  using assms
proof (induction xs arbitrary: n)
  case (Cons x xs)
  obtain m where n: "n = Suc m" using Cons.prems(3) by (cases n) auto
  show ?case
  proof (cases "fst x = k")
    case False
    then have "card (ahead k (x # xs)) = Suc (card (ahead k xs))"
      using Cons.prems(2) by (simp add: ahead_def)
    then show ?thesis using Cons False n by (auto simp: prod_eq_iff)
  qed (use Cons.prems n in \<open>cases x; simp\<close>)
qed simp


lemma takeWhile_filter_ne:
  "j \<noteq> k \<Longrightarrow> takeWhile (\<lambda>p. fst p \<noteq> k) (filter (\<lambda>p. fst p \<noteq> j) xs) =
    filter (\<lambda>p. fst p \<noteq> j) (takeWhile (\<lambda>p. fst p \<noteq> k) xs)"
  by (induction xs) auto

lemma takeWhile_take_ne:
  "map_of (take n xs) k = Some v \<Longrightarrow> takeWhile (\<lambda>p. fst p \<noteq> k) (take n xs) = takeWhile (\<lambda>p. fst p \<noteq> k) xs"
proof (induction xs arbitrary: n)
  case (Cons x xs)
  then show ?case by (cases n) (auto split: if_splits)
qed simp

text \<open>Moving an entry to the front.\<close>

lemma lru_kept_front:
  assumes "lru_kept k v T c" and "j \<in> T" and "finite T" and "card (T - {k}) < n" and "j = k \<longrightarrow> w = v"
  shows "lru_kept k v T (c\<lparr>lru_items := take n ((j, w) # filter (\<lambda>p. fst p \<noteq> j) (lru_items c))\<rparr>)"
proof (cases "j = k")
  case True
  then obtain m where "n = Suc m" using assms(4) by (cases n) auto
  then show ?thesis using True assms(5) by (simp add: lru_kept_def ahead_def)
next
  case False
  let ?xs = "(j, w) # filter (\<lambda>p. fst p \<noteq> j) (lru_items c)"
  have look: "map_of ?xs k = Some v" using assms(1) False by (simp add: lru_kept_def map_of_filter_ne)
  have front: "takeWhile (\<lambda>p. fst p \<noteq> k) ?xs =
      (j, w) # filter (\<lambda>p. fst p \<noteq> j) (takeWhile (\<lambda>p. fst p \<noteq> k) (lru_items c))"
    using False by (simp add: takeWhile_filter_ne)
  have dist: "distinct (map fst (takeWhile (\<lambda>p. fst p \<noteq> k) ?xs))"
    using assms(1) unfolding front lru_kept_def by (auto simp: distinct_map inj_on_def)
  have "k \<notin> ahead k ?xs" by (auto simp: ahead_def dest: set_takeWhileD)
  moreover have sub: "ahead k ?xs \<subseteq> T"
    using assms(1,2) unfolding lru_kept_def ahead_def front by auto
  ultimately have "ahead k ?xs \<subseteq> T - {k}" by blast
  then have "card (ahead k ?xs) \<le> card (T - {k})" using assms(3) by (intro card_mono) auto
  then have "card (ahead k ?xs) < n" using assms(4) by (rule le_less_trans)
  from map_of_take_ahead [OF look dist this] have kept: "map_of (take n ?xs) k = Some v" .
  show ?thesis
    unfolding lru_kept_def ahead_def using kept takeWhile_take_ne [OF kept] sub dist by (simp add: ahead_def)
qed

lemma lru_get_value: "fst (lru_get k c) = map_of (lru_items c) k"
  by (simp add: lru_get_def split: option.split)

interpretation lru: lru_cache lru_new lru_add lru_get lru_size
proof unfold_locales
  fix k k' :: 'k and n and v w :: 'v and c :: "('k, 'v) lru_list" and ops :: "('k, 'v) lru_op list"
  show "fst (lru_get k (lru_new n)) = (None :: 'v option)" by (simp add: lru_get_value lru_new_def)
  show "lru_size (lru_new n :: ('k, 'v) lru_list) = n" by (simp add: lru_new_def)
  show "lru_size (lru_add k v c) = lru_size c" by (simp add: lru_add_def)
  show "lru_size (snd (lru_get k c)) = lru_size c" by (simp add: lru_get_def split: option.split)
  show "(k' = k \<and> w = v) \<or> (k' \<noteq> k \<and> fst (lru_get k' c) = Some w)" if "fst (lru_get k' (lru_add k v c)) = Some w"
    using that unfolding lru_get_value lru_add_def
    by (auto dest!: map_of_take simp: map_of_filter_ne split: if_splits)
  show "fst (lru_get k' (snd (lru_get k c))) = fst (lru_get k' c)"
    by (auto simp: lru_get_value lru_get_def map_of_filter_ne split: option.split)
  show "fst (lru_get k (fold (\<lambda>op. case op of LAdd k v \<Rightarrow> lru_add k v | LGet k \<Rightarrow> snd \<circ> lru_get k) ops (lru_add k v c))) =
      Some v"
    if few: "card (lru_key ` set ops - {k}) < lru_size c" and other: "\<forall>op \<in> set ops. \<forall>w. op \<noteq> LAdd k w"
  proof -
    define T where "T = insert k (lru_key ` set ops)"
    have T: "finite T" "card (T - {k}) < lru_size c" using few by (simp_all add: T_def)
    have kept: "lru_kept k v T (fold (\<lambda>op. case op of LAdd k v \<Rightarrow> lru_add k v | LGet k \<Rightarrow> snd \<circ> lru_get k) os d)"
      if "lru_kept k v T d" "card (T - {k}) < lru_size d" "lru_key ` set os \<subseteq> T" "\<forall>op \<in> set os. \<forall>w. op \<noteq> LAdd k w" for os d
      using that
    proof (induction os arbitrary: d)
      case (Cons op os)
      let ?e = "(case op of LAdd k v \<Rightarrow> lru_add k v | LGet k \<Rightarrow> snd \<circ> lru_get k) d"
      have "lru_kept k v T ?e \<and> lru_size ?e = lru_size d"
      proof (cases op)
        case (LAdd j w)
        then have "j \<in> T" "j \<noteq> k" using Cons.prems by auto
        then show ?thesis
          using lru_kept_front [OF Cons.prems(1) _ T(1) Cons.prems(2), of j w] LAdd by (simp add: lru_add_def)
      next
        case (LGet j)
        then have j: "j \<in> T" using Cons.prems by auto
        show ?thesis
        proof (cases "map_of (lru_items d) j")
          case None
          then show ?thesis using LGet Cons.prems(1) by (simp add: lru_get_def)
        next
          case (Some w)
          let ?n = "Suc (length (lru_items d)) + lru_size d"
          have "length ((j, w) # filter (\<lambda>p. fst p \<noteq> j) (lru_items d)) \<le> ?n"
            by (simp add: le_SucI order_trans [OF length_filter_le])
          then have "take ?n ((j, w) # filter (\<lambda>p. fst p \<noteq> j) (lru_items d)) = (j, w) # filter (\<lambda>p. fst p \<noteq> j) (lru_items d)"
            by (rule take_all)
          moreover have "j = k \<longrightarrow> w = v" using Some Cons.prems(1) by (auto simp: lru_kept_def)
          ultimately show ?thesis
            using lru_kept_front [OF Cons.prems(1) j T(1), of ?n w] Cons.prems(2) LGet Some by (simp add: lru_get_def)
        qed
      qed
      then show ?case using Cons.IH [of ?e] Cons.prems by simp
    qed simp
    have "0 < lru_size c" using few by simp
    then obtain m where "lru_size c = Suc m" by (cases "lru_size c") auto
    then have "lru_kept k v T (lru_add k v c)" by (simp add: lru_kept_def lru_add_def ahead_def)
    from kept [OF this] T(2) other show ?thesis
      by (simp add: lru_get_value lru_kept_def T_def lru_add_def subset_insertI)
  qed
qed

section \<open>The queue\<close>

definition RequestHistorySize :: nat where
  "RequestHistorySize = 100"

record 'r Completion =
  cmp_Ret :: "'r option"
  cmp_Status :: nat
  cmp_Message :: string

text \<open>The goroutine is in its \<open>select\<close>, inside \<open>q.handle\<close>, or has returned.\<close>

datatype 'a runner = Selecting | Handling 'a string | Returned

record ('a, 'c) queue =
  q_delay :: int
  q_shutdown :: bool
  q_item :: "'a option"
  q_lastTime :: int
  q_uid :: string
  q_store :: 'c
  q_run :: "'a runner"

definition zero_time :: int where
  "zero_time = - 62135596800 * 10 ^ 9"

definition NewTrailingDelayQueue :: "(nat \<Rightarrow> 'c) \<Rightarrow> int \<Rightarrow> ('a, 'c) queue" where
  "NewTrailingDelayQueue new delay =
     \<lparr>q_delay = delay, q_shutdown = False, q_item = None, q_lastTime = zero_time, q_uid = [],
      q_store = new RequestHistorySize, q_run = Selecting\<rparr>"

text \<open>\<open>run\<close>, from the tick to the end of the first critical section.\<close>

definition run_take :: "int \<Rightarrow> ('a, 'c) queue \<Rightarrow> ('a, 'c) queue" where
  "run_take now q =
     (if now - q_lastTime q > q_delay q
      then (case q_item q of
              Some item \<Rightarrow> q\<lparr>q_item := None, q_uid := [], q_run := Handling item (q_uid q)\<rparr>
            | None \<Rightarrow> q)
      else q)"

definition completion_of :: "'r http_res \<Rightarrow> 'r Completion" where
  "completion_of r =
     (case r of
        Inl err \<Rightarrow> \<lparr>cmp_Ret = None, cmp_Status = Error_Code err, cmp_Message = Error_Error err\<rparr>
      | Inr data \<Rightarrow> \<lparr>cmp_Ret = Some data, cmp_Status = StatusOK, cmp_Message = []\<rparr>)"

text \<open>\<open>run\<close>, from the return of \<open>q.handle\<close> to the next \<open>select\<close>.\<close>

definition run_store ::
  "(string \<Rightarrow> 'r Completion \<Rightarrow> 'c \<Rightarrow> 'c) \<Rightarrow> string \<Rightarrow> 'r http_res \<Rightarrow> ('a, 'c) queue \<Rightarrow> ('a, 'c) queue" where
  "run_store add uid r q = q\<lparr>q_store := add uid (completion_of r) (q_store q), q_run := Selecting\<rparr>"

definition Submit :: "string \<Rightarrow> 'a \<Rightarrow> int \<Rightarrow> ('a, 'c) queue \<Rightarrow> string \<times> ('a, 'c) queue" where
  "Submit uuid item now q =
     (let q = q\<lparr>q_item := Some item, q_lastTime := now\<rparr>;
          q = (if length (q_uid q) = 0 then q\<lparr>q_uid := uuid\<rparr> else q)
      in (q_uid q, q))"

definition Get ::
  "(string \<Rightarrow> 'c \<Rightarrow> 'r Completion option \<times> 'c) \<Rightarrow> string \<Rightarrow> ('a, 'c) queue \<Rightarrow> 'r Completion \<times> ('a, 'c) queue" where
  "Get lookup uid q =
     (case lookup uid (q_store q) of (found, store) \<Rightarrow>
        (case found of
           Some res \<Rightarrow> res
         | None \<Rightarrow>
             if uid = q_uid q
             then \<lparr>cmp_Ret = None, cmp_Status = StatusAccepted,
                   cmp_Message = ''request ID '' @ uid @ '' has not completed yet''\<rparr>
             else \<lparr>cmp_Ret = None, cmp_Status = StatusNotFound,
                   cmp_Message = ''request ID '' @ uid @ '' not found''\<rparr>,
         q\<lparr>q_store := store\<rparr>))"

definition Shutdown :: "('a, 'c) queue \<Rightarrow> ('a, 'c) queue" where
  "Shutdown q = q\<lparr>q_shutdown := True\<rparr>"

section \<open>Interleavings\<close>

text \<open>What an operation did: the item, the time and the ID; the flag of a submission tells whether \<open>Submit\<close> drew a new ID.\<close>

datatype ('a, 'r) event =
    Submitted 'a int string bool
  | Asked string "'r Completion"
  | Ticked
  | Taken 'a int string
  | Completed string "'r http_res"
  | Closed
  | Stopped

inductive queue_step ::
  "(string \<Rightarrow> 'r Completion \<Rightarrow> 'c \<Rightarrow> 'c) \<Rightarrow> (string \<Rightarrow> 'c \<Rightarrow> 'r Completion option \<times> 'c) \<Rightarrow>
   ('a, 'c) queue \<Rightarrow> ('a, 'r) event \<Rightarrow> ('a, 'c) queue \<Rightarrow> bool" for add lookup where
  submit: "Submit uuid x now q = (u, q') \<Longrightarrow> queue_step add lookup q (Submitted x now u (q_uid q = [])) q'"
| ask: "Get lookup u q = (a, q') \<Longrightarrow> queue_step add lookup q (Asked u a) q'"
| tick: "q_run q = Selecting \<Longrightarrow> run_take now q = q' \<Longrightarrow> q_run q' = Selecting \<Longrightarrow> queue_step add lookup q Ticked q'"
| take: "q_run q = Selecting \<Longrightarrow> run_take now q = q' \<Longrightarrow> q_run q' = Handling x u \<Longrightarrow>
    queue_step add lookup q (Taken x now u) q'"
| store: "q_run q = Handling x u \<Longrightarrow> run_store add u r q = q' \<Longrightarrow> queue_step add lookup q (Completed u r) q'"
| close: "\<not> q_shutdown q \<Longrightarrow> Shutdown q = q' \<Longrightarrow> queue_step add lookup q Closed q'"
| stop: "q_run q = Selecting \<Longrightarrow> q_shutdown q \<Longrightarrow> queue_step add lookup q Stopped (q\<lparr>q_run := Returned\<rparr>)"

inductive_cases queue_stepE: "queue_step add lookup q e q'"

inductive queue_run ::
  "(string \<Rightarrow> 'r Completion \<Rightarrow> 'c \<Rightarrow> 'c) \<Rightarrow> (string \<Rightarrow> 'c \<Rightarrow> 'r Completion option \<times> 'c) \<Rightarrow> ('a, 'c) queue \<Rightarrow>
   ('a, 'r) event list \<Rightarrow> ('a, 'c) queue \<Rightarrow> bool" for add lookup q0 where
  start: "queue_run add lookup q0 [] q0"
| step: "queue_run add lookup q0 es q \<Longrightarrow> queue_step add lookup q e q' \<Longrightarrow> queue_run add lookup q0 (es @ [e]) q'"

section \<open>The life of a request\<close>

text \<open>The IDs drawn, the pairs taken and the IDs completed, in order.\<close>

definition drawn :: "('a, 'r) event list \<Rightarrow> string list" where
  "drawn es = concat (map (\<lambda>e. case e of Submitted x t u True \<Rightarrow> [u] | _ \<Rightarrow> []) es)"

definition taken :: "('a, 'r) event list \<Rightarrow> string list" where
  "taken es = concat (map (\<lambda>e. case e of Taken x t u \<Rightarrow> [u] | _ \<Rightarrow> []) es)"

definition completed :: "('a, 'r) event list \<Rightarrow> string list" where
  "completed es = concat (map (\<lambda>e. case e of Completed u r \<Rightarrow> [u] | _ \<Rightarrow> []) es)"

definition submitted :: "('a, 'r) event list \<Rightarrow> string set" where
  "submitted es = {u. \<exists>x t b. Submitted x t u b \<in> set es}"

text \<open>The last submission since an item was taken.\<close>

definition waiting_step :: "('a, 'r) event \<Rightarrow> ('a \<times> int \<times> string) option \<Rightarrow> ('a \<times> int \<times> string) option" where
  "waiting_step e w = (case e of Submitted x t u _ \<Rightarrow> Some (x, t, u) | Taken x t u \<Rightarrow> None | _ \<Rightarrow> w)"

definition waiting :: "('a, 'r) event list \<Rightarrow> ('a \<times> int \<times> string) option" where
  "waiting es = fold waiting_step es None"

lemma event_simps:
  "drawn (es @ [e]) = drawn es @ (case e of Submitted x t u b \<Rightarrow> if b then [u] else [] | _ \<Rightarrow> [])"
  "taken (es @ [e]) = taken es @ (case e of Taken x t u \<Rightarrow> [u] | _ \<Rightarrow> [])"
  "completed (es @ [e]) = completed es @ (case e of Completed u r \<Rightarrow> [u] | _ \<Rightarrow> [])"
  "submitted (es @ [e]) = submitted es \<union> (case e of Submitted x t u b \<Rightarrow> {u} | _ \<Rightarrow> {})"
  "waiting (es @ [e]) = waiting_step e (waiting es)"
  "drawn [] = []" "taken [] = []" "completed [] = []" "submitted [] = {}" "waiting [] = None"
  by (auto simp: drawn_def taken_def completed_def submitted_def waiting_def split: event.split bool.split)

definition handling_uid :: "('a, 'c) queue \<Rightarrow> string list" where
  "handling_uid q = (case q_run q of Handling x u \<Rightarrow> [u] | _ \<Rightarrow> [])"

definition pending_uid :: "('a, 'c) queue \<Rightarrow> string list" where
  "pending_uid q = (if q_item q = None then [] else [q_uid q])"

definition queue_inv :: "int \<Rightarrow> ('a, 'r) event list \<Rightarrow> ('a, 'c) queue \<Rightarrow> bool" where
  "queue_inv delay es q \<longleftrightarrow>
     q_delay q = delay \<and>
     (q_item q = None \<longleftrightarrow> q_uid q = []) \<and>
     waiting es = (case q_item q of None \<Rightarrow> None | Some x \<Rightarrow> Some (x, q_lastTime q, q_uid q)) \<and>
     drawn es = taken es @ pending_uid q \<and>
     taken es = completed es @ handling_uid q \<and>
     submitted es = set (drawn es)"

lemma queue_inv_step:
  assumes "queue_inv delay es q" and "queue_step add lookup q e q'" and "[] \<notin> set (drawn (es @ [e]))"
  shows "queue_inv delay (es @ [e]) q'"
proof -
  note inv = assms(1) [unfolded queue_inv_def]
  note simps = queue_inv_def event_simps waiting_step_def pending_uid_def handling_uid_def
  show ?thesis
    using assms(2)
  proof cases
    case (submit uuid x now u)
    have "u \<in> set (drawn es)" if "q_uid q \<noteq> []"
      using that inv submit by (auto simp: Submit_def pending_uid_def)
    then show ?thesis using inv assms(3) submit by (cases "q_uid q = []") (auto simp: simps Submit_def)
  next
    case (ask u a)
    then show ?thesis using inv by (auto simp: simps Get_def split: prod.splits)
  next
    case (tick now)
    then have "q' = q" by (auto simp: run_take_def split: option.splits if_splits)
    then show ?thesis using inv tick by (auto simp: simps)
  next
    case (take now x u)
    then show ?thesis using inv by (auto simp: simps run_take_def split: option.splits if_splits)
  next
    case (store x u r)
    then show ?thesis using inv by (auto simp: simps run_store_def)
  next
    case close
    then show ?thesis using inv by (auto simp: simps Shutdown_def)
  next
    case stop
    then show ?thesis using inv by (auto simp: simps)
  qed
qed

lemma queue_inv_new: "queue_inv delay [] (NewTrailingDelayQueue new delay)"
  by (simp add: queue_inv_def NewTrailingDelayQueue_def event_simps pending_uid_def handling_uid_def)

lemma queue_inv_run:
  "queue_run add lookup (NewTrailingDelayQueue new delay) es q \<Longrightarrow> [] \<notin> set (drawn es) \<Longrightarrow> queue_inv delay es q"
proof (induction rule: queue_run.induct)
  case start
  show ?case by (rule queue_inv_new)
next
  case (step es q e q')
  then show ?case using queue_inv_step by (metis UnI1 event_simps(1) set_append)
qed

text \<open>What is taken is the last submission, and it is older than the delay.\<close>

lemma taken_waiting:
  assumes "queue_inv delay es q" and "queue_step add lookup q (Taken x now u) q'"
  shows "\<exists>t. waiting es = Some (x, t, u) \<and> now - t > delay"
  using assms(2)
proof cases
  case take
  then show ?thesis
    using assms(1) by (auto simp: queue_inv_def run_take_def split: option.splits if_splits)
qed

text \<open>No submission and no taking in a list of events.\<close>

definition quiet :: "('a, 'r) event list \<Rightarrow> bool" where
  "quiet es \<longleftrightarrow> list_all (\<lambda>e. case e of Submitted x t u b \<Rightarrow> False | Taken x t u \<Rightarrow> False | _ \<Rightarrow> True) es"

lemma waiting_Some:
  "waiting es = Some (x, t, u) \<Longrightarrow> \<exists>es1 b es2. es = es1 @ Submitted x t u b # es2 \<and> quiet es2"
proof (induction es rule: rev_induct)
  case Nil
  then show ?case by (simp add: event_simps)
next
  case (snoc e es)
  show ?case
  proof (cases "\<exists>b. e = Submitted x t u b")
    case True
    then show ?thesis by (fastforce simp: quiet_def)
  next
    case False
    then have w: "waiting es = Some (x, t, u)" and e: "quiet [e]"
      using snoc.prems by (auto simp: event_simps waiting_step_def quiet_def split: event.splits)
    from snoc.IH [OF w] obtain es1 b es2 where "es = es1 @ Submitted x t u b # es2" "quiet es2" by blast
    then have "es @ [e] = es1 @ Submitted x t u b # (es2 @ [e])" "quiet (es2 @ [e])" using e by (auto simp: quiet_def)
    then show ?thesis by blast
  qed
qed

lemma queue_run_prefix:
  "queue_run add lookup q0 es q \<Longrightarrow> es = es1 @ e # es2 \<Longrightarrow>
    \<exists>q1 q2. queue_run add lookup q0 es1 q1 \<and> queue_step add lookup q1 e q2"
proof (induction arbitrary: es2 rule: queue_run.induct)
  case start
  then show ?case by simp
next
  case (step es q e' q')
  then show ?case by (cases es2 rule: rev_cases) auto
qed

lemma drawn_append: "drawn (es @ es') = drawn es @ drawn es'"
  by (simp add: drawn_def)

section \<open>The store\<close>

fun store_ops :: "('a, 'r) event list \<Rightarrow> (string, 'r Completion) lru_op list" where
  "store_ops [] = []"
| "store_ops (Asked u a # es) = LGet u # store_ops es"
| "store_ops (Completed u r # es) = LAdd u (completion_of r) # store_ops es"
| "store_ops (_ # es) = store_ops es"

lemma store_ops_append: "store_ops (es @ es') = store_ops es @ store_ops es'"
  by (induction es rule: store_ops.induct) simp_all

definition do_op :: "('k \<Rightarrow> 'v \<Rightarrow> 'c \<Rightarrow> 'c) \<Rightarrow> ('k \<Rightarrow> 'c \<Rightarrow> 'v option \<times> 'c) \<Rightarrow> ('k, 'v) lru_op \<Rightarrow> 'c \<Rightarrow> 'c" where
  "do_op add lookup op = (case op of LAdd k v \<Rightarrow> add k v | LGet k \<Rightarrow> snd \<circ> lookup k)"

lemma queue_step_store:
  "queue_step add lookup q e q' \<Longrightarrow> q_store q' = fold (do_op add lookup) (store_ops [e]) (q_store q)"
  by (erule queue_step.cases)
    (auto simp: Submit_def Get_def run_take_def run_store_def Shutdown_def do_op_def Let_def
      split: prod.splits option.splits if_splits)

lemma queue_run_store:
  "queue_run add lookup q0 es q \<Longrightarrow> q_store q = fold (do_op add lookup) (store_ops es) (q_store q0)"
  by (induction rule: queue_run.induct) (simp_all add: store_ops_append queue_step_store)

context lru_cache
begin

lemma size_ops: "size_of (fold (do_op add get) ops c) = size_of c"
  by (induction ops arbitrary: c) (simp_all add: do_op_def size_add size_get split: lru_op.split)

lemma stored:
  "fst (get k (fold (do_op add get) ops (new n))) = Some v \<Longrightarrow> LAdd k v \<in> set ops"
proof (induction ops rule: rev_induct)
  case Nil
  then show ?case by (simp add: get_new)
next
  case (snoc op ops)
  then show ?case by (cases op) (auto simp: do_op_def get_get dest: get_add)
qed

end

lemma store_ops_add: "LAdd u c \<in> set (store_ops es) \<Longrightarrow> \<exists>r. Completed u r \<in> set es \<and> c = completion_of r"
  by (induction es rule: store_ops.induct) auto

lemma completed_iff: "u \<in> set (completed es) \<longleftrightarrow> (\<exists>r. Completed u r \<in> set es)"
  by (induction es) (auto simp: completed_def split: event.splits)

lemma Get_stored: "fst (lookup u (q_store q)) = Some a \<Longrightarrow> fst (Get lookup u q) = a"
  by (auto simp: Get_def split: prod.split)

lemma Get_answer:
  "fst (Get lookup u q) =
    (case fst (lookup u (q_store q)) of
       Some res \<Rightarrow> res
     | None \<Rightarrow> \<lparr>cmp_Ret = None, cmp_Status = (if u = q_uid q then StatusAccepted else StatusNotFound),
                cmp_Message = ''request ID '' @ u @ (if u = q_uid q then '' has not completed yet'' else '' not found'')\<rparr>)"
  by (simp add: Get_def split: prod.split option.split)

text \<open>What the store answers is the result of a request of that ID, of the one request when the IDs are distinct.\<close>

lemma queue_stored:
  assumes "lru_cache new add lookup size_of" and "queue_run add lookup (NewTrailingDelayQueue new delay) es q"
    and "fst (lookup u (q_store q)) = Some a"
  shows "\<exists>r. Completed u r \<in> set es \<and> a = completion_of r"
  using assms(3) store_ops_add lru_cache.stored [OF assms(1), of u "store_ops es" RequestHistorySize a]
    queue_run_store [OF assms(2)] by (simp add: NewTrailingDelayQueue_def)

lemma queue_absent:
  assumes "lru_cache new add lookup size_of" and "queue_run add lookup (NewTrailingDelayQueue new delay) es q"
    and "u \<notin> set (completed es)"
  shows "fst (lookup u (q_store q)) = None"
  using assms(3) queue_stored [OF assms(1,2)] completed_iff by (cases "fst (lookup u (q_store q))") blast+

lemma completed_once:
  "distinct (completed es) \<Longrightarrow> Completed u r \<in> set es \<Longrightarrow> Completed u r' \<in> set es \<Longrightarrow> r = r'"
proof (induction es)
  case (Cons e es)
  have "u \<in> set (completed es)" if "Completed u x \<in> set es" for x using that completed_iff by metis
  then show ?case using Cons by (auto simp: completed_def split: event.splits)
qed simp

lemma queue_own:
  assumes "lru_cache new add lookup size_of" and "queue_run add lookup (NewTrailingDelayQueue new delay) es q"
    and "distinct (completed es)" and "Completed u r \<in> set es" and "fst (lookup u (q_store q)) = Some a"
  shows "a = completion_of r"
  using queue_stored [OF assms(1,2,5)] completed_once [OF assms(3,4)] by blast

text \<open>While an item is being handled its ID is not known: the queue forgot it when it took the item.\<close>

lemma queue_handling_404:
  assumes "lru_cache new add lookup size_of" and "queue_run add lookup (NewTrailingDelayQueue new delay) es q"
    and "[] \<notin> set (drawn es)" and "distinct (drawn es)" and "u \<in> set (handling_uid q)"
  shows "cmp_Status (fst (Get lookup u q)) = StatusNotFound"
proof -
  have phases: "drawn es = completed es @ handling_uid q @ pending_uid q" and item: "(q_item q = None) = (q_uid q = [])"
    using queue_inv_run [OF assms(2,3)] by (simp_all add: queue_inv_def)
  then have "u \<notin> set (completed es)" "u \<notin> set (pending_uid q)" "u \<noteq> []" using assms(3-5) by auto
  moreover from this have "u \<noteq> q_uid q" using item by (auto simp: pending_uid_def)
  ultimately show ?thesis using queue_absent [OF assms(1,2)] unfolding Get_answer by simp
qed

section \<open>Properties\<close>

text \<open>
  C16. Debouncing: what the goroutine takes is the item of the last submission, under the ID that this
  submission returned; no other submission and no other taking lies between them, and more than the delay
  has passed since.
\<close>

theorem queue_takes_last:
  assumes "queue_run add lookup (NewTrailingDelayQueue new delay) es q" and "[] \<notin> set (drawn es)"
    and "es = before @ Taken x now u # after"
  shows "\<exists>es1 t b es2. before = es1 @ Submitted x t u b # es2 \<and> quiet es2 \<and> now - t > delay"
proof -
  obtain q1 q2 where run: "queue_run add lookup (NewTrailingDelayQueue new delay) before q1"
    and take: "queue_step add lookup q1 (Taken x now u) q2"
    using queue_run_prefix [OF assms(1,3)] by blast
  have "[] \<notin> set (drawn before)" using assms(2,3) by (simp add: drawn_append)
  from taken_waiting [OF queue_inv_run [OF run this] take] obtain t where
    t: "waiting before = Some (x, t, u)" "now - t > delay" by blast
  then show ?thesis using waiting_Some [OF t(1)] by blast
qed

text \<open>
  C15. Exactly one phase: when the random IDs are not empty and differ, every ID that a submission returned
  is at every moment completed, being handled, or pending, and only one of these; each is handled once, in
  the order of submission.
\<close>

theorem queue_lifecycle:
  assumes "queue_run add lookup (NewTrailingDelayQueue new delay) es q" and "[] \<notin> set (drawn es)"
    and "distinct (drawn es)"
  shows "submitted es = set (completed es @ handling_uid q @ pending_uid q) \<and>
    distinct (completed es @ handling_uid q @ pending_uid q) \<and>
    taken es = completed es @ handling_uid q \<and> drawn es = taken es @ pending_uid q"
proof -
  have "queue_inv delay es q" using assms by (intro queue_inv_run)
  then have inv: "drawn es = taken es @ pending_uid q" "taken es = completed es @ handling_uid q" "submitted es = set (drawn es)"
    by (simp_all add: queue_inv_def)
  then show ?thesis using assms(3) by simp
qed

text \<open>
  C18. The answers: a pending ID is answered with 202, an ID that nobody submitted with 404, and a completed ID
  with the result of its own request, or with 404 once the cache has dropped it.
\<close>

theorem queue_answers:
  assumes "lru_cache new add lookup size_of" and "queue_run add lookup (NewTrailingDelayQueue new delay) es q"
    and "[] \<notin> set (drawn es)" and "distinct (drawn es)" and "u \<noteq> []"
  shows "(u \<in> set (pending_uid q) \<longrightarrow> cmp_Status (fst (Get lookup u q)) = StatusAccepted) \<and>
    (u \<notin> submitted es \<longrightarrow> cmp_Status (fst (Get lookup u q)) = StatusNotFound) \<and>
    (\<forall>r. Completed u r \<in> set es \<longrightarrow>
       (if fst (lookup u (q_store q)) = None then cmp_Status (fst (Get lookup u q)) = StatusNotFound
        else fst (Get lookup u q) = completion_of r))"
proof -
  have phases: "drawn es = completed es @ handling_uid q @ pending_uid q" "submitted es = set (drawn es)"
    and item: "(q_item q = None) = (q_uid q = [])"
    using queue_inv_run [OF assms(2,3)] by (simp_all add: queue_inv_def)
  have pending: "u \<in> set (pending_uid q) \<longleftrightarrow> u = q_uid q"
    using assms(5) item by (auto simp: pending_uid_def)
  note absent = queue_absent [OF assms(1,2)]
  show ?thesis
  proof (intro conjI impI allI)
    assume "u \<in> set (pending_uid q)"
    moreover from this have "u \<notin> set (completed es)" using phases(1) assms(4) by auto
    ultimately show "cmp_Status (fst (Get lookup u q)) = StatusAccepted"
      using absent pending unfolding Get_answer by simp
  next
    assume "u \<notin> submitted es"
    then have "u \<notin> set (completed es)" "u \<notin> set (pending_uid q)" using phases by auto
    then show "cmp_Status (fst (Get lookup u q)) = StatusNotFound"
      using absent pending unfolding Get_answer by simp
  next
    fix r assume r: "Completed u r \<in> set es"
    then have "u \<notin> set (pending_uid q)" using phases assms(4) completed_iff by fastforce
    then have "u \<noteq> q_uid q" using pending by blast
    moreover have "distinct (completed es)" using phases(1) assms(4) by simp
    from queue_own [OF assms(1,2) this r] have "fst (lookup u (q_store q)) = Some a \<Longrightarrow> a = completion_of r" for a .
    ultimately show "if fst (lookup u (q_store q)) = None then cmp_Status (fst (Get lookup u q)) = StatusNotFound
        else fst (Get lookup u q) = completion_of r"
      unfolding Get_answer by (auto split: option.split)
  qed
qed

text \<open>
  C17. The history is long enough: once a request has completed, its ID is answered with its own result as
  long as fewer than 100 other IDs have been asked for or completed since.
\<close>

theorem queue_result_kept:
  assumes "lru_cache new add lookup size_of"
    and "queue_run add lookup (NewTrailingDelayQueue new delay) (es1 @ Completed u r # es2) q"
    and "[] \<notin> set (drawn (es1 @ Completed u r # es2))" and "distinct (drawn (es1 @ Completed u r # es2))"
    and "card (lru_key ` set (store_ops es2) - {u}) < RequestHistorySize"
  shows "fst (Get lookup u q) = completion_of r"
proof -
  let ?es = "es1 @ Completed u r # es2" and ?c = "fold (do_op add lookup) (store_ops es1) (new RequestHistorySize)"
  have "queue_inv delay ?es q" using assms by (intro queue_inv_run)
  then have "distinct (completed ?es)" using assms(4) by (simp add: queue_inv_def)
  then have "u \<notin> set (completed es2)" by (simp add: completed_def)
  then have "\<forall>op \<in> set (store_ops es2). \<forall>w. op \<noteq> LAdd u w" using store_ops_add completed_iff by blast
  moreover have size: "size_of ?c = RequestHistorySize"
    using lru_cache.size_ops [OF assms(1)] lru_cache.size_new [OF assms(1)] by metis
  ultimately have "fst (lookup u (fold (do_op add lookup) (store_ops es2) (add u (completion_of r) ?c))) = Some (completion_of r)"
    using lru_cache.keeps [OF assms(1), of "store_ops es2" u ?c "completion_of r"] assms(5)
    unfolding do_op_def [abs_def] by simp
  moreover have "q_store q = fold (do_op add lookup) (store_ops es2) (add u (completion_of r) ?c)"
    using queue_run_store [OF assms(2)] by (simp add: store_ops_append NewTrailingDelayQueue_def do_op_def)
  ultimately show ?thesis by (intro Get_stored) simp
qed

text \<open>
  From any moment when the goroutine waits, a submission followed by a tick later than the delay and by the
  return of the handler makes \<open>Get\<close> answer with the handler's result.
\<close>

lemma queue_serves:
  assumes "lru_cache new add lookup size_of" and "0 < size_of (q_store q)"
    and "Submit uuid x t q = (u, q1)" and "now - t > q_delay q"
  shows "q_run (run_take now q1) = Handling x u \<and>
    fst (Get lookup u (run_store add u r (run_take now q1))) = completion_of r"
proof -
  have "q_item q1 = Some x" "q_lastTime q1 = t" "q_uid q1 = u" "q_delay q1 = q_delay q" "q_store q1 = q_store q"
    using assms(3) by (auto simp: Submit_def Let_def split: if_splits)
  then show ?thesis
    using assms(2,4) lru_cache.get_added [OF assms(1), of "q_store q" u "completion_of r"]
    by (auto simp: run_take_def run_store_def intro!: Get_stored)
qed

text \<open>A run in which two requests are merged, handled and asked for.\<close>

type_synonym sample_queue = "(string, (string, string Completion) lru_list) queue"

definition sample_new :: sample_queue where
  "sample_new = NewTrailingDelayQueue lru_new 10"

definition sample_two :: sample_queue where
  "sample_two = snd (Submit ''u2'' ''second'' 5 (snd (Submit ''u1'' ''first'' 0 sample_new)))"

definition sample_done :: sample_queue where
  "sample_done = run_store lru_add ''u1'' (Inr ''data'') (run_take 16 sample_two)"

definition sample_before :: "(string, string) event list" where
  "sample_before = [Submitted ''first'' 0 ''u1'' True, Submitted ''second'' 5 ''u1'' False]"

lemma sample_run_two: "queue_run lru_add lru_get sample_new sample_before sample_two"
proof -
  let ?q1 = "snd (Submit ''u1'' ''first'' 0 sample_new)"
  have "Submit ''u1'' ''first'' 0 sample_new = (''u1'', ?q1)" "Submit ''u2'' ''second'' 5 ?q1 = (''u1'', sample_two)"
    "q_uid sample_new = []" "q_uid ?q1 \<noteq> []"
    by (simp_all add: sample_two_def Submit_def Let_def sample_new_def NewTrailingDelayQueue_def)
  then have "queue_step lru_add lru_get sample_new (Submitted ''first'' 0 ''u1'' True) ?q1"
    "queue_step lru_add lru_get ?q1 (Submitted ''second'' 5 ''u1'' False) sample_two"
    using queue_step.submit by fastforce+
  from queue_run.step [OF queue_run.step [OF queue_run.start this(1)] this(2)]
  show ?thesis by (simp add: sample_before_def)
qed

lemma sample_run_take:
  "queue_run lru_add lru_get sample_new (sample_before @ [Taken ''second'' 16 ''u1'']) (run_take 16 sample_two)"
proof (rule queue_run.step [OF sample_run_two queue_step.take])
  show "q_run sample_two = Selecting" "q_run (run_take 16 sample_two) = Handling ''second'' ''u1''" by code_simp+
qed simp

lemma sample_run_done:
  "queue_run lru_add lru_get sample_new (sample_before @ Taken ''second'' 16 ''u1'' # [Completed ''u1'' (Inr ''data'')]) sample_done"
proof -
  have "q_run (run_take 16 sample_two) = Handling ''second'' ''u1''" by code_simp
  from queue_run.step [OF sample_run_take queue_step.store [OF this]] show ?thesis by (simp add: sample_done_def)
qed

lemma sample_drawn:
  "drawn (sample_before @ Taken ''second'' 16 ''u1'' # es) = ''u1'' # drawn es"
  by (simp add: drawn_def sample_before_def)

theorem queue_takes_last_witness:
  "\<exists>es1 t b es2. sample_before = es1 @ Submitted ''second'' t ''u1'' b # es2 \<and> 16 - t > (10 :: int)"
proof -
  have "[] \<notin> set (drawn (sample_before @ Taken ''second'' 16 ''u1'' # [Completed ''u1'' (Inr ''data'')]))"
    by (simp add: sample_drawn) (simp add: drawn_def)
  from queue_takes_last [OF sample_run_done [unfolded sample_new_def] this refl] show ?thesis by blast
qed

theorem queue_lifecycle_witness:
  "submitted (sample_before @ [Taken ''second'' 16 ''u1'']) = {''u1''} \<and> handling_uid (run_take 16 sample_two) = [''u1'']"
proof -
  have d: "drawn (sample_before @ [Taken ''second'' 16 ''u1'']) = [''u1'']"
    by (simp add: sample_drawn) (simp add: drawn_def)
  have h: "handling_uid (run_take 16 sample_two) = [''u1'']" "pending_uid (run_take 16 sample_two) = []"
    "completed (sample_before @ [Taken ''second'' 16 ''u1'']) = []" by code_simp+
  have ids: "[] \<notin> set [''u1'']" "distinct [''u1'']" by simp_all
  have "submitted (sample_before @ [Taken ''second'' 16 ''u1'']) = set ([] @ [''u1''] @ [])"
    by (rule queue_lifecycle [OF sample_run_take [unfolded sample_new_def], unfolded d h, OF ids, THEN conjunct1])
  then show ?thesis unfolding h(1) by simp
qed

theorem queue_answers_witness:
  "cmp_Status (fst (Get lru_get ''u1'' sample_two)) = 202 \<and>
   cmp_Status (fst (Get lru_get ''u7'' sample_two)) = 404 \<and>
   fst (Get lru_get ''u1'' sample_done) = \<lparr>cmp_Ret = Some ''data'', cmp_Status = 200, cmp_Message = []\<rparr>"
proof -
  let ?es = "sample_before @ [Taken ''second'' 16 ''u1'', Completed ''u1'' (Inr ''data'')]"
  have d: "drawn sample_before = [''u1'']" "drawn ?es = [''u1'']"
    by (simp_all add: drawn_def sample_before_def)
  have ids: "[] \<notin> set [''u1'']" "distinct [''u1'']" by simp_all
  have p: "''u1'' \<in> set (pending_uid sample_two)" by code_simp
  have s: "''u7'' \<notin> submitted sample_before" by (simp add: submitted_def sample_before_def)
  have kept: "fst (lru_get ''u1'' (q_store sample_done)) \<noteq> None" by code_simp
  note two = queue_answers [OF lru.lru_cache_axioms sample_run_two [unfolded sample_new_def], unfolded d, OF ids]
  have "cmp_Status (fst (Get lru_get ''u1'' sample_two)) = 202"
    by (rule two [THEN conjunct1, THEN mp]) (simp, rule p)
  moreover have "cmp_Status (fst (Get lru_get ''u7'' sample_two)) = 404"
    by (rule two [THEN conjunct2, THEN conjunct1, THEN mp]) (simp, rule s)
  moreover have "Completed ''u1'' (Inr ''data'') \<in> set ?es" by simp
  from queue_answers [OF lru.lru_cache_axioms sample_run_done [unfolded sample_new_def append_assoc append.simps], unfolded d, OF ids, of "''u1''",
      THEN conjunct2, THEN conjunct2, rule_format, OF _ this]
  have "fst (Get lru_get ''u1'' sample_done) = completion_of (Inr ''data'')" using kept by simp
  ultimately show ?thesis by (simp add: completion_of_def)
qed

theorem queue_result_kept_witness:
  "fst (Get lru_get ''u1'' sample_done) = \<lparr>cmp_Ret = Some ''data'', cmp_Status = 200, cmp_Message = []\<rparr>"
proof -
  have d: "drawn ((sample_before @ [Taken ''second'' 16 ''u1'']) @ [Completed ''u1'' (Inr ''data'')]) = [''u1'']"
    by (simp add: drawn_def sample_before_def)
  have run: "queue_run lru_add lru_get (NewTrailingDelayQueue lru_new 10)
      ((sample_before @ [Taken ''second'' 16 ''u1'']) @ [Completed ''u1'' (Inr ''data'')]) sample_done"
    using sample_run_done by (simp add: sample_new_def)
  show ?thesis
    using queue_result_kept [OF lru.lru_cache_axioms run] unfolding d
    by (simp add: RequestHistorySize_def completion_of_def)
qed

end
