(* ===== verification/Httpreq.thy ===== *)
theory Httpreq
  imports Prelude Httperr
begin

text \<open>
  \<open>internal/httpreq/httpreq.go\<close>: HTTP requests with retries. The locale \<open>retry_loop\<close> states
  what a loop of attempts is and proves what it does; it is interpreted on the loop of
  \<open>DoRequestWithRetries\<close> here and on the one of \<open>processRequestWithRetries\<close> in theory
  \<open>Server\<close>.

  The network and the clock are a state that the calls thread: \<open>send\<close> is \<open>client.Do\<close> followed by
  reading the body, \<open>clock\<close> reads the time. Parsing an HTTP date, and parsing, printing and encoding a
  URL are arguments. The sleeps are recorded in a list. Durations are integers in nanoseconds.
\<close>

section \<open>Durations\<close>

abbreviation Millisecond :: int where "Millisecond \<equiv> 1000000"
abbreviation Second :: int where "Second \<equiv> 1000000000"
abbreviation Minute :: int where "Minute \<equiv> 60000000000"

definition maxRetries :: nat where
  "maxRetries = 5"

definition baseDelay :: int where
  "baseDelay = 500 * Millisecond"

definition maxRetryAfter :: int where
  "maxRetryAfter = 5 * Minute"

section \<open>Retry policy\<close>

definition ShouldRetry :: "nat \<Rightarrow> bool" where
  "ShouldRetry status \<longleftrightarrow>
     status \<in> {StatusRequestTimeout, StatusTooManyRequests, StatusInternalServerError, StatusBadGateway,
       StatusServiceUnavailable, StatusGatewayTimeout}"

text \<open>A response: the headers under their canonical keys, and what reading the body gives.\<close>

record response =
  resp_StatusCode :: nat
  resp_Header :: "(string, string list) gomap"
  resp_Body :: "string res"

definition header_get :: "response \<Rightarrow> string \<Rightarrow> string" where
  "header_get resp key = (case mget0 [] (resp_Header resp) key of [] \<Rightarrow> [] | v # _ \<Rightarrow> v)"

definition ParseRetryAfter :: "(string \<Rightarrow> int option) \<Rightarrow> int \<Rightarrow> response option \<Rightarrow> int \<times> bool" where
  "ParseRetryAfter parse_time now resp =
     (case resp of
        None \<Rightarrow> (0, False)
      | Some resp \<Rightarrow>
          let value = header_get resp ''Retry-After''
          in if length value = 0 then (0, False)
             else
               (case strconv_atoi value of (seconds, ok) \<Rightarrow>
                  if ok \<and> seconds \<ge> 0
                  then if seconds > maxRetryAfter div Second then (maxRetryAfter, True) else (seconds * Second, True)
                  else
                    (case parse_time value of
                       Some t \<Rightarrow>
                         let delay = t - now
                         in if delay > 0 then (if delay > maxRetryAfter then maxRetryAfter else delay, True)
                            else (0, False)
                     | None \<Rightarrow> (0, False))))"

definition GetNextBackoff :: "(string \<Rightarrow> int option) \<Rightarrow> int \<Rightarrow> response option \<Rightarrow> int \<Rightarrow> nat \<Rightarrow> int" where
  "GetNextBackoff parse_time now resp initialBackoff attempt =
     (case ParseRetryAfter parse_time now resp of (wait, valid) \<Rightarrow>
        if \<not> valid then wrap64 (initialBackoff * 2 ^ attempt) else wait)"

lemma ParseRetryAfter_range:
  "ParseRetryAfter parse_time now resp = (wait, valid) \<Longrightarrow> 0 \<le> wait \<and> wait \<le> maxRetryAfter"
  by (auto simp: ParseRetryAfter_def maxRetryAfter_def Let_def split: option.splits prod.splits if_splits)

lemma GetNextBackoff_range:
  assumes "0 \<le> d" and "d * 2 ^ k \<le> maxRetryAfter" and "i \<le> k"
  shows "0 \<le> GetNextBackoff parse_time now resp d i \<and> GetNextBackoff parse_time now resp d i \<le> maxRetryAfter"
proof -
  have "d * 2 ^ i \<le> d * 2 ^ k" using assms(1,3) by (intro mult_left_mono power_increasing) auto
  then have "0 \<le> d * 2 ^ i" "d * 2 ^ i \<le> maxRetryAfter" using assms by auto
  moreover from this have "wrap64 (d * 2 ^ i) = d * 2 ^ i"
    by (intro wrap64_id) (auto simp: min_int64_def max_int64_def maxRetryAfter_def)
  ultimately show ?thesis
    using ParseRetryAfter_range [of parse_time now resp]
    by (auto simp: GetNextBackoff_def split: prod.split)
qed

section \<open>Loops of attempts\<close>

text \<open>
  \<open>good\<close> outcomes end the loop, and so does the last attempt; before any other attempt it sleeps as
  long as \<open>wait\<close> says, which may depend on the outcome, the state after it and the attempts before it.
\<close>

locale retry_loop =
  fixes loop :: "nat \<Rightarrow> int list \<Rightarrow> 's \<Rightarrow> ('r \<times> int list \<times> 's) option"
    and call :: "'s \<Rightarrow> 'r \<times> 's" and good :: "'r \<Rightarrow> bool" and wait :: "'r \<Rightarrow> 's \<Rightarrow> nat \<Rightarrow> int"
    and limit :: nat
  assumes loop: "loop attempt sleeps s =
    (case call s of (r, s) \<Rightarrow>
       if good r \<or> Suc attempt = limit then Some (r, sleeps, s)
       else loop (Suc attempt) (sleeps @ [wait r s attempt]) s)"
begin

definition state_after :: "nat \<Rightarrow> 's \<Rightarrow> 's" where
  "state_after n s = ((\<lambda>s. snd (call s)) ^^ n) s"

definition outcome :: "nat \<Rightarrow> 's \<Rightarrow> 'r" where
  "outcome n s = fst (call (state_after n s))"

lemma state_after_simps: "state_after 0 s = s" "state_after (Suc n) s = state_after n (snd (call s))"
  by (simp_all add: state_after_def funpow_Suc_right del: funpow.simps(2))

lemma outcome_Suc: "outcome (Suc n) s = outcome n (snd (call s))"
  by (simp add: outcome_def state_after_simps)

lemma loop_returns:
  assumes "attempt < limit"
  shows "\<exists>n. attempt + n < limit \<and> (\<forall>i < n. \<not> good (outcome i s)) \<and> (good (outcome n s) \<or> Suc (attempt + n) = limit) \<and>
    loop attempt sleeps s =
      Some (outcome n s, sleeps @ map (\<lambda>i. wait (outcome i s) (state_after (Suc i) s) (attempt + i)) [0..<n],
            state_after (Suc n) s)"
  using assms
proof (induction "limit - attempt" arbitrary: attempt sleeps s)
  case (Suc m)
  obtain r s' where call: "call s = (r, s')" by (cases "call s")
  show ?case
  proof (cases "good r \<or> Suc attempt = limit")
    case True
    then have "loop attempt sleeps s = Some (r, sleeps, s')" by (subst loop) (simp add: call)
    then show ?thesis
      using True Suc.prems by (intro exI [of _ 0]) (simp add: outcome_def state_after_simps call)
  next
    case False
    then have next_loop: "loop attempt sleeps s = loop (Suc attempt) (sleeps @ [wait r s' attempt]) s'"
      by (subst loop) (simp add: call)
    have "m = limit - Suc attempt" "Suc attempt < limit" using False Suc.prems Suc.hyps(2) by simp_all
    from Suc.hyps(1) [OF this, of s' "sleeps @ [wait r s' attempt]"]
    obtain n where n: "Suc attempt + n < limit" "\<forall>i < n. \<not> good (outcome i s')"
      "good (outcome n s') \<or> Suc (Suc attempt + n) = limit"
      "loop (Suc attempt) (sleeps @ [wait r s' attempt]) s' =
        Some (outcome n s', (sleeps @ [wait r s' attempt]) @
          map (\<lambda>i. wait (outcome i s') (state_after (Suc i) s') (Suc attempt + i)) [0..<n], state_after (Suc n) s')"
      by blast
    have out: "outcome (Suc i) s = outcome i s'" "state_after (Suc i) s = state_after i s'" for i
      by (simp_all add: outcome_Suc state_after_simps call)
    have zero: "outcome 0 s = r" by (simp add: outcome_def state_after_simps call)
    have "\<forall>i < Suc n. \<not> good (outcome i s)"
      using n(2) False zero out(1) by (auto simp: less_Suc_eq_0_disj)
    moreover have "map (\<lambda>i. wait (outcome i s) (state_after (Suc i) s) (attempt + i)) [0..<Suc n] =
        wait r s' attempt # map (\<lambda>i. wait (outcome i s') (state_after (Suc i) s') (Suc attempt + i)) [0..<n]"
      by (simp only: upt_conv_Cons [OF zero_less_Suc] list.map map_Suc_upt [symmetric] map_map comp_def out zero
          state_after_simps(1) add_0_right add_Suc_right add_Suc)
    ultimately show ?thesis
      using n(1,3,4) by (intro exI [of _ "Suc n"]) (simp only: next_loop out append_assoc append_Cons append_Nil add_Suc_right add_Suc simp_thms)
  qed
qed simp

end

section \<open>Requests\<close>

definition DoRequest ::
  "('q \<Rightarrow> 's \<Rightarrow> (string \<times> response option + response) \<times> 's) \<Rightarrow> ('s \<Rightarrow> 'q http_res \<times> 's) \<Rightarrow> 's \<Rightarrow>
   (response option \<times> string \<times> http_error option) \<times> 's" where
  "DoRequest send f s =
     (case f s of
        (Inl httpErr, s) \<Rightarrow> ((None, [], Some httpErr), s)
      | (Inr req, s) \<Rightarrow>
          (case send req s of
             (Inl (err, resp), s) \<Rightarrow>
               (let code = (case resp of Some resp \<Rightarrow> resp_StatusCode resp | None \<Rightarrow> StatusBadGateway)
                in ((resp, [], Some (NewError code err)), s))
           | (Inr resp, s) \<Rightarrow>
               (case resp_Body resp of
                  Inl err \<Rightarrow>
                    ((Some resp, [], Some (NewError StatusInternalServerError (''failed to read HTTP response: '' @ err))), s)
                | Inr body \<Rightarrow>
                    if resp_StatusCode resp \<ge> 200 \<and> resp_StatusCode resp < 300 then ((Some resp, body, None), s)
                    else ((Some resp, body, Some (NewError (resp_StatusCode resp) body)), s))))"

definition final_outcome :: "response option \<times> string \<times> http_error option \<Rightarrow> bool" where
  "final_outcome r = (case r of (resp, body, err) \<Rightarrow>
     (case err of None \<Rightarrow> True | Some err \<Rightarrow> \<not> ShouldRetry (Error_Code err)))"

partial_function (option) request_loop ::
  "('q \<Rightarrow> 's \<Rightarrow> (string \<times> response option + response) \<times> 's) \<Rightarrow> ('s \<Rightarrow> 'q http_res \<times> 's) \<Rightarrow>
   (string \<Rightarrow> int option) \<Rightarrow> ('s \<Rightarrow> int) \<Rightarrow> nat \<Rightarrow> int list \<Rightarrow> 's \<Rightarrow>
   ((response option \<times> string \<times> http_error option) \<times> int list \<times> 's) option" where
  "request_loop send f parse_time clock attempt sleeps s =
     (case DoRequest send f s of (r, s) \<Rightarrow>
        if final_outcome r \<or> Suc attempt = maxRetries then Some (r, sleeps, s)
        else request_loop send f parse_time clock (Suc attempt)
               (sleeps @ [GetNextBackoff parse_time (clock s) (fst r) baseDelay attempt]) s)"

declare request_loop.simps [code]

definition DoRequestWithRetries ::
  "('q \<Rightarrow> 's \<Rightarrow> (string \<times> response option + response) \<times> 's) \<Rightarrow> ('s \<Rightarrow> 'q http_res \<times> 's) \<Rightarrow>
   (string \<Rightarrow> int option) \<Rightarrow> ('s \<Rightarrow> int) \<Rightarrow> 's \<Rightarrow> ((string \<times> http_error option) \<times> int list \<times> 's) option" where
  "DoRequestWithRetries send f parse_time clock s =
     map_option (\<lambda>((resp, body, err), sleeps, s). ((body, err), sleeps, s))
       (request_loop send f parse_time clock 0 [] s)"

interpretation http: retry_loop "request_loop send f parse_time clock" "DoRequest send f" final_outcome
  "\<lambda>r s i. GetNextBackoff parse_time (clock s) (fst r) baseDelay i" maxRetries
  for send f parse_time clock
  by unfold_locales (rule request_loop.simps)

section \<open>URLs\<close>

text \<open>\<open>path.Clean\<close>: the segments of a path, the last one first.\<close>

fun clean_segments :: "bool \<Rightarrow> string list \<Rightarrow> string list \<Rightarrow> string list" where
  "clean_segments rooted [] acc = acc"
| "clean_segments rooted (x # xs) acc =
     (if x = [] \<or> x = ''.'' then clean_segments rooted xs acc
      else if x = ''..''
      then (case acc of
              [] \<Rightarrow> clean_segments rooted xs (if rooted then [] else [''..''])
            | y # ys \<Rightarrow> if y = ''..'' then clean_segments rooted xs (x # acc) else clean_segments rooted xs ys)
      else clean_segments rooted xs (x # acc))"

definition path_Clean :: "string \<Rightarrow> string" where
  "path_Clean p =
     (if p = [] then ''.''
      else let rooted = (hd p = CHR ''/'');
               body = join ''/'' (rev (clean_segments rooted (split_on (CHR ''/'') p) []))
           in if rooted then CHR ''/'' # body else if body = [] then ''.'' else body)"

definition path_Join :: "string list \<Rightarrow> string" where
  "path_Join elems =
     (case dropWhile (\<lambda>e. e = []) elems of [] \<Rightarrow> [] | es \<Rightarrow> path_Clean (join ''/'' es))"

text \<open>A URL: what comes before the path, the path, and the raw query.\<close>

record url =
  url_Base :: string
  url_Path :: string
  url_RawQuery :: string

definition GetURL ::
  "(string \<Rightarrow> url res) \<Rightarrow> (url \<Rightarrow> string) \<Rightarrow> (string \<Rightarrow> (string, string list) gomap) \<Rightarrow>
   ((string, string list) gomap \<Rightarrow> string) \<Rightarrow> string \<Rightarrow> (string, string) gomap \<Rightarrow> string list \<Rightarrow> string http_res" where
  "GetURL parse print values encode baseURL query paths =
     (case parse baseURL of
        Inl err \<Rightarrow> Inl (NewError StatusBadRequest err)
      | Inr u \<Rightarrow>
          let u = u\<lparr>url_Path := path_Join (url_Path u # paths)\<rparr>;
              u = (if length query \<noteq> 0
                   then u\<lparr>url_RawQuery := encode (fold (\<lambda>(key, val). mput key [val]) query (values (url_RawQuery u)))\<rparr>
                   else u)
          in Inr (print u))"

record http_request =
  hr_Method :: string
  hr_URL :: string
  hr_Header :: "(string, string list) gomap"
  hr_Payload :: string

definition GetRequestFunc ::
  "(string \<Rightarrow> string http_res) \<Rightarrow> (string \<Rightarrow> string \<Rightarrow> string res) \<Rightarrow> (string \<Rightarrow> string) \<Rightarrow> string \<Rightarrow> (string, string) gomap \<Rightarrow>
   string \<Rightarrow> string \<Rightarrow> http_request http_res" where
  "GetRequestFunc get_url new_request canonical meth headers payload baseUrl =
     (case get_url baseUrl of
        Inl httpErr \<Rightarrow> Inl httpErr
      | Inr u \<Rightarrow>
          (case new_request meth u of
             Inl err \<Rightarrow> Inl (NewError StatusInternalServerError (''failed to create HTTP request: '' @ err))
           | Inr u \<Rightarrow>
               Inr \<lparr>hr_Method = meth, hr_URL = u,
                    hr_Header = fold (\<lambda>(key, val) h. mput (canonical key) (mget0 [] h (canonical key) @ [val]) h) headers [],
                    hr_Payload = payload\<rparr>))"

section \<open>Properties\<close>

text \<open>
  Requests with retries end: there are at most five attempts, all but the last one failed with a status
  that is worth retrying, the last one succeeded or failed for good or was the fifth; what is returned is
  its body and error. Before each further attempt there was one sleep, of at most five minutes.
\<close>

theorem DoRequestWithRetries_returns:
  "\<exists>n sleeps. n < 5 \<and> length sleeps = n \<and> (\<forall>w \<in> set sleeps. 0 \<le> w \<and> w \<le> 5 * Minute) \<and>
    (\<forall>i < n. \<not> final_outcome (retry_loop.outcome (DoRequest send f) i s)) \<and> (final_outcome (retry_loop.outcome (DoRequest send f) n s) \<or> n = 4) \<and>
    DoRequestWithRetries send f parse_time clock s =
      Some (snd (retry_loop.outcome (DoRequest send f) n s), sleeps, retry_loop.state_after (DoRequest send f) (Suc n) s)"
proof -
  have "0 < maxRetries" by (simp add: maxRetries_def)
  from http.loop_returns [OF this, where send = send and f = f and parse_time = parse_time and clock = clock and sleeps = "[]" and s = s] obtain n where
    n: "0 + n < maxRetries" "\<forall>i < n. \<not> final_outcome (retry_loop.outcome (DoRequest send f) i s)"
      "final_outcome (retry_loop.outcome (DoRequest send f) n s) \<or> Suc (0 + n) = maxRetries"
    and loop: "request_loop send f parse_time clock 0 [] s = Some (retry_loop.outcome (DoRequest send f) n s, [] @
        map (\<lambda>i. GetNextBackoff parse_time (clock (retry_loop.state_after (DoRequest send f) (Suc i) s)) (fst (retry_loop.outcome (DoRequest send f) i s)) baseDelay (0 + i)) [0..<n],
        retry_loop.state_after (DoRequest send f) (Suc n) s)" (is "_ = Some (_, [] @ ?sleeps, _)")
    by (elim exE conjE)
  have "0 \<le> GetNextBackoff parse_time now resp baseDelay i \<and> GetNextBackoff parse_time now resp baseDelay i \<le> 5 * Minute"
    if "i < n" for now resp i
    using GetNextBackoff_range [of baseDelay 4 i parse_time now resp] that n(1)
    by (simp add: baseDelay_def maxRetryAfter_def maxRetries_def)
  then have "\<forall>w \<in> set ?sleeps. 0 \<le> w \<and> w \<le> 5 * Minute" by auto
  moreover have "DoRequestWithRetries send f parse_time clock s =
      Some (snd (retry_loop.outcome (DoRequest send f) n s), ?sleeps, retry_loop.state_after (DoRequest send f) (Suc n) s)"
    unfolding DoRequestWithRetries_def loop by (cases "retry_loop.outcome (DoRequest send f) n s") simp
  ultimately show ?thesis
    using n by (intro exI [of _ n] exI [of _ ?sleeps]) (simp add: maxRetries_def)
qed

text \<open>A server that is unavailable twice, and says once for how long.\<close>

definition flaky_send :: "unit \<Rightarrow> nat \<Rightarrow> (string \<times> response option + response) \<times> nat" where
  "flaky_send _ n =
     (Inr (if n = 0 then \<lparr>resp_StatusCode = 503, resp_Header = [(''Retry-After'', [''7''])], resp_Body = Inr []\<rparr>
           else if n = 1 then \<lparr>resp_StatusCode = 503, resp_Header = [], resp_Body = Inr []\<rparr>
           else \<lparr>resp_StatusCode = 200, resp_Header = [], resp_Body = Inr ''done''\<rparr>), Suc n)"

definition flaky_request :: "nat \<Rightarrow> unit http_res \<times> nat" where
  "flaky_request n = (Inr (), n)"

theorem DoRequestWithRetries_returns_witness:
  "\<exists>n sleeps. n < 5 \<and> length sleeps = n \<and>
    DoRequestWithRetries flaky_send flaky_request (\<lambda>_. None) (\<lambda>_. 0) 0 =
      Some (snd (retry_loop.outcome (DoRequest flaky_send flaky_request) n 0), sleeps, retry_loop.state_after (DoRequest flaky_send flaky_request) (Suc n) 0) \<and>
    sleeps = [7 * Second, 1 * Second]"
proof -
  have run: "request_loop flaky_send flaky_request (\<lambda>_. None) (\<lambda>_. 0) 0 [] 0 =
      Some ((Some \<lparr>resp_StatusCode = 200, resp_Header = [], resp_Body = Inr ''done''\<rparr>, ''done'', None),
        [7 * Second, 1 * Second], 3)"
    by code_simp
  then have "DoRequestWithRetries flaky_send flaky_request (\<lambda>_. None) (\<lambda>_. 0) 0 =
      Some ((''done'', None), [7 * Second, 1 * Second], 3)"
    by (simp add: DoRequestWithRetries_def)
  then show ?thesis
    using DoRequestWithRetries_returns [of flaky_send flaky_request 0 "\<lambda>_. None" "\<lambda>_. 0"] by auto
qed

text \<open>
  The wait before a retry: a valid number of seconds in the header is honoured up to five minutes,
  a date in the future likewise; anything else falls back to the base delay doubled with every attempt.
\<close>

theorem GetNextBackoff_spec:
  assumes "0 \<le> d" and "d * 2 ^ attempt \<le> max_int64"
  shows "GetNextBackoff parse_time now (Some resp) d attempt =
    (let value = header_get resp ''Retry-After''; (seconds, ok) = strconv_atoi value
     in if value \<noteq> [] \<and> ok \<and> 0 \<le> seconds then min (seconds * Second) maxRetryAfter
        else if value \<noteq> [] \<and> (\<exists>t. parse_time value = Some t \<and> now < t)
        then min (the (parse_time value) - now) maxRetryAfter
        else d * 2 ^ attempt)"
proof -
  have wrap: "wrap64 (d * 2 ^ attempt) = d * 2 ^ attempt"
  proof (rule wrap64_id)
    have "0 \<le> d * 2 ^ attempt" using assms(1) by simp
    then show "min_int64 \<le> d * 2 ^ attempt" by (simp add: min_int64_def)
  qed (rule assms(2))
  obtain hdr seconds ok where hdr: "header_get resp ''Retry-After'' = hdr" "strconv_atoi hdr = (seconds, ok)"
    by (cases "strconv_atoi (header_get resp ''Retry-After'')") blast
  have cap: "(if seconds > maxRetryAfter div Second then maxRetryAfter else seconds * Second) = min (seconds * Second) maxRetryAfter"
    by (simp add: maxRetryAfter_def min_def)
  have until: "(if t - now > maxRetryAfter then maxRetryAfter else t - now) = min (t - now) maxRetryAfter" for t
    by (simp add: min_def)
  show ?thesis
  proof (cases "hdr = []")
    case True
    then show ?thesis by (simp add: GetNextBackoff_def ParseRetryAfter_def hdr(1) wrap Let_def split: prod.split)
  next
    case filled: False
    show ?thesis
    proof (cases "ok \<and> 0 \<le> seconds")
      case True
      then show ?thesis
        using cap filled by (auto simp: GetNextBackoff_def ParseRetryAfter_def hdr)
    next
      case False
      then show ?thesis
        using filled until
        by (cases "parse_time hdr") (auto simp: GetNextBackoff_def ParseRetryAfter_def hdr wrap Let_def)
    qed
  qed
qed

theorem GetNextBackoff_spec_witness:
  "GetNextBackoff (\<lambda>_. None) 0 (Some \<lparr>resp_StatusCode = 429, resp_Header = [(''Retry-After'', [''500''])], resp_Body = Inr []\<rparr>)
     baseDelay 3 = 5 * Minute"
proof -
  have "0 \<le> baseDelay" "baseDelay * 2 ^ 3 \<le> max_int64" by (simp_all add: baseDelay_def max_int64_def)
  moreover have "strconv_atoi ''500'' = (500, True)" by code_simp
  ultimately show ?thesis
    using GetNextBackoff_spec [of baseDelay 3 "\<lambda>_. None" 0
      "\<lparr>resp_StatusCode = 429, resp_Header = [(''Retry-After'', [''500''])], resp_Body = Inr []\<rparr>"]
    by (simp add: header_get_def mget0_def maxRetryAfter_def)
qed

end
