(* ===== verification/Registry.thy ===== *)
theory Registry
  imports Prelude Httperr Topology
begin

text \<open>
  \<open>internal/component/component.go\<close> (registries of loaders by name), the interfaces and registries of
  \<open>pkg/engines/engines.go\<close> and \<open>pkg/providers/providers.go\<close> with its parser of \<open>pdsh\<close>
  output, and the lists of \<open>pkg/registry/registry.go\<close>.

  Engines, providers and loaders talk to other systems; a call is a function on the state \<open>'s\<close> of
  those systems that returns a result and the state after it. What the loaders of the single packages do is an
  argument of the registries.
\<close>

section \<open>Calls\<close>

type_synonym ('s, 'a) call = "'s \<Rightarrow> 'a http_res \<times> 's"

definition then_call :: "('s, 'a) call \<Rightarrow> ('a \<Rightarrow> ('s, 'b) call) \<Rightarrow> ('s, 'b) call" where
  "then_call c f s = (case c s of (Inl err, s) \<Rightarrow> (Inl err, s) | (Inr x, s) \<Rightarrow> f x s)"

definition return_call :: "'a http_res \<Rightarrow> ('s, 'a) call" where
  "return_call r s = (r, s)"

lemma then_call_simps [simp]:
  "then_call (return_call (Inl err)) f s = (Inl err, s)"
  "then_call (return_call (Inr x)) f s = f x s"
  by (simp_all add: then_call_def return_call_def)

lemma then_call_Inl: "c s = (Inl err, s') \<Longrightarrow> then_call c f s = (Inl err, s')"
  by (simp add: then_call_def)

lemma then_call_Inr: "c s = (Inr x, s') \<Longrightarrow> then_call c f s = f x s'"
  by (simp add: then_call_def)

text \<open>A call that panics, or does not return, or returns; \<open>lift_call\<close> is one that does not.\<close>

type_synonym ('s, 'a) pcall = "'s \<Rightarrow> 'a http_res option \<times> 's"

definition lift_call :: "('s, 'a) call \<Rightarrow> ('s, 'a) pcall" where
  "lift_call c s = (case c s of (r, s) \<Rightarrow> (Some r, s))"

definition then_pcall :: "('s, 'a) pcall \<Rightarrow> ('a \<Rightarrow> ('s, 'b) pcall) \<Rightarrow> ('s, 'b) pcall" where
  "then_pcall c f s =
     (case c s of (None, s) \<Rightarrow> (None, s) | (Some (Inl err), s) \<Rightarrow> (Some (Inl err), s) | (Some (Inr x), s) \<Rightarrow> f x s)"

section \<open>Registries of loaders\<close>

type_synonym ('s, 't, 'c) loader = "'c \<Rightarrow> ('s, 't) call"
type_synonym ('s, 't, 'c) registry = "(string, ('s, 't, 'c) loader) gomap"

definition Named :: "string \<Rightarrow> ('s, 't, 'c) loader \<Rightarrow> string \<times> ('s, 't, 'c) loader" where
  "Named name loader = (name, loader)"

definition Register :: "(string \<times> ('s, 't, 'c) loader) list \<Rightarrow> ('s, 't, 'c) registry \<Rightarrow> ('s, 't, 'c) registry" where
  "Register namedLoaders r = fold (\<lambda>(name, loader). mput name loader) namedLoaders r"

definition NewRegistry :: "(string \<times> ('s, 't, 'c) loader) list \<Rightarrow> ('s, 't, 'c) registry" where
  "NewRegistry namedLoaders = Register namedLoaders []"

text \<open>Looking up a name finds the last loader registered under it.\<close>

lemma map_of_Register: "map_of (Register ls r) name = (map_of r ++ map_of (rev ls)) name"
proof (induction ls arbitrary: r)
  case (Cons l ls)
  obtain n f where "l = (n, f)" by (cases l)
  then show ?case
    using Cons.IH [of "mput n f r"]
    by (auto simp: Register_def update_conv' map_add_def split: option.split)
qed (simp add: Register_def)

lemma NewRegistry_keys: "map_of (NewRegistry ls) name \<noteq> None \<longleftrightarrow> name \<in> fst ` set ls"
  by (simp add: NewRegistry_def map_of_Register map_add_def map_of_eq_None_iff del: not_None_eq split: option.split)

section \<open>Engines and providers\<close>

record 's Provider =
  prv_GenerateTopologyConfig :: "int option \<Rightarrow> compute_instances list \<Rightarrow> ('s, vertex) call"
  prv_GetComputeInstances :: "('s, compute_instances list) call option"

record ('s, 'v) Engine =
  eng_GetComputeInstances :: "'s Provider \<Rightarrow> ('s, compute_instances list) call"
  eng_GenerateOutput :: "vertex \<Rightarrow> (string, 'v) gomap \<Rightarrow> ('s, string) call"

record 'v provider_config =
  pc_Creds :: "(string, string) gomap"
  pc_Params :: "(string, 'v) gomap"

type_synonym ('s, 'v) engine_registry = "('s, ('s, 'v) Engine, (string, 'v) gomap) registry"
type_synonym ('s, 'v) provider_registry = "('s, 's Provider, 'v provider_config) registry"

definition Engines_Get :: "('s, 'v) engine_registry \<Rightarrow> string \<Rightarrow> ('s, ('s, 'v) Engine, (string, 'v) gomap) loader http_res" where
  "Engines_Get r name =
     (case map_of r name of
        None \<Rightarrow> Inl (NewError StatusBadRequest (''unsupported engine '' @ quote name))
      | Some loader \<Rightarrow> Inr loader)"

definition Providers_Get :: "('s, 'v) provider_registry \<Rightarrow> string \<Rightarrow> ('s, 's Provider, 'v provider_config) loader http_res" where
  "Providers_Get r name =
     (case map_of r name of
        None \<Rightarrow> Inl (NewError StatusBadRequest (''unsupported provider '' @ quote name))
      | Some loader \<Rightarrow> Inr loader)"

text \<open>The registries of the program.\<close>

definition provider_names :: "string list" where
  "provider_names =
     [''aws'', ''aws-sim'', ''crusoe'', ''crusoe-sim'', ''infiniband-bm'', ''infiniband-k8s'', ''cw'', ''dra'', ''gcp'',
      ''gcp-sim'', ''oci'', ''oci-imds'', ''oci-sim'', ''nebius'', ''netq'', ''lambdai'', ''test'']"

definition engine_names :: "string list" where
  "engine_names = [''k8s'', ''slurm'', ''slinky'']"

definition Providers :: "(string \<Rightarrow> ('s, 's Provider, 'v provider_config) loader) \<Rightarrow> ('s, 'v) provider_registry" where
  "Providers loader_of = NewRegistry (map (\<lambda>name. Named name (loader_of name)) provider_names)"

definition Engines :: "(string \<Rightarrow> ('s, ('s, 'v) Engine, (string, 'v) gomap) loader) \<Rightarrow> ('s, 'v) engine_registry" where
  "Engines loader_of = NewRegistry (map (\<lambda>name. Named name (loader_of name)) engine_names)"

lemma Providers_known: "map_of (Providers loader_of) name \<noteq> None \<longleftrightarrow> name \<in> set provider_names"
  by (simp add: Providers_def NewRegistry_keys Named_def image_image del: not_None_eq)

lemma Engines_known: "map_of (Engines loader_of) name \<noteq> None \<longleftrightarrow> name \<in> set engine_names"
  by (simp add: Engines_def NewRegistry_keys Named_def image_image del: not_None_eq)

section \<open>Files and the output of pdsh\<close>

definition ReadFile :: "(string \<Rightarrow> string res) \<Rightarrow> string \<Rightarrow> string res" where
  "ReadFile read_file path =
     (case read_file path of
        Inl err \<Rightarrow> Inl (''failed to read '' @ path @ '': '' @ err)
      | Inr data \<Rightarrow> Inr data)"

text \<open>The lines of a text as \<open>bufio.ScanLines\<close> gives them: no empty last line, no carriage return.\<close>

definition drop_cr :: "string \<Rightarrow> string" where
  "drop_cr s = (if s \<noteq> [] \<and> last s = CHR 0x0D then butlast s else s)"

definition scan_lines :: "string \<Rightarrow> string list" where
  "scan_lines text =
     (let ls = split_on (CHR 0x0A) text in map drop_cr (if last ls = [] then butlast ls else ls))"

text \<open>
  The scanner fails on a line of 64 kB or more; \<open>max_token\<close> is this bound, and what was read before
  is dropped with the error.
\<close>

definition max_token :: nat where
  "max_token = 65536"

text \<open>The text of lines that a scanner reads back as they are.\<close>

definition text_of :: "string list \<Rightarrow> string" where
  "text_of ls = concat (map (\<lambda>l. l @ [CHR 0x0A]) ls)"

definition line_ok :: "string \<Rightarrow> bool" where
  "line_ok l \<longleftrightarrow> CHR 0x0A \<notin> set l \<and> drop_cr l = l \<and> length l < max_token"

lemma split_text_of: "\<forall>l \<in> set ls. line_ok l \<Longrightarrow> split_on (CHR 0x0A) (text_of ls) = ls @ [[]]"
proof (induction ls)
  case (Cons l ls)
  then have "CHR 0x0A \<notin> set l" by (simp add: line_ok_def)
  from split_on_append [OF this, of "text_of ls"] Cons show ?case by (simp add: text_of_def)
qed (simp add: text_of_def)

lemma scan_text_of:
  assumes "\<forall>l \<in> set ls. line_ok l"
  shows "scan_lines (text_of ls) = ls"
    and "\<not> (\<exists>l \<in> set (split_on (CHR 0x0A) (text_of ls)). max_token \<le> length l)"
proof -
  have "map drop_cr ls = ls" using assms by (intro map_idI) (simp add: line_ok_def)
  then show "scan_lines (text_of ls) = ls" by (simp add: scan_lines_def split_text_of [OF assms])
  show "\<not> (\<exists>l \<in> set (split_on (CHR 0x0A) (text_of ls)). max_token \<le> length l)"
    using assms unfolding split_text_of [OF assms] by (auto simp: line_ok_def max_token_def)
qed

definition pdsh_line :: "bool \<Rightarrow> string \<Rightarrow> (string, string) gomap \<Rightarrow> (string, string) gomap" where
  "pdsh_line direct line res =
     (case split_str '': '' line of
        [node, attr] \<Rightarrow> if direct then mput node attr res else mput attr node res
      | _ \<Rightarrow> res)"

definition ParsePdshOutput :: "string \<Rightarrow> bool \<Rightarrow> (string, string) gomap res" where
  "ParsePdshOutput buff direct =
     (if \<exists>l \<in> set (split_on (CHR 0x0A) buff). max_token \<le> length l then Inl ''bufio.Scanner: token too long''
      else Inr (fold (pdsh_line direct) (scan_lines buff) []))"

definition ParseInstanceOutput :: "string \<Rightarrow> (string, string) gomap res" where
  "ParseInstanceOutput buff = ParsePdshOutput buff False"

text \<open>What a line of the form \<open>node: attr\<close> contributes.\<close>

lemma split_colon:
  assumes "CHR '':'' \<notin> set node" and "CHR '':'' \<notin> set attr"
  shows "split_str '': '' (node @ '': '' @ attr) = [node, attr]"
proof -
  have none: "CHR '':'' \<notin> set xs \<Longrightarrow> cut '': '' xs = None" for xs
    by (induction xs) auto
  have "CHR '':'' \<notin> set xs \<Longrightarrow> cut '': '' (xs @ '': '' @ attr) = Some (xs, attr)" for xs
    by (induction xs) auto
  from this [OF assms(1)] show ?thesis
    by (subst split_str.simps) (simp, subst split_str.simps, simp add: none [OF assms(2)])
qed

definition pdsh_text :: "(string \<times> string) list \<Rightarrow> string" where
  "pdsh_text entries = concat (map (\<lambda>(node, attr). node @ '': '' @ attr @ newline) entries)"

definition pdsh_word :: "string \<Rightarrow> bool" where
  "pdsh_word w \<longleftrightarrow> CHR '':'' \<notin> set w \<and> CHR 0x0A \<notin> set w \<and> CHR 0x0D \<notin> set w \<and> length w < 1000"

lemma split_pdsh_text:
  assumes "\<forall>(node, attr) \<in> set entries. pdsh_word node \<and> pdsh_word attr"
  shows "split_on (CHR 0x0A) (pdsh_text entries) = map (\<lambda>(node, attr). node @ '': '' @ attr) entries @ [[]]"
  using assms
proof (induction entries)
  case (Cons e entries)
  obtain node attr where e: "e = (node, attr)" by (cases e)
  have "CHR 0x0A \<notin> set (node @ '': '' @ attr)" using Cons.prems by (auto simp: e pdsh_word_def)
  from split_on_append [OF this, of "pdsh_text entries"] Cons show ?case
    by (simp add: e pdsh_text_def newline_def)
qed (simp add: pdsh_text_def)

text \<open>
  Parsing \<open>pdsh\<close> output is a round trip: from one line per node the parser reads back the map from
  nodes to attributes, or from attributes to nodes, in which a later line overrides an earlier one.
\<close>

theorem ParsePdshOutput_lines:
  assumes "\<forall>(node, attr) \<in> set entries. pdsh_word node \<and> pdsh_word attr"
  shows "\<exists>m. ParsePdshOutput (pdsh_text entries) direct = Inr m \<and>
    map_of m = map_of (rev (if direct then entries else map (\<lambda>(node, attr). (attr, node)) entries))"
proof -
  let ?lines = "map (\<lambda>(node, attr). node @ '': '' @ attr) entries"
  have split: "split_on (CHR 0x0A) (pdsh_text entries) = ?lines @ [[]]" using assms by (rule split_pdsh_text)
  have short: "\<not> (\<exists>l \<in> set (split_on (CHR 0x0A) (pdsh_text entries)). max_token \<le> length l)"
    using assms unfolding split by (auto simp: max_token_def pdsh_word_def)
  have "drop_cr (node @ '': '' @ attr) = node @ '': '' @ attr" if "(node, attr) \<in> set entries" for node attr
  proof (cases "attr = []")
    case False
    then have "last (node @ '': '' @ attr) \<in> set attr" by simp
    then show ?thesis using assms that by (auto simp: drop_cr_def pdsh_word_def)
  qed (simp add: drop_cr_def)
  then have lines: "scan_lines (pdsh_text entries) = ?lines"
    by (auto simp: scan_lines_def split)
  have "map_of (fold (pdsh_line direct) (map (\<lambda>(node, attr). node @ '': '' @ attr) es) m) =
      map_of m ++ map_of (rev (if direct then es else map (\<lambda>(node, attr). (attr, node)) es))"
    if "\<forall>(node, attr) \<in> set es. pdsh_word node \<and> pdsh_word attr" for es m
    using that
  proof (induction es arbitrary: m)
    case (Cons e es)
    obtain node attr where e: "e = (node, attr)" by (cases e)
    have line: "pdsh_line direct (node @ '': '' @ attr) m = (if direct then mput node attr m else mput attr node m)"
      using Cons.prems split_colon [of node attr] by (simp add: e pdsh_word_def pdsh_line_def)
    have "map_of (fold (pdsh_line direct) (map (\<lambda>(node, attr). node @ '': '' @ attr) (e # es)) m) =
        map_of (fold (pdsh_line direct) (map (\<lambda>(node, attr). node @ '': '' @ attr) es)
          (pdsh_line direct (node @ '': '' @ attr) m))" by (simp add: e)
    also have "\<dots> = map_of (pdsh_line direct (node @ '': '' @ attr) m) ++
        map_of (rev (if direct then es else map (\<lambda>(node, attr). (attr, node)) es))"
      using Cons.prems by (intro Cons.IH) simp
    finally show ?case
      unfolding line by (simp add: e update_conv' map_add_def fun_eq_iff split: option.split)
  qed simp
  from this [OF assms, of "[]"] show ?thesis
    using short by (auto simp: ParsePdshOutput_def lines)
qed

theorem ParsePdshOutput_lines_witness:
  "\<exists>m. ParsePdshOutput (pdsh_text [(''node1'', ''i-1''), (''node2'', ''i-2'')]) False = Inr m \<and> map_of m ''i-2'' = Some ''node2''"
proof -
  have "\<forall>(node, attr) \<in> set [(''node1'', ''i-1''), (''node2'', ''i-2'')]. pdsh_word node \<and> pdsh_word attr"
    by (simp add: pdsh_word_def)
  from ParsePdshOutput_lines [OF this, of False] show ?thesis by auto
qed

end
