(* ===== verification/Server_Config.thy ===== *)
theory Server_Config
  imports Registry
begin

text \<open>
  \<open>pkg/config/config.go\<close>, the configuration of the server, and \<open>internal/files/utils.go\<close>.
  The file system and the YAML decoder are arguments: \<open>stat\<close> gives the error of a file that cannot be
  examined, \<open>read_file\<close> the contents of a file. The environment of the process is a map.
\<close>

record Endpoint =
  ep_Port :: int
  ep_SSL :: bool

record SSL =
  ssl_Cert :: string
  ssl_Key :: string
  ssl_CaCert :: string

record server_config =
  sc_HTTP :: Endpoint
  sc_RequestAggregationDelay :: int
  sc_Provider :: string
  sc_Engine :: string
  sc_PageSize :: "int option"
  sc_SSL :: "SSL option"
  sc_CredsPath :: "string option"
  sc_FwdSvcURL :: "string option"
  sc_Env :: "(string, string) gomap"
  sc_Credentials :: "(string, string) gomap"

definition files_Validate :: "(string \<Rightarrow> string option) \<Rightarrow> string \<Rightarrow> string \<Rightarrow> string option" where
  "files_Validate stat name description =
     (if length name = 0 then Some (''missing filename for '' @ description)
      else (case stat name of
              Some err \<Rightarrow> Some (''failed to validate '' @ name @ '': '' @ err)
            | None \<Rightarrow> None))"

text \<open>Creating a file truncates it; what a failed write leaves is up to the file system.\<close>

definition files_Create ::
  "(string \<Rightarrow> 'f \<Rightarrow> 'f res) \<Rightarrow> (string \<Rightarrow> string \<Rightarrow> 'f \<Rightarrow> 'f res) \<Rightarrow> string \<Rightarrow> string \<Rightarrow> 'f \<Rightarrow> 'f res" where
  "files_Create create write_file path data fs =
     (case create path fs of
        Inl err \<Rightarrow> Inl (''failed to create '' @ quote path @ '': '' @ err)
      | Inr fs \<Rightarrow>
          (case write_file path data fs of
             Inl err \<Rightarrow> Inl (''failed to write to '' @ quote path @ '': '' @ err)
           | Inr fs \<Rightarrow> Inr fs))"

text \<open>The first error in a list of checks.\<close>

fun first_error :: "'e option list \<Rightarrow> 'e option" where
  "first_error [] = None"
| "first_error (Some err # cs) = Some err"
| "first_error (None # cs) = first_error cs"

lemma first_error_None: "first_error cs = None \<longleftrightarrow> (\<forall>c \<in> set cs. c = None)"
  by (induction cs rule: first_error.induct) auto

definition readCredentials ::
  "(string \<Rightarrow> string option) \<Rightarrow> (string \<Rightarrow> string res) \<Rightarrow> (string \<Rightarrow> (string, string) gomap res) \<Rightarrow> server_config \<Rightarrow>
   server_config res" where
  "readCredentials stat read_file unmarshal cfg =
     (case sc_CredsPath cfg of
        None \<Rightarrow> Inr cfg
      | Some path \<Rightarrow>
          (case files_Validate stat path ''API credentials'' of
             Some err \<Rightarrow> Inl err
           | None \<Rightarrow>
               bind_sum (read_file path) (\<lambda>data.
               bind_sum (unmarshal data) (\<lambda>creds. Inr (cfg\<lparr>sc_Credentials := creds\<rparr>)))))"

definition config_checks :: "(string \<Rightarrow> string option) \<Rightarrow> server_config \<Rightarrow> string option list" where
  "config_checks stat cfg =
     [if ep_Port (sc_HTTP cfg) = 0 then Some ''port is not set'' else None,
      if sc_Provider cfg \<noteq> [] \<and> sc_Provider cfg \<notin> set provider_names
      then Some (''unsupported provider '' @ sc_Provider cfg) else None,
      if sc_Engine cfg \<noteq> [] \<and> sc_Engine cfg \<notin> set engine_names
      then Some (''unsupported engine '' @ sc_Engine cfg) else None,
      if sc_RequestAggregationDelay cfg = 0 then Some ''requestAggregationDelay is not set'' else None] @
     (if ep_SSL (sc_HTTP cfg)
      then (case sc_SSL cfg of
              None \<Rightarrow> [Some ''missing ssl section'']
            | Some ssl \<Rightarrow>
                [files_Validate stat (ssl_Cert ssl) ''server certificate'',
                 files_Validate stat (ssl_Key ssl) ''server key'',
                 files_Validate stat (ssl_CaCert ssl) ''CA certificate''])
      else [])"

definition config_validate ::
  "(string \<Rightarrow> string option) \<Rightarrow> (string \<Rightarrow> string res) \<Rightarrow> (string \<Rightarrow> (string, string) gomap res) \<Rightarrow> server_config \<Rightarrow>
   server_config res" where
  "config_validate stat read_file unmarshal cfg =
     (case first_error (config_checks stat cfg) of
        Some err \<Rightarrow> Inl err
      | None \<Rightarrow> readCredentials stat read_file unmarshal cfg)"

definition NewFromFile ::
  "(string \<Rightarrow> string option) \<Rightarrow> (string \<Rightarrow> string res) \<Rightarrow> (string \<Rightarrow> server_config res) \<Rightarrow>
   (string \<Rightarrow> (string, string) gomap res) \<Rightarrow> string \<Rightarrow> server_config res" where
  "NewFromFile stat read_file unmarshal_config unmarshal_creds fname =
     (case read_file fname of
        Inl err \<Rightarrow> Inl (''failed to read '' @ fname @ '': '' @ err)
      | Inr data \<Rightarrow>
          (case unmarshal_config data of
             Inl err \<Rightarrow> Inl (''failed to parse '' @ fname @ '': '' @ err)
           | Inr cfg \<Rightarrow> config_validate stat read_file unmarshal_creds cfg))"

text \<open>\<open>os.Setenv\<close> refuses an empty name, a name with \<open>=\<close>, and zero bytes.\<close>

type_synonym env = "(string, string) gomap"

definition setenv :: "string \<Rightarrow> string \<Rightarrow> env \<Rightarrow> env res" where
  "setenv key val env =
     (if key = [] \<or> CHR ''='' \<in> set key \<or> CHR 0x00 \<in> set key \<or> CHR 0x00 \<in> set val
      then Inl ''setenv: invalid argument'' else Inr (mput key val env))"

definition update_env_step :: "string \<times> string \<Rightarrow> env \<Rightarrow> env res" where
  "update_env_step kv env =
     (case kv of (key, val) \<Rightarrow>
        case (if key = ''PATH'' then setenv ''PATH'' (mget0 [] env ''PATH'' @ '':'' @ val) env else setenv key val env) of
          Inl err \<Rightarrow> Inl (''failed to set '' @ quote key @ '' environment variable: '' @ err)
        | Inr env \<Rightarrow> Inr env)"

definition UpdateEnv :: "server_config \<Rightarrow> env \<Rightarrow> env res" where
  "UpdateEnv cfg env = fold_sum update_env_step (sc_Env cfg) env"

text \<open>
  Updating the environment appends to the search path and overrides everything else: \<open>PATH\<close> is the
  old one with the configured one after a colon, every other configured variable has its configured value, and
  no other variable has changed.
\<close>

lemma UpdateEnv_other:
  "fold_sum update_env_step kvs env = Inr env' \<Longrightarrow> key \<notin> fst ` set kvs \<Longrightarrow> map_of env' key = map_of env key"
proof (induction kvs arbitrary: env)
  case (Cons kv kvs)
  obtain k v where kv: "kv = (k, v)" by (cases kv)
  obtain env1 where one: "update_env_step kv env = Inr env1" and rest: "fold_sum update_env_step kvs env1 = Inr env'"
    using Cons.prems(1) by (auto split: sum.splits)
  have "map_of env1 key = map_of env key"
    using one Cons.prems(2) by (auto simp: update_env_step_def setenv_def kv update_conv' split: if_splits)
  then show ?case using Cons.IH [OF rest] Cons.prems(2) by simp
qed simp

lemma UpdateEnv_set:
  "fold_sum update_env_step kvs env = Inr env' \<Longrightarrow> distinct (map fst kvs) \<Longrightarrow> (key, val) \<in> set kvs \<Longrightarrow>
    map_of env' key = Some (if key = ''PATH'' then mget0 [] env ''PATH'' @ '':'' @ val else val)"
proof (induction kvs arbitrary: env)
  case (Cons kv kvs)
  obtain k v where kv: "kv = (k, v)" by (cases kv)
  obtain env1 where one: "update_env_step kv env = Inr env1" and rest: "fold_sum update_env_step kvs env1 = Inr env'"
    using Cons.prems(1) by (auto split: sum.splits)
  have step: "map_of env1 = (map_of env)(k \<mapsto> (if k = ''PATH'' then mget0 [] env ''PATH'' @ '':'' @ v else v))"
    using one by (auto simp: update_env_step_def setenv_def kv update_conv' split: if_splits)
  show ?case
  proof (cases "(key, val) \<in> set kvs")
    case True
    then have "key \<in> fst ` set kvs" by (force intro: image_eqI [of _ fst])
    then have "key \<noteq> k" using Cons.prems(2) by (auto simp: kv)
    then have "mget0 [] env1 key = mget0 [] env key" by (simp add: mget0_def step)
    moreover have "map_of env' key = Some (if key = ''PATH'' then mget0 [] env1 ''PATH'' @ '':'' @ val else val)"
      using Cons.IH [OF rest] Cons.prems(2) True by simp
    ultimately show ?thesis by auto
  next
    case False
    then have "key = k" "val = v" using Cons.prems(3) by (auto simp: kv)
    moreover have "key \<notin> fst ` set kvs" using Cons.prems(2) calculation by (simp add: kv)
    ultimately show ?thesis using UpdateEnv_other [OF rest] step by simp
  qed
qed simp

text \<open>
  A configuration that is accepted can be served: its provider and engine are empty or registered, and with SSL
  the files of the certificate can be examined.
\<close>

lemma config_validate_checked:
  assumes "config_validate stat read_file unmarshal cfg = Inr cfg'"
  shows "(\<forall>c \<in> set (config_checks stat cfg). c = None) \<and> (\<exists>c. cfg' = cfg\<lparr>sc_Credentials := c\<rparr>)"
proof
  have checks: "first_error (config_checks stat cfg) = None"
    and creds: "readCredentials stat read_file unmarshal cfg = Inr cfg'"
    using assms by (auto simp: config_validate_def split: option.splits)
  show "\<forall>c \<in> set (config_checks stat cfg). c = None" using checks by (simp only: first_error_None)
  show "\<exists>c. cfg' = cfg\<lparr>sc_Credentials := c\<rparr>"
  proof (cases "sc_CredsPath cfg")
    case None
    then have "cfg' = cfg\<lparr>sc_Credentials := sc_Credentials cfg\<rparr>" using creds by (simp add: readCredentials_def)
    then show ?thesis ..
  next
    case (Some path)
    then show ?thesis using creds by (auto simp: readCredentials_def elim!: bind_sum_InrE split: option.splits)
  qed
qed

lemma config_validate_accepts:
  assumes "config_validate stat read_file unmarshal cfg = Inr cfg'"
  shows "ep_Port (sc_HTTP cfg') \<noteq> 0 \<and> sc_RequestAggregationDelay cfg' \<noteq> 0 \<and>
    (sc_Provider cfg' = [] \<or> sc_Provider cfg' \<in> set provider_names) \<and>
    (sc_Engine cfg' = [] \<or> sc_Engine cfg' \<in> set engine_names) \<and> (ep_SSL (sc_HTTP cfg') \<longrightarrow> sc_SSL cfg' \<noteq> None)"
  using config_validate_checked [OF assms] by (auto simp: config_checks_def split: if_splits option.splits)

lemma files_Validate_None: "files_Validate stat name description = None \<longleftrightarrow> name \<noteq> [] \<and> stat name = None"
  by (simp add: files_Validate_def split: option.split)

lemma config_validate_ssl:
  assumes "config_validate stat read_file unmarshal cfg = Inr cfg'" and "ep_SSL (sc_HTTP cfg')"
  shows "\<exists>ssl. sc_SSL cfg' = Some ssl \<and> stat (ssl_Cert ssl) = None \<and> stat (ssl_Key ssl) = None \<and> stat (ssl_CaCert ssl) = None"
proof -
  obtain c where cfg': "cfg' = cfg\<lparr>sc_Credentials := c\<rparr>" and checks: "\<forall>c \<in> set (config_checks stat cfg). c = None"
    using config_validate_checked [OF assms(1)] by blast
  then have "ep_SSL (sc_HTTP cfg)" using assms(2) by simp
  then obtain ssl where "sc_SSL cfg = Some ssl" using checks by (cases "sc_SSL cfg") (simp_all add: config_checks_def)
  then show ?thesis
    using checks \<open>ep_SSL (sc_HTTP cfg)\<close> cfg' by (simp add: config_checks_def files_Validate_None)
qed

end
