(* ===== verification/Server.thy ===== *)
theory Server
  imports Server_Config Queue Httpreq Graph
begin

text \<open>
  \<open>pkg/server\<close>: the HTTP handlers of \<open>http_server.go\<close>, the processing of a request with
  retries in \<open>engine.go\<close>, and the forwarding of \<open>grpc_client.go\<close>.

  A handler's effect on its response is the list of calls it makes on the writer; \<open>respond\<close> is what the
  client sees. Calls into providers and engines thread the state \<open>'s\<close> of the outside world. A result
  \<open>None\<close> stands for a panic of the goroutine (an index out of range) or for a graph that is no tree,
  which the code would walk forever. Metrics and logs are left out, but for the status that the logging
  middleware records.
\<close>

section \<open>Responses\<close>

datatype action = WriteHeader nat | Write string

text \<open>The first header counts; writing the body without one sends 200.\<close>

fun respond_from :: "nat option \<Rightarrow> action list \<Rightarrow> nat option \<times> string" where
  "respond_from st [] = (st, [])"
| "respond_from st (WriteHeader code # as) = respond_from (Some (case st of None \<Rightarrow> code | Some c \<Rightarrow> c)) as"
| "respond_from st (Write data # as) =
     (case respond_from (Some (case st of None \<Rightarrow> StatusOK | Some c \<Rightarrow> c)) as of (st, body) \<Rightarrow> (st, data @ body))"

definition respond :: "action list \<Rightarrow> nat \<times> string" where
  "respond as = (case respond_from None as of (st, body) \<Rightarrow> (case st of None \<Rightarrow> StatusOK | Some c \<Rightarrow> c, body))"

definition http_Error :: "string \<Rightarrow> nat \<Rightarrow> action list" where
  "http_Error msg code = [WriteHeader code, Write (msg @ newline)]"

text \<open>The status code in a \<open>responseRecorder\<close> after a handler.\<close>

fun recorded_from :: "nat \<Rightarrow> action list \<Rightarrow> nat" where
  "recorded_from code [] = code"
| "recorded_from code (WriteHeader c # as) = recorded_from c as"
| "recorded_from code (Write data # as) = recorded_from code as"

definition recorded :: "action list \<Rightarrow> nat" where
  "recorded as = recorded_from StatusOK as"

section \<open>Requests\<close>

record http_req =
  hq_Method :: string
  hq_Path :: string
  hq_Query :: "(string, string list) gomap"
  hq_Body :: "string res"

record ('s, 'v, 'c) HttpServer =
  hs_cfg :: server_config
  hs_queue :: "('v request, 'c) queue"

definition server_validate ::
  "('s, 'v) provider_registry \<Rightarrow> ('s, 'v) engine_registry \<Rightarrow> 'v request \<Rightarrow> string option" where
  "server_validate provs engs tr =
     (let prv = prv_Name (req_Provider tr); eng = eng_Name (req_Engine tr)
      in if map_of provs prv = None
         then Some (if prv = [] then ''no provider given for topology request'' else ''unsupported provider '' @ prv)
         else if map_of engs eng = None
         then Some (if eng = [] then ''no engine given for topology request'' else ''unsupported engine '' @ eng)
         else None)"

definition apply_defaults :: "server_config \<Rightarrow> 'v request \<Rightarrow> 'v request" where
  "apply_defaults cfg tr =
     (let tr = (if length (prv_Name (req_Provider tr)) = 0
                then tr\<lparr>req_Provider := (req_Provider tr)\<lparr>prv_Name := sc_Provider cfg\<rparr>\<rparr> else tr)
      in if length (eng_Name (req_Engine tr)) = 0
         then tr\<lparr>req_Engine := (req_Engine tr)\<lparr>eng_Name := sc_Engine cfg\<rparr>\<rparr> else tr)"

definition readRequest ::
  "(string \<Rightarrow> 'v request res) \<Rightarrow> ('s, 'v) provider_registry \<Rightarrow> ('s, 'v) engine_registry \<Rightarrow> server_config \<Rightarrow> http_req \<Rightarrow>
   action list + 'v request" where
  "readRequest unmarshal provs engs cfg r =
     (if hq_Method r \<noteq> ''POST'' then Inl (http_Error ''Invalid request method'' StatusMethodNotAllowed)
      else
        (case hq_Body r of
           Inl err \<Rightarrow> Inl (http_Error ''Unable to read request body'' StatusInternalServerError)
         | Inr body \<Rightarrow>
             (case GetTopologyRequest unmarshal body of
                Inl err \<Rightarrow> Inl (http_Error err StatusBadRequest)
              | Inr tr \<Rightarrow>
                  let tr = apply_defaults cfg tr
                  in (case server_validate provs engs tr of
                        Some err \<Rightarrow> Inl (http_Error err StatusBadRequest)
                      | None \<Rightarrow> Inr tr))))"

definition generate ::
  "(string \<Rightarrow> 'v request res) \<Rightarrow> ('s, 'v) provider_registry \<Rightarrow> ('s, 'v) engine_registry \<Rightarrow> string \<Rightarrow> int \<Rightarrow> http_req \<Rightarrow>
   ('s, 'v, 'c) HttpServer \<Rightarrow> action list \<times> ('s, 'v, 'c) HttpServer" where
  "generate unmarshal provs engs uuid now r srv =
     (case readRequest unmarshal provs engs (hs_cfg srv) r of
        Inl as \<Rightarrow> (as, srv)
      | Inr tr \<Rightarrow>
          (case Submit uuid tr now (hs_queue srv) of (uid, q) \<Rightarrow>
             ([WriteHeader StatusAccepted, Write uid], srv\<lparr>hs_queue := q\<rparr>)))"

text \<open>A result that is kept has status 200 exactly when it has data.\<close>

definition getresult ::
  "(string \<Rightarrow> 'c \<Rightarrow> string Completion option \<times> 'c) \<Rightarrow> http_req \<Rightarrow> ('s, 'v, 'c) HttpServer \<Rightarrow>
   action list \<times> ('s, 'v, 'c) HttpServer" where
  "getresult lookup r srv =
     (if hq_Method r \<noteq> ''GET'' then (http_Error ''invalid request method'' StatusMethodNotAllowed, srv)
      else
        let uid = (case mget0 [] (hq_Query r) KeyUID of [] \<Rightarrow> [] | v # _ \<Rightarrow> v)
        in if length uid = 0 then (http_Error ''must specify request uid'' StatusBadRequest, srv)
           else
             (case Get lookup uid (hs_queue srv) of (res, q) \<Rightarrow>
                (if cmp_Status res = StatusOK
                 then [WriteHeader (cmp_Status res), Write (case cmp_Ret res of Some data \<Rightarrow> data | None \<Rightarrow> [])]
                 else if cmp_Status res = StatusAccepted then [WriteHeader (cmp_Status res), Write (cmp_Message res)]
                 else http_Error (cmp_Message res) (cmp_Status res),
                 srv\<lparr>hs_queue := q\<rparr>)))"

definition healthz :: "action list" where
  "healthz = [WriteHeader StatusOK, Write (''OK'' @ newline)]"

definition initHttpServer :: "(nat \<Rightarrow> 'c) \<Rightarrow> server_config \<Rightarrow> ('s, 'v, 'c) HttpServer" where
  "initHttpServer new cfg =
     \<lparr>hs_cfg = cfg, hs_queue = NewTrailingDelayQueue new (sc_RequestAggregationDelay cfg)\<rparr>"

text \<open>The multiplexer: the routes are exact; \<open>metrics\<close> is the handler of the metrics library.\<close>

definition serve ::
  "(http_req \<Rightarrow> action list) \<Rightarrow> (string \<Rightarrow> 'v request res) \<Rightarrow> ('s, 'v) provider_registry \<Rightarrow> ('s, 'v) engine_registry \<Rightarrow>
   (string \<Rightarrow> 'c \<Rightarrow> string Completion option \<times> 'c) \<Rightarrow> string \<Rightarrow> int \<Rightarrow> http_req \<Rightarrow> ('s, 'v, 'c) HttpServer \<Rightarrow>
   action list \<times> ('s, 'v, 'c) HttpServer" where
  "serve metrics unmarshal provs engs lookup uuid now r srv =
     (if hq_Path r = ''/v1/generate'' then generate unmarshal provs engs uuid now r srv
      else if hq_Path r = ''/v1/topology'' then getresult lookup r srv
      else if hq_Path r = ''/healthz'' then (healthz, srv)
      else if hq_Path r = ''/metrics'' then (metrics r, srv)
      else (http_Error ''404 page not found'' StatusNotFound, srv))"

text \<open>The status that \<open>LoggingMiddleware\<close> logs, with the response.\<close>

definition LoggingMiddleware :: "('q \<Rightarrow> 'x \<Rightarrow> action list \<times> 'x) \<Rightarrow> 'q \<Rightarrow> 'x \<Rightarrow> nat \<times> (nat \<times> string) \<times> 'x" where
  "LoggingMiddleware next r x = (case next r x of (as, x) \<Rightarrow> (recorded as, respond as, x))"

section \<open>Forwarding\<close>

record pb_instance =
  pb_Id :: string
  pb_InstanceType :: string
  pbi_Provider :: string
  pbi_Region :: string
  pb_DataCenter :: string
  pb_NetworkLayers :: "string list"
  pb_NvlinkDomain :: string

record pb_request =
  pb_Provider :: string
  pb_Region :: string
  pb_InstanceIds :: "string list"

text \<open>\<open>convert\<close> indexes the first three layers.\<close>

definition convert :: "pb_instance \<Rightarrow> InstanceTopology option" where
  "convert inst =
     (case pb_NetworkLayers inst of
        block # spine # datacenter # _ \<Rightarrow>
          Some \<lparr>InstanceID = pb_Id inst, BlockID = block, BlockName = [], SpineID = spine, SpineName = [],
                DatacenterID = datacenter, DatacenterName = [], AcceleratorID = pb_NvlinkDomain inst\<rparr>
      | _ \<Rightarrow> None)"

fun convert_all :: "pb_instance list \<Rightarrow> cluster \<Rightarrow> cluster option" where
  "convert_all [] topo = Some topo"
| "convert_all (elem # es) topo = (case convert elem of None \<Rightarrow> None | Some inst \<Rightarrow> convert_all es (Append inst topo))"

type_synonym 's describe = "pb_request \<Rightarrow> 's \<Rightarrow> pb_instance list res \<times> 's"

fun forward_loop :: "'s describe \<Rightarrow> string \<Rightarrow> compute_instances list \<Rightarrow> cluster \<Rightarrow> 's \<Rightarrow> cluster http_res option \<times> 's" where
  "forward_loop describe provider [] topo s = (Some (Inr topo), s)"
| "forward_loop describe provider (ci # cis) topo s =
     (case describe \<lparr>pb_Provider = provider, pb_Region = Region ci, pb_InstanceIds = mkeys (Instances ci)\<rparr> s of
        (Inl err, s) \<Rightarrow> (Some (Inl (NewError StatusInternalServerError (''failed to forward request: '' @ err))), s)
      | (Inr elems, s) \<Rightarrow>
          (case convert_all elems topo of
             None \<Rightarrow> (None, s)
           | Some topo \<Rightarrow> forward_loop describe provider cis topo s))"

definition forwardRequest ::
  "(string \<Rightarrow> string option) \<Rightarrow> 's describe \<Rightarrow> string \<Rightarrow> string \<Rightarrow> compute_instances list \<Rightarrow> 's \<Rightarrow>
   vertex http_res option \<times> 's" where
  "forwardRequest connect describe provider url cis s =
     (case connect url of
        Some err \<Rightarrow> (Some (Inl (NewError StatusInternalServerError (''failed to connect to '' @ url @ '': '' @ err))), s)
      | None \<Rightarrow>
          (case forward_loop describe provider cis NewClusterTopology s of
             (None, s) \<Rightarrow> (None, s)
           | (Some (Inl err), s) \<Rightarrow> (Some (Inl err), s)
           | (Some (Inr topo), s) \<Rightarrow>
               (case ToThreeTierGraph provider cis False topo of (_, root, _) \<Rightarrow> (map_option Inr root, s))))"

section \<open>Processing a request\<close>

definition checkCredentials :: "(string, string) gomap \<Rightarrow> (string, string) gomap \<Rightarrow> (string, string) gomap" where
  "checkCredentials payloadCreds cfgCreds = (if length payloadCreds \<noteq> 0 then payloadCreds else cfgCreds)"

definition compute_instances_of ::
  "'s Provider \<Rightarrow> ('s, 'v) Engine \<Rightarrow> compute_instances list \<Rightarrow> ('s, compute_instances list) call" where
  "compute_instances_of prv eng nodes =
     (if length nodes = 0
      then (case prv_GetComputeInstances prv of Some get \<Rightarrow> get | None \<Rightarrow> eng_GetComputeInstances eng prv)
      else return_call (Inr nodes))"

definition processTopologyRequest ::
  "('s, 'v) provider_registry \<Rightarrow> ('s, 'v) engine_registry \<Rightarrow> (string \<Rightarrow> string option) \<Rightarrow> 's describe \<Rightarrow>
   server_config \<Rightarrow> 'v request \<Rightarrow> ('s, string) pcall" where
  "processTopologyRequest provs engs connect describe cfg tr =
     then_pcall (lift_call (return_call (Engines_Get engs (eng_Name (req_Engine tr))))) (\<lambda>engLoader.
     then_pcall (lift_call (return_call (Providers_Get provs (prv_Name (req_Provider tr))))) (\<lambda>prvLoader.
     then_pcall (lift_call (engLoader (eng_Params (req_Engine tr)))) (\<lambda>eng.
     then_pcall (lift_call (prvLoader \<lparr>pc_Creds = checkCredentials (prv_Creds (req_Provider tr)) (sc_Credentials cfg),
                                       pc_Params = prv_Params (req_Provider tr)\<rparr>)) (\<lambda>prv.
     then_pcall (lift_call (compute_instances_of prv eng (req_Nodes tr))) (\<lambda>computeInstances.
     then_pcall (case sc_FwdSvcURL cfg of
                   Some url \<Rightarrow> forwardRequest connect describe (prv_Name (req_Provider tr)) url computeInstances
                 | None \<Rightarrow> lift_call (prv_GenerateTopologyConfig prv (sc_PageSize cfg) computeInstances)) (\<lambda>root.
     lift_call (eng_GenerateOutput eng root (eng_Params (req_Engine tr)))))))))"

definition request_baseDelay :: int where
  "request_baseDelay = 2 * Second"

definition result_code :: "'a http_res \<Rightarrow> nat" where
  "result_code r = (case r of Inl err \<Rightarrow> Error_Code err | Inr _ \<Rightarrow> StatusOK)"

definition final_result :: "'a http_res option \<Rightarrow> bool" where
  "final_result r = (case r of None \<Rightarrow> True | Some r \<Rightarrow> \<not> ShouldRetry (result_code r))"

partial_function (option) process_loop ::
  "int \<Rightarrow> 'q \<Rightarrow> ('q \<Rightarrow> ('s, 'a) pcall) \<Rightarrow> nat \<Rightarrow> int list \<Rightarrow> 's \<Rightarrow> ('a http_res option \<times> int list \<times> 's) option" where
  "process_loop delay tr f attempt sleeps s =
     (case f tr s of (r, s) \<Rightarrow>
        if final_result r \<or> Suc attempt = maxRetries then Some (r, sleeps, s)
        else process_loop delay tr f (Suc attempt) (sleeps @ [GetNextBackoff (\<lambda>_. None) 0 None delay attempt]) s)"

declare process_loop.simps [code]

definition processRequestWithRetries ::
  "int \<Rightarrow> 'q \<Rightarrow> ('q \<Rightarrow> ('s, 'a) pcall) \<Rightarrow> 's \<Rightarrow> ('a http_res option \<times> int list \<times> 's) option" where
  "processRequestWithRetries delay tr f s = process_loop delay tr f 0 [] s"

definition processRequest ::
  "('s, 'v) provider_registry \<Rightarrow> ('s, 'v) engine_registry \<Rightarrow> (string \<Rightarrow> string option) \<Rightarrow> 's describe \<Rightarrow>
   server_config \<Rightarrow> 'v request \<Rightarrow> 's \<Rightarrow> (string http_res option \<times> int list \<times> 's) option" where
  "processRequest provs engs connect describe cfg item s =
     processRequestWithRetries request_baseDelay item (processTopologyRequest provs engs connect describe cfg) s"

interpretation proc: retry_loop "process_loop delay tr f" "f tr" final_result
  "\<lambda>r s i. GetNextBackoff (\<lambda>_. None) 0 None delay i" maxRetries
  for delay tr f
  by unfold_locales (rule process_loop.simps)

section \<open>Properties\<close>

lemma respond_http_Error [simp]: "respond (http_Error msg code) = (code, msg @ newline)"
  by (simp add: respond_def http_Error_def)

lemma respond_two [simp]: "respond [WriteHeader code, Write body] = (code, body)"
  by (simp add: respond_def)

text \<open>Every handler of the program sends one header before the body, so the middleware logs what was sent.\<close>

lemma recorded_handlers:
  "as \<in> {http_Error msg code, [WriteHeader code, Write body]} \<Longrightarrow> recorded as = fst (respond as)"
  by (auto simp: recorded_def http_Error_def respond_def)

lemma recorded_generate: "recorded (fst (generate unm provs engs uuid now r srv)) = fst (respond (fst (generate unm provs engs uuid now r srv)))"
  by (auto simp: generate_def readRequest_def Let_def recorded_def http_Error_def respond_def
      split: sum.split option.split prod.split)

lemma readRequest_valid:
  "readRequest unm provs engs cfg r = Inr tr \<Longrightarrow>
    map_of provs (prv_Name (req_Provider tr)) \<noteq> None \<and> map_of engs (eng_Name (req_Engine tr)) \<noteq> None"
  by (auto simp: readRequest_def server_validate_def Let_def split: sum.splits option.splits if_splits)

text \<open>
  C19. A topology request is accepted or refused, and nothing in between: either the client gets 202 and the
  ID under which the queue now holds a request for a registered provider and a registered engine, or it gets
  400, 405 or 500 and the server has not changed.
\<close>

theorem generate_accepts_or_refuses:
  "let (as, srv') = generate unmarshal provs engs uuid now r srv; (status, body) = respond as
   in (status = StatusAccepted \<and> hq_Method r = ''POST'' \<and> hs_cfg srv' = hs_cfg srv \<and> body = q_uid (hs_queue srv') \<and>
       body = (if q_uid (hs_queue srv) = [] then uuid else q_uid (hs_queue srv)) \<and>
       (\<exists>tr. readRequest unmarshal provs engs (hs_cfg srv) r = Inr tr \<and> q_item (hs_queue srv') = Some tr \<and>
          map_of provs (prv_Name (req_Provider tr)) \<noteq> None \<and> map_of engs (eng_Name (req_Engine tr)) \<noteq> None)) \<or>
      (status \<in> {StatusBadRequest, StatusMethodNotAllowed, StatusInternalServerError} \<and> srv' = srv)"
proof (cases "readRequest unmarshal provs engs (hs_cfg srv) r")
  case (Inl as)
  then have "fst (respond as) \<in> {StatusBadRequest, StatusMethodNotAllowed, StatusInternalServerError}"
    by (auto simp: readRequest_def Let_def split: sum.splits option.splits if_splits)
  then show ?thesis using Inl by (cases "respond as") (simp add: generate_def)
next
  case (Inr tr)
  then have "hq_Method r = ''POST''" by (auto simp: readRequest_def split: if_splits)
  then show ?thesis
    using Inr readRequest_valid [OF Inr] by (simp add: generate_def Submit_def Let_def del: not_None_eq)
qed

lemma result_code_final: "final_result None" "final_result (Some (Inr x))"
  by (simp_all add: final_result_def result_code_def ShouldRetry_def)

text \<open>
  C21. Processing with retries ends after at most five attempts, with the first result that is no retryable
  error or else with the fifth; the waits are 2, 4, 8 and 16 seconds.
\<close>

theorem processRequest_returns:
  "\<exists>n < 5. (\<forall>i < n. \<not> final_result (retry_loop.outcome (f tr) i s)) \<and>
    (final_result (retry_loop.outcome (f tr) n s) \<or> n = 4) \<and>
    processRequestWithRetries request_baseDelay tr f s =
      Some (retry_loop.outcome (f tr) n s, take n [2 * Second, 4 * Second, 8 * Second, 16 * Second],
            retry_loop.state_after (f tr) (Suc n) s)"
proof -
  have "0 < maxRetries" by (simp add: maxRetries_def)
  from proc.loop_returns [OF this, where f = f and tr = tr and delay = request_baseDelay and sleeps = "[]" and s = s] obtain n where
    n: "0 + n < maxRetries" "\<forall>i < n. \<not> final_result (retry_loop.outcome (f tr) i s)"
      "final_result (retry_loop.outcome (f tr) n s) \<or> Suc (0 + n) = maxRetries"
    and loop: "process_loop request_baseDelay tr f 0 [] s = Some (retry_loop.outcome (f tr) n s, [] @
        map (\<lambda>i. GetNextBackoff (\<lambda>_. None) 0 None request_baseDelay (0 + i)) [0..<n], retry_loop.state_after (f tr) (Suc n) s)"
    by (elim exE conjE)
  have wait: "GetNextBackoff (\<lambda>_. None) 0 None request_baseDelay i = 2 ^ i * (2 * Second)" if "i < 4" for i
  proof -
    have "(2 :: int) ^ i \<le> 2 ^ 4" using that by (intro power_increasing) auto
    then have "wrap64 (2 * Second * 2 ^ i) = 2 * Second * 2 ^ i"
      by (intro wrap64_id) (auto simp: min_int64_def max_int64_def intro: order_trans [of _ 0])
    then show ?thesis by (simp add: GetNextBackoff_def ParseRetryAfter_def request_baseDelay_def)
  qed
  have "map (\<lambda>i. GetNextBackoff (\<lambda>_. None) 0 None request_baseDelay (0 + i)) [0..<n] = map (\<lambda>i. 2 ^ i * (2 * Second)) [0..<n]"
    using n(1) wait by (intro map_cong) (auto simp: maxRetries_def)
  also have "\<dots> = take n (map (\<lambda>i. 2 ^ i * (2 * Second)) [0..<4])"
    using n(1) by (simp add: take_map take_upt maxRetries_def)
  also have "map (\<lambda>i. 2 ^ i * (2 * Second)) [0..<4] = [2 * Second, 4 * Second, 8 * Second, 16 * Second]"
    by (simp add: upt_rec)
  finally show ?thesis
    using n loop by (intro exI [of _ n]) (simp add: processRequestWithRetries_def maxRetries_def)
qed

text \<open>An engine that fails twice with a gateway error.\<close>

definition flaky_process :: "unit \<Rightarrow> (nat, string) pcall" where
  "flaky_process _ s = (Some (if s < 2 then Inl (NewError StatusBadGateway ''down'') else Inr ''topology''), Suc s)"

theorem processRequest_returns_witness:
  "processRequestWithRetries request_baseDelay () flaky_process 0 = Some (Some (Inr ''topology''), [2 * Second, 4 * Second], 3) \<and>
   (\<exists>n < 5. processRequestWithRetries request_baseDelay () flaky_process 0 =
      Some (retry_loop.outcome (flaky_process ()) n 0, take n [2 * Second, 4 * Second, 8 * Second, 16 * Second],
            retry_loop.state_after (flaky_process ()) (Suc n) 0))"
proof
  show "processRequestWithRetries request_baseDelay () flaky_process 0 = Some (Some (Inr ''topology''), [2 * Second, 4 * Second], 3)"
    by code_simp
qed (use processRequest_returns [of flaky_process "()" 0] in blast)

text \<open>
  C20. From request to answer: when a request is accepted while the goroutine waits, a tick later than the
  aggregation delay takes it, and when its processing returns, a query for the ID is answered with the data,
  or with the status and the message of the error.
\<close>

theorem request_served:
  assumes "lru_cache new add lookup size_of" and "0 < size_of (q_store (hs_queue srv))"
    and "generate unmarshal provs engs uuid t r srv = (as, srv1)" and "respond as = (StatusAccepted, u)" and "u \<noteq> []"
    and "now - t > q_delay (hs_queue srv)"
    and "hq_Method r' = ''GET''" and "map_of (hq_Query r') KeyUID = Some [u]"
    and "case res of Inl err \<Rightarrow> Error_Code err \<noteq> StatusOK \<and> Error_Code err \<noteq> StatusAccepted | Inr _ \<Rightarrow> True"
  shows "\<exists>tr. readRequest unmarshal provs engs (hs_cfg srv) r = Inr tr \<and>
    q_run (run_take now (hs_queue srv1)) = Handling tr u \<and>
    respond (fst (getresult lookup r' (srv1\<lparr>hs_queue := run_store add u res (run_take now (hs_queue srv1))\<rparr>))) =
      (case res of Inr data \<Rightarrow> (StatusOK, data) | Inl err \<Rightarrow> (Error_Code err, Error_Error err @ newline))"
proof -
  obtain tr where tr: "readRequest unmarshal provs engs (hs_cfg srv) r = Inr tr"
  proof (cases "readRequest unmarshal provs engs (hs_cfg srv) r")
    case (Inl bad)
    then have "fst (respond as) \<noteq> StatusAccepted"
      using assms(3) by (auto simp: generate_def readRequest_def Let_def split: sum.splits option.splits if_splits)
    then show ?thesis using assms(4) by simp
  qed
  then obtain q where sub: "Submit uuid tr t (hs_queue srv) = (u, q)" and srv1: "hs_queue srv1 = q"
    using assms(3,4) by (auto simp: generate_def split: prod.splits)
  from queue_serves [OF assms(1,2) sub assms(6), of res]
  have run: "q_run (run_take now q) = Handling tr u"
    and got: "fst (Get lookup u (run_store add u res (run_take now q))) = completion_of res" by auto
  have "respond (fst (getresult lookup r' (srv1\<lparr>hs_queue := run_store add u res (run_take now q)\<rparr>))) =
      (case res of Inr data \<Rightarrow> (StatusOK, data) | Inl err \<Rightarrow> (Error_Code err, Error_Error err @ newline))"
    using got assms(5,7-9)
    by (cases res) (auto simp: getresult_def mget0_def Let_def completion_of_def split: prod.split)
  then show ?thesis using tr run by (simp add: srv1)
qed

definition sample_loader :: "string \<Rightarrow> (unit, unit Provider, string provider_config) loader" where
  "sample_loader name cfg = return_call (Inl (NewError StatusUnauthorized name))"

definition sample_engine_loader :: "string \<Rightarrow> (unit, (unit, string) Engine, (string, string) gomap) loader" where
  "sample_engine_loader name cfg = return_call (Inl (NewError StatusUnauthorized name))"

definition sample_config :: server_config where
  "sample_config =
     \<lparr>sc_HTTP = \<lparr>ep_Port = 49021, ep_SSL = False\<rparr>, sc_RequestAggregationDelay = 5 * Second, sc_Provider = ''aws'',
      sc_Engine = ''slurm'', sc_PageSize = None, sc_SSL = None, sc_CredsPath = None, sc_FwdSvcURL = None, sc_Env = [],
      sc_Credentials = []\<rparr>"

definition sample_server :: "(unit, string, (string, string Completion) lru_list) HttpServer" where
  "sample_server = initHttpServer lru_new sample_config"

definition sample_post :: http_req where
  "sample_post = \<lparr>hq_Method = ''POST'', hq_Path = ''/v1/generate'', hq_Query = [], hq_Body = Inr []\<rparr>"

definition sample_get :: http_req where
  "sample_get = \<lparr>hq_Method = ''GET'', hq_Path = ''/v1/topology'', hq_Query = [(''uid'', [''u1''])], hq_Body = Inr []\<rparr>"

definition sample_generated :: "action list \<times> (unit, string, (string, string Completion) lru_list) HttpServer" where
  "sample_generated = generate (\<lambda>_. Inl ''bad'') (Providers sample_loader) (Engines sample_engine_loader) ''u1'' 0 sample_post sample_server"

theorem request_served_witness:
  "respond (fst (getresult lru_get sample_get ((snd sample_generated)\<lparr>hs_queue :=
     run_store lru_add ''u1'' (Inr ''SwitchName=S1'') (run_take (6 * Second) (hs_queue (snd sample_generated)))\<rparr>))) =
   (200, ''SwitchName=S1'')"
proof -
  have gen: "generate (\<lambda>_. Inl ''bad'') (Providers sample_loader) (Engines sample_engine_loader) ''u1'' 0 sample_post sample_server =
      (fst sample_generated, snd sample_generated)" by (simp add: sample_generated_def)
  have fields: "0 < lru_size (q_store (hs_queue sample_server))" "q_delay (hs_queue sample_server) < 6 * Second - 0"
    by (simp_all add: sample_server_def initHttpServer_def NewTrailingDelayQueue_def lru_new_def RequestHistorySize_def sample_config_def)
  have resp: "respond (fst sample_generated) = (StatusAccepted, ''u1'')" by code_simp
  have get: "hq_Method sample_get = ''GET''" "map_of (hq_Query sample_get) KeyUID = Some [''u1'']"
    by (simp_all add: sample_get_def KeyUID_def)
  show ?thesis
    using request_served [OF lru.lru_cache_axioms fields(1) gen resp _ fields(2) get, of "Inr ''SwitchName=S1''"]
    unfolding sum.case by blast
qed

text \<open>
  The forwarding client trusts the length of the layers: an answer that holds an instance with fewer
  than three network layers makes the request end in a panic, not in an error.
\<close>

theorem forwardRequest_short_layers:
  assumes "connect url = None" and "describe \<lparr>pb_Provider = prv, pb_Region = Region ci, pb_InstanceIds = mkeys (Instances ci)\<rparr> s = (Inr elems, s')"
    and "elem \<in> set elems" and "length (pb_NetworkLayers elem) < 3"
  shows "forwardRequest connect describe prv url (ci # cis) s = (None, s')"
proof -
  have "convert elem = None"
    using assms(4) by (auto simp: convert_def split: list.splits)
  then have "convert_all elems topo = None" for topo
    using assms(3)
  proof (induction elems arbitrary: topo)
    case (Cons e es)
    then show ?case by (auto split: option.splits)
  qed simp
  then show ?thesis using assms(1,2) by (simp add: forwardRequest_def)
qed

theorem forwardRequest_short_layers_witness:
  "forwardRequest (\<lambda>_. None) (\<lambda>_ s. (Inr [\<lparr>pb_Id = ''i1'', pb_InstanceType = [], pbi_Provider = [], pbi_Region = [], pb_DataCenter = [], pb_NetworkLayers = [''a'', ''b''], pb_NvlinkDomain = []\<rparr>], s))
     ''aws'' ''svc:80'' [\<lparr>Region = ''r'', Instances = [(''i1'', ''n1'')]\<rparr>] () = (None, ())"
proof (rule forwardRequest_short_layers)
  let ?elem = "\<lparr>pb_Id = ''i1'', pb_InstanceType = [], pbi_Provider = [], pbi_Region = [], pb_DataCenter = [], pb_NetworkLayers = [''a'', ''b''], pb_NvlinkDomain = []\<rparr>"
  show "?elem \<in> set [?elem]" by (rule list.set_intros)
  show "length (pb_NetworkLayers ?elem) < 3" by simp
qed (rule refl)+

end
