(* ===== verification/Exec.thy ===== *)
theory Exec
  imports Registry Cluset
begin

text \<open>
  \<open>internal/exec/exec.go\<close> and the calls of the metadata services: running a command and sending an
  HTTP request are arguments that thread the state \<open>'s\<close> of the outside world. The providers ask
  every node for its instance and its region with \<open>pdsh\<close>, and the node itself with plain requests.
\<close>

type_synonym 's exec = "string \<Rightarrow> string list \<Rightarrow> 's \<Rightarrow> string res \<times> 's"

text \<open>
  A process gets a name, arguments and its environment, and leaves what it wrote to both outputs and the error of
  running it; \<open>environ\<close> is the environment of the program itself.
\<close>

type_synonym 's process = "string \<Rightarrow> string list \<Rightarrow> string list \<Rightarrow> 's \<Rightarrow> (string \<times> string \<times> string option) \<times> 's"

definition Exec :: "'s process \<Rightarrow> ('s \<Rightarrow> string list) \<Rightarrow> (string, string) gomap \<Rightarrow> 's exec" where
  "Exec run environ env exe args s =
     (case run exe args (environ s @ map (\<lambda>(k, v). k @ ''='' @ v) env) s of
        ((stdout, stderr, Some err), s) \<Rightarrow> (Inl (exe @ '' failed: '' @ stderr @ '' : '' @ err), s)
      | ((stdout, stderr, None), s) \<Rightarrow> (Inr stdout, s))"

definition Pdsh :: "'s exec \<Rightarrow> string \<Rightarrow> string list \<Rightarrow> string list \<Rightarrow> 's \<Rightarrow> string res \<times> 's" where
  "Pdsh exec cmd nodes opts s = exec ''pdsh'' ([''-R'', ''ssh''] @ opts @ [''-w'', join '','' (Compact nodes), cmd]) s"

text \<open>The environment of a command reaches it unchanged, and its error output is in the message when it fails.\<close>

lemma Pdsh_Exec:
  assumes "run ''pdsh'' ([''-R'', ''ssh''] @ opts @ [''-w'', join '','' (Compact nodes), cmd]) (environ s) s = ((out, msg, r), s')"
  shows "Pdsh (Exec run environ []) cmd nodes opts s =
    (case r of None \<Rightarrow> Inr out | Some err \<Rightarrow> Inl (''pdsh failed: '' @ msg @ '' : '' @ err), s')"
  using assms by (simp add: Pdsh_def Exec_def split: option.split)

text \<open>Errors of Go functions that return \<open>error\<close>, in sequence; a message can be put in front.\<close>

definition then_res :: "('s \<Rightarrow> 'a res \<times> 's) \<Rightarrow> ('a \<Rightarrow> 's \<Rightarrow> 'b res \<times> 's) \<Rightarrow> 's \<Rightarrow> 'b res \<times> 's" where
  "then_res c f s = (case c s of (Inl err, s) \<Rightarrow> (Inl err, s) | (Inr x, s) \<Rightarrow> f x s)"

definition wrap_err :: "string \<Rightarrow> ('s \<Rightarrow> 'a res \<times> 's) \<Rightarrow> 's \<Rightarrow> 'a res \<times> 's" where
  "wrap_err msg c s = (case c s of (Inl err, s) \<Rightarrow> (Inl (msg @ err), s) | (Inr x, s) \<Rightarrow> (Inr x, s))"

text \<open>The pdsh queries that all providers share: run a command on the nodes and parse its output.\<close>

definition pdsh_map :: "'s exec \<Rightarrow> string \<Rightarrow> bool \<Rightarrow> string list \<Rightarrow> 's \<Rightarrow> (string, string) gomap res \<times> 's" where
  "pdsh_map exec cmd direct nodes = then_res (Pdsh exec cmd nodes []) (\<lambda>out s. (ParsePdshOutput out direct, s))"

text \<open>A request with its method, URL and headers; the body of the answer without surrounding space.\<close>

type_synonym 's http_do = "string \<Rightarrow> string \<Rightarrow> (string, string) gomap \<Rightarrow> 's \<Rightarrow> string res \<times> 's"

definition HttpReq :: "'s http_do \<Rightarrow> string \<Rightarrow> string \<Rightarrow> (string, string) gomap \<Rightarrow> 's \<Rightarrow> string res \<times> 's" where
  "HttpReq send meth url headers = then_res (send meth url headers) (\<lambda>data s. (Inr (trim_space data), s))"

text \<open>Both annotations of a node, from two calls.\<close>

definition node_annotations :: "string \<Rightarrow> string \<Rightarrow> (string, string) gomap" where
  "node_annotations instance' region = [(KeyNodeInstance, instance'), (KeyNodeRegion, region)]"

text \<open>Providers on premises map every node to itself, and all nodes to one region.\<close>

definition const_map :: "(string \<Rightarrow> string) \<Rightarrow> string list \<Rightarrow> (string, string) gomap" where
  "const_map f nodes = fold (\<lambda>node. mput node (f node)) nodes []"

lemma const_map_lookup: "map_of (const_map f nodes) node = (if node \<in> set nodes then Some (f node) else None)"
proof -
  have "map_of (fold (\<lambda>node. mput node (f node)) nodes m) node = (if node \<in> set nodes then Some (f node) else map_of m node)" for m
    by (induction nodes arbitrary: m) (auto simp: update_conv')
  then show ?thesis by (simp add: const_map_def)
qed

end
