(* ===== verification/Models.thy ===== *)
theory Models
  imports Cluset Topology
begin

text \<open>
  \<open>pkg/models/model.go\<close>: models of clusters for simulation, read from YAML. Reading and decoding the
  file, and printing a switch in an error message, are arguments. Switches of the graph share their children;
  \<open>ToGraph\<close> builds them as cells of a store and the graph as the tree unfolded from the store, which
  is \<open>None\<close> when a child is missing (a nil vertex) or the switches form a cycle.
\<close>

record model_switch =
  ms_Name :: string
  ms_Metadata :: "(string, string) gomap"
  ms_Switches :: "string list"
  ms_CapacityBlocks :: "string list"

record CapacityBlock =
  cb_Name :: string
  cb_Type :: string
  cb_NVLink :: string
  cb_Nodes :: "string list"

record model_node =
  mn_Name :: string
  mn_Metadata :: "(string, string) gomap"
  mn_Type :: string
  mn_NVLink :: string
  mn_NetLayers :: "string list"
  mn_CapacityBlock :: string

record Model =
  mod_Switches :: "model_switch list"
  mod_CapacityBlocks :: "CapacityBlock list"
  mod_Nodes :: "(string, model_node) gomap"
  mod_Instances :: "compute_instances list"

definition bracketed :: "string list \<Rightarrow> string" where
  "bracketed xs = ''['' @ join '' '' xs @ '']''"

definition Node_String :: "model_node \<Rightarrow> string" where
  "Node_String n =
     ''Node: '' @ mn_Name n @ '' Metadata: '' @ fmt_map (mn_Metadata n) @ '' Type: '' @ mn_Type n @ '' NVL: '' @
     mn_NVLink n @ '' NetLayers: '' @ bracketed (mn_NetLayers n) @ '' CBlock: '' @ mn_CapacityBlock n"

section \<open>Layers above a switch\<close>

type_synonym swmap = "(string, model_switch) gomap"

function layers_loop ::
  "swmap \<Rightarrow> model_switch \<Rightarrow> string list \<Rightarrow> string list \<Rightarrow> (string, string) gomap \<Rightarrow>
   (string list \<times> (string, string) gomap) res" where
  "layers_loop swmap sw visited layers metadata =
     (let name = ms_Name sw
      in if name \<in> set visited
         then Inl (''circular dependency detected in topology for switch '' @ quote name)
         else
           let visited = name # visited;
               layers = layers @ [name];
               metadata = fold (\<lambda>(k, v). mput k v) (ms_Metadata sw) metadata
           in case map_of swmap name of
                None \<Rightarrow> Inr (layers, metadata)
              | Some parent \<Rightarrow> layers_loop swmap parent visited layers metadata)"
  by pat_completeness auto
termination
proof (relation "measure (\<lambda>(swmap, sw, visited, layers, metadata). card (set (mkeys swmap) - set visited))", simp)
  fix swmap :: swmap and sw parent :: model_switch and visited visited' layers layers' :: "string list"
    and name and metadata metadata' :: "(string, string) gomap"
  assume "name = ms_Name sw" "name \<notin> set visited" "visited' = name # visited" "map_of swmap name = Some parent"
  then have "set (mkeys swmap) - set visited' \<subset> set (mkeys swmap) - set visited"
    using set_fst_map_of [of name swmap] by auto
  then have "card (set (mkeys swmap) - set visited') < card (set (mkeys swmap) - set visited)"
    by (rule psubset_card_mono [rotated]) simp
  then show "((swmap, parent, visited', layers', metadata'), (swmap, sw, visited, layers, metadata)) \<in>
      measure (\<lambda>(swmap, sw, visited, layers, metadata). card (set (mkeys swmap) - set visited))" by simp
qed

declare layers_loop.simps [simp del]

definition getNetworkLayers :: "model_switch \<Rightarrow> swmap \<Rightarrow> (string list \<times> (string, string) gomap) res" where
  "getNetworkLayers sw swmap = layers_loop swmap sw [] [] []"

section \<open>Nodes\<close>

definition add_parent ::
  "(string \<Rightarrow> string \<Rightarrow> model_switch \<Rightarrow> string) \<Rightarrow> model_switch \<Rightarrow> string \<Rightarrow> swmap \<Rightarrow> swmap res" where
  "add_parent err parent child m =
     (case map_of m child of
        Some p \<Rightarrow> Inl (err child (ms_Name parent) p)
      | None \<Rightarrow> Inr (mput child parent m))"

definition switch_error :: "(model_switch \<Rightarrow> string) \<Rightarrow> string \<Rightarrow> string \<Rightarrow> model_switch \<Rightarrow> string" where
  "switch_error fmt sw parent p =
     ''switch '' @ quote sw @ '' has two parent switches '' @ quote parent @ '' and '' @ fmt p"

definition block_error :: "(model_switch \<Rightarrow> string) \<Rightarrow> string \<Rightarrow> string \<Rightarrow> model_switch \<Rightarrow> string" where
  "block_error fmt cb parent p =
     ''capacity block '' @ quote cb @ '' has two switches '' @ quote parent @ '' and '' @ fmt p"

definition parent_maps :: "(model_switch \<Rightarrow> string) \<Rightarrow> model_switch list \<Rightarrow> (swmap \<times> swmap) res" where
  "parent_maps fmt switches =
     fold_sum (\<lambda>parent (swmap, cbmap).
         bind_sum (fold_sum (add_parent (switch_error fmt) parent) (ms_Switches parent) swmap) (\<lambda>swmap.
         bind_sum (fold_sum (add_parent (block_error fmt) parent) (ms_CapacityBlocks parent) cbmap) (\<lambda>cbmap.
         Inr (swmap, cbmap))))
       switches ([], [])"

type_synonym node_state = "(string, model_node) gomap \<times> (string, (string, string) gomap) gomap"

definition region_of :: "(string, string) gomap \<Rightarrow> string" where
  "region_of metadata = (case map_of metadata ''region'' of None \<Rightarrow> ''none'' | Some r \<Rightarrow> r)"

definition add_node ::
  "CapacityBlock \<Rightarrow> string list \<Rightarrow> (string, string) gomap \<Rightarrow> string \<Rightarrow> node_state \<Rightarrow> node_state res" where
  "add_node cb netLayers metadata name st =
     (case st of (nodes, regions) \<Rightarrow>
        if map_of nodes name \<noteq> None then Inl (''duplicated node name '' @ quote name)
        else
          let node = \<lparr>mn_Name = name, mn_Metadata = metadata, mn_Type = cb_Type cb, mn_NVLink = cb_NVLink cb,
                      mn_NetLayers = netLayers, mn_CapacityBlock = cb_Name cb\<rparr>;
              region = region_of metadata
          in Inr (mput name node nodes, mput region (mput name (''n-'' @ name) (mget0 [] regions region)) regions))"

definition add_block :: "swmap \<Rightarrow> swmap \<Rightarrow> CapacityBlock \<Rightarrow> node_state \<Rightarrow> node_state res" where
  "add_block swmap cbmap cb st =
     bind_sum (case map_of cbmap (cb_Name cb) of
                 Some sw \<Rightarrow> getNetworkLayers sw swmap
               | None \<Rightarrow> Inr ([], []))
       (\<lambda>(netLayers, metadata). fold_sum (add_node cb netLayers metadata) (cb_Nodes cb) st)"

definition setNodeMap :: "(model_switch \<Rightarrow> string) \<Rightarrow> Model \<Rightarrow> Model res" where
  "setNodeMap fmt m =
     bind_sum (parent_maps fmt (mod_Switches m)) (\<lambda>(swmap, cbmap).
     bind_sum (fold_sum (add_block swmap cbmap) (mod_CapacityBlocks m) ([], [])) (\<lambda>(nodes, regions).
     Inr (m\<lparr>mod_Nodes := nodes,
            mod_Instances := map (\<lambda>region. \<lparr>Region = region, Instances = mget0 [] regions region\<rparr>) (sort (mkeys regions))\<rparr>)))"

definition expand_nodes :: "Model \<Rightarrow> Model" where
  "expand_nodes m =
     m\<lparr>mod_CapacityBlocks := map (\<lambda>cb. cb\<lparr>cb_Nodes := Expand (cb_Nodes cb)\<rparr>) (mod_CapacityBlocks m)\<rparr>"

definition NewModelFromFile ::
  "(string \<Rightarrow> string res) \<Rightarrow> (string \<Rightarrow> Model res) \<Rightarrow> (model_switch \<Rightarrow> string) \<Rightarrow> string \<Rightarrow> Model res" where
  "NewModelFromFile read_file unmarshal fmt fname =
     (case read_file fname of
        Inl err \<Rightarrow> Inl (''failed to read '' @ fname @ '': '' @ err)
      | Inr data \<Rightarrow>
          (case unmarshal data of
             Inl err \<Rightarrow> Inl (''failed to parse '' @ fname @ '': '' @ err)
           | Inr m \<Rightarrow> setNodeMap fmt (expand_nodes m)))"

section \<open>Graph\<close>

datatype child = ChildSwitch string | ChildNode string

type_synonym switch_cells = "(string, (string, child) gomap) gomap"

text \<open>The nodes of the first capacity block with the name.\<close>

definition block_nodes :: "CapacityBlock list \<Rightarrow> string \<Rightarrow> string list" where
  "block_nodes cbs cbname = (case find (\<lambda>cb. cb_Name cb = cbname) cbs of None \<Rightarrow> [] | Some cb \<Rightarrow> cb_Nodes cb)"

definition connect_switch :: "CapacityBlock list \<Rightarrow> model_switch \<Rightarrow> switch_cells \<Rightarrow> switch_cells" where
  "connect_switch cbs sw cells =
     mput (ms_Name sw)
       (fold (\<lambda>node. mput node (ChildNode node)) (concat (map (block_nodes cbs) (ms_CapacityBlocks sw)))
         (fold (\<lambda>subsw. mput subsw (ChildSwitch subsw)) (ms_Switches sw) (mget0 [] cells (ms_Name sw))))
       cells"

definition switch_cells_of :: "Model \<Rightarrow> switch_cells" where
  "switch_cells_of m =
     fold (connect_switch (mod_CapacityBlocks m)) (mod_Switches m)
       (fold (\<lambda>sw. mput (ms_Name sw) []) (mod_Switches m) [])"

definition root_map :: "Model \<Rightarrow> (string, bool) gomap" where
  "root_map m =
     fold (\<lambda>sw roots. fold (\<lambda>subsw. mput subsw False) (ms_Switches sw) roots) (mod_Switches m)
       (fold (\<lambda>sw. mput (ms_Name sw) True) (mod_Switches m) [])"

definition node_vertex :: "Model \<Rightarrow> string \<Rightarrow> vertex option" where
  "node_vertex m node = map_option (\<lambda>v. leaf (mn_Name v) (mn_Name v)) (map_of (mod_Nodes m) node)"

text \<open>All values of a list of optional values, if there are all.\<close>

fun all_some :: "('a \<times> 'b option) list \<Rightarrow> ('a \<times> 'b) list option" where
  "all_some [] = Some []"
| "all_some ((k, None) # xs) = None"
| "all_some ((k, Some v) # xs) = map_option (Cons (k, v)) (all_some xs)"

fun child_vertex :: "nat \<Rightarrow> Model \<Rightarrow> switch_cells \<Rightarrow> child \<Rightarrow> vertex option" where
  "child_vertex f m cells (ChildNode node) = node_vertex m node"
| "child_vertex 0 m cells (ChildSwitch name) = None"
| "child_vertex (Suc f) m cells (ChildSwitch name) =
     (case map_of cells name of
        None \<Rightarrow> None
      | Some cs \<Rightarrow>
          map_option (\<lambda>kids. Vertex [] name kids []) (all_some (map (\<lambda>(k, c). (k, child_vertex f m cells c)) cs)))"

definition block_vertices :: "Model \<Rightarrow> (string, vertex option) gomap" where
  "block_vertices m =
     fold (\<lambda>cb. mput (cb_Name cb)
             (map_option (\<lambda>kids. Vertex [] (cb_Name cb) kids [])
               (all_some (fold (\<lambda>node. mput node (node_vertex m node)) (cb_Nodes cb) []))))
       (mod_CapacityBlocks m) []"

definition ToGraph :: "Model \<Rightarrow> vertex option \<times> (string, string) gomap" where
  "ToGraph m =
     (let instance2node = map (\<lambda>(k, v). (k, ''n-'' @ k)) (mod_Nodes m);
          cells = switch_cells_of m;
          fuel = Suc (length (mod_Switches m));
          roots = filter snd (root_map m);
          tree = map_option (\<lambda>kids. Vertex [] [] kids [])
                   (all_some (map (\<lambda>(k, _). (k, child_vertex fuel m cells (ChildSwitch k))) roots));
          blocks = map_option (\<lambda>kids. Vertex [] [] kids []) (all_some (block_vertices m))
      in (case (tree, blocks) of
            (Some tree, Some blocks) \<Rightarrow>
              Some (Vertex [] []
                ((if list_ex (\<lambda>cb. length (cb_NVLink cb) \<noteq> 0) (mod_CapacityBlocks m) then [(TopologyBlock, blocks)] else []) @
                 [(TopologyTree, tree)]) [])
          | _ \<Rightarrow> None,
          instance2node))"

section \<open>Properties\<close>

definition parent_name :: "swmap \<Rightarrow> string \<Rightarrow> string option" where
  "parent_name swmap name = map_option ms_Name (map_of swmap name)"

definition parent_rel :: "swmap \<Rightarrow> (string \<times> string) set" where
  "parent_rel swmap = {(a, b). parent_name swmap a = Some b}"

text \<open>The layers so far are a chain of parents that ends below the switch, all of them visited.\<close>

definition chain_ok :: "swmap \<Rightarrow> string list \<Rightarrow> bool" where
  "chain_ok swmap layers \<longleftrightarrow> distinct layers \<and> (\<forall>i. Suc i < length layers \<longrightarrow> parent_name swmap (layers ! i) = Some (layers ! Suc i))"

lemma chain_reach:
  assumes "chain_ok swmap layers" and "i \<le> j" and "j < length layers"
  shows "(layers ! i, layers ! j) \<in> (parent_rel swmap)\<^sup>*"
  using assms(2,3)
proof (induction j rule: dec_induct)
  case (step j)
  then have "(layers ! j, layers ! Suc j) \<in> parent_rel swmap"
    using assms(1) by (simp add: chain_ok_def parent_rel_def)
  then show ?case using step by (meson Suc_lessD rtrancl.rtrancl_into_rtrancl)
qed simp

lemma chain_snoc:
  assumes "chain_ok swmap layers" and "layers \<noteq> [] \<longrightarrow> parent_name swmap (last layers) = Some name" and "name \<notin> set layers"
  shows "chain_ok swmap (layers @ [name])"
proof -
  have "parent_name swmap ((layers @ [name]) ! i) = Some ((layers @ [name]) ! Suc i)" if "Suc i < length (layers @ [name])" for i
  proof (cases "Suc i < length layers")
    case True
    then show ?thesis using assms(1) by (simp add: chain_ok_def nth_append)
  next
    case False
    then have "i = length layers - 1" "layers \<noteq> []" using that by auto
    then show ?thesis using assms(2) by (simp add: nth_append last_conv_nth)
  qed
  then show ?thesis using assms(1,3) by (simp add: chain_ok_def)
qed

lemma layers_loop_spec:
  assumes "chain_ok swmap layers" and "set visited = set layers"
    and "layers \<noteq> [] \<longrightarrow> parent_name swmap (last layers) = Some (ms_Name sw)"
  shows "case layers_loop swmap sw visited layers metadata of
      Inr (ls, md) \<Rightarrow> chain_ok swmap ls \<and> ls \<noteq> [] \<and> hd ls = hd (layers @ [ms_Name sw]) \<and> parent_name swmap (last ls) = None
    | Inl err \<Rightarrow> \<exists>x. (hd (layers @ [ms_Name sw]), x) \<in> (parent_rel swmap)\<^sup>* \<and> (x, x) \<in> (parent_rel swmap)\<^sup>+"
  using assms
proof (induction swmap sw visited layers metadata rule: layers_loop.induct)
  case (1 swmap sw visited layers metadata)
  show ?case
  proof (cases "ms_Name sw \<in> set visited")
    case True
    then obtain i where i: "i < length layers" "layers ! i = ms_Name sw" using 1(3) by (metis in_set_conv_nth)
    then have ne: "layers \<noteq> []" by auto
    have "(layers ! 0, layers ! i) \<in> (parent_rel swmap)\<^sup>*" by (rule chain_reach [OF 1(2)]) (use i in simp_all)
    moreover have "(layers ! i, layers ! (length layers - 1)) \<in> (parent_rel swmap)\<^sup>*"
      by (rule chain_reach [OF 1(2)]) (use i in simp_all)
    moreover have "(last layers, ms_Name sw) \<in> parent_rel swmap" using 1(4) ne by (simp add: parent_rel_def)
    ultimately have "(hd layers, ms_Name sw) \<in> (parent_rel swmap)\<^sup>*" "(ms_Name sw, ms_Name sw) \<in> (parent_rel swmap)\<^sup>+"
      using ne i(2) by (auto simp: hd_conv_nth last_conv_nth intro: rtrancl_into_trancl1)
    then show ?thesis using True ne by (subst layers_loop.simps) auto
  next
    case False
    let ?layers = "layers @ [ms_Name sw]"
    have chain: "chain_ok swmap ?layers" using chain_snoc [OF 1(2,4)] False 1(3) by simp
    show ?thesis
    proof (cases "map_of swmap (ms_Name sw)")
      case None
      then show ?thesis using False chain by (subst layers_loop.simps) (simp add: Let_def parent_name_def)
    next
      case (Some parent)
      have head: "hd (?layers @ [ms_Name parent]) = hd ?layers" by (cases layers) simp_all
      have "layers_loop swmap sw visited layers metadata = layers_loop swmap parent (ms_Name sw # visited) ?layers
          (fold (\<lambda>(k, v). mput k v) (ms_Metadata sw) metadata)"
        using False Some by (subst layers_loop.simps) (simp add: Let_def)
      then show ?thesis
        using 1(1) [OF refl False refl refl refl Some chain] 1(3) Some unfolding head
        by (simp add: parent_name_def)
    qed
  qed
qed

text \<open>
  C26. The layers of a switch: the walk up the parents always ends; it gives the chain of the switch and its
  ancestors up to one without a parent, no switch twice, or an error, and the error only when an ancestor of
  the switch is its own ancestor.
\<close>

theorem getNetworkLayers_spec:
  "case getNetworkLayers sw swmap of
     Inr (layers, metadata) \<Rightarrow> layers \<noteq> [] \<and> hd layers = ms_Name sw \<and> distinct layers \<and>
       (\<forall>i. Suc i < length layers \<longrightarrow> parent_name swmap (layers ! i) = Some (layers ! Suc i)) \<and>
       parent_name swmap (last layers) = None
   | Inl err \<Rightarrow> \<exists>x. (ms_Name sw, x) \<in> (parent_rel swmap)\<^sup>* \<and> (x, x) \<in> (parent_rel swmap)\<^sup>+"
proof -
  have "chain_ok swmap []" by (simp add: chain_ok_def)
  from layers_loop_spec [OF this, of "[]" sw "[]"] show ?thesis
    by (auto simp: getNetworkLayers_def chain_ok_def split: sum.splits)
qed

definition sample_switch :: "string \<Rightarrow> model_switch" where
  "sample_switch name = \<lparr>ms_Name = name, ms_Metadata = [(''region'', name)], ms_Switches = [], ms_CapacityBlocks = []\<rparr>"

theorem getNetworkLayers_spec_witness:
  "\<exists>layers metadata. getNetworkLayers (sample_switch ''leaf'') [(''leaf'', sample_switch ''spine''), (''spine'', sample_switch ''core'')] =
      Inr (layers, metadata) \<and> layers = [''leaf'', ''spine'', ''core''] \<and>
      parent_name [(''leaf'', sample_switch ''spine''), (''spine'', sample_switch ''core'')] (last layers) = None"
proof -
  have "getNetworkLayers (sample_switch ''leaf'') [(''leaf'', sample_switch ''spine''), (''spine'', sample_switch ''core'')] =
      Inr ([''leaf'', ''spine'', ''core''], [(''region'', ''core'')])" by code_simp
  then show ?thesis
    using getNetworkLayers_spec [of "sample_switch ''leaf''" "[(''leaf'', sample_switch ''spine''), (''spine'', sample_switch ''core'')]"]
    by auto
qed

section \<open>The switches above a capacity block\<close>

text \<open>
  What the layers of a capacity block are: the switch that lists the block, the switch that lists that switch, and so
  on up to one that no switch lists; none when no switch lists the block. Of two entries with the same key the
  metadata of a block have the one of the upper switch.
\<close>

definition switch_chain :: "model_switch list \<Rightarrow> string \<Rightarrow> model_switch list \<Rightarrow> bool" where
  "switch_chain switches cb sws \<longleftrightarrow>
     set sws \<subseteq> set switches \<and> distinct (map ms_Name sws) \<and>
     (if sws = [] then \<forall>sw \<in> set switches. cb \<notin> set (ms_CapacityBlocks sw)
      else cb \<in> set (ms_CapacityBlocks (hd sws)) \<and>
           (\<forall>i. Suc i < length sws \<longrightarrow> ms_Name (sws ! i) \<in> set (ms_Switches (sws ! Suc i))) \<and>
           (\<forall>sw \<in> set switches. ms_Name (last sws) \<notin> set (ms_Switches sw)))"

definition chain_metadata :: "model_switch list \<Rightarrow> string \<Rightarrow> string option" where
  "chain_metadata sws = map_of (rev (concat (map ms_Metadata sws)))"

lemma add_parent_lookup:
  "fold_sum (add_parent err parent) cs m = Inr m' \<Longrightarrow>
    map_of m' c = Some p \<longleftrightarrow> map_of m c = Some p \<or> p = parent \<and> c \<in> set cs"
proof (induction cs arbitrary: m)
  case (Cons child cs)
  then obtain m1 where one: "add_parent err parent child m = Inr m1" and rest: "fold_sum (add_parent err parent) cs m1 = Inr m'"
    by (auto split: sum.splits)
  have fresh: "map_of m child = None" and m1: "m1 = mput child parent m"
    using one by (auto simp: add_parent_def split: option.splits)
  show ?case using Cons.IH [OF rest] fresh unfolding m1 by (auto simp: update_conv')
qed simp

lemma parent_maps_lookup:
  assumes "parent_maps fmt switches = Inr (swmap, cbmap)"
  shows "map_of swmap c = Some p \<longleftrightarrow> p \<in> set switches \<and> c \<in> set (ms_Switches p)"
    and "map_of cbmap c = Some p \<longleftrightarrow> p \<in> set switches \<and> c \<in> set (ms_CapacityBlocks p)"
proof -
  let ?step = "\<lambda>parent (swmap, cbmap).
         bind_sum (fold_sum (add_parent (switch_error fmt) parent) (ms_Switches parent) swmap) (\<lambda>swmap.
         bind_sum (fold_sum (add_parent (block_error fmt) parent) (ms_CapacityBlocks parent) cbmap) (\<lambda>cbmap.
         Inr (swmap, cbmap)))"
  have "fold_sum ?step sws (s, b) = Inr (s', b') \<Longrightarrow>
      (\<forall>c p. (map_of s' c = Some p \<longleftrightarrow> map_of s c = Some p \<or> p \<in> set sws \<and> c \<in> set (ms_Switches p)) \<and>
             (map_of b' c = Some p \<longleftrightarrow> map_of b c = Some p \<or> p \<in> set sws \<and> c \<in> set (ms_CapacityBlocks p)))"
    for sws s b s' b'
  proof (induction sws arbitrary: s b)
    case (Cons parent sws)
    obtain st where one: "?step parent (s, b) = Inr st" and rest: "fold_sum ?step sws st = Inr (s', b')"
      using Cons.prems unfolding fold_sum.simps by (auto split: sum.splits)
    obtain s1 where s1: "fold_sum (add_parent (switch_error fmt) parent) (ms_Switches parent) s = Inr s1"
      and one': "bind_sum (fold_sum (add_parent (block_error fmt) parent) (ms_CapacityBlocks parent) b) (\<lambda>cbmap. Inr (s1, cbmap)) = Inr st"
      using one unfolding prod.case by (erule bind_sum_InrE)
    obtain b1 where b1: "fold_sum (add_parent (block_error fmt) parent) (ms_CapacityBlocks parent) b = Inr b1" and st: "st = (s1, b1)"
      using one' by (elim bind_sum_InrE) simp
    note IH = Cons.IH [OF rest [unfolded st]]
    show ?case
      using IH add_parent_lookup [OF s1] add_parent_lookup [OF b1] by auto
  qed simp
  from this [OF assms [unfolded parent_maps_def]]
  show "map_of swmap c = Some p \<longleftrightarrow> p \<in> set switches \<and> c \<in> set (ms_Switches p)"
    and "map_of cbmap c = Some p \<longleftrightarrow> p \<in> set switches \<and> c \<in> set (ms_CapacityBlocks p)" by simp_all
qed

lemma put_metadata: "map_of (fold (\<lambda>(k, v). mput k v) xs md) = map_of md ++ map_of (rev xs)"
  by (induction xs arbitrary: md) (auto simp: update_conv' map_add_def fun_eq_iff split: option.split)

lemma layers_loop_switches:
  "layers_loop swmap sw visited layers metadata = Inr (ls, md) \<Longrightarrow>
    \<exists>sws. sws \<noteq> [] \<and> hd sws = sw \<and> ls = layers @ map ms_Name sws \<and>
      map_of md = map_of metadata ++ chain_metadata sws \<and>
      distinct (map ms_Name sws) \<and> set (map ms_Name sws) \<inter> set visited = {} \<and>
      (\<forall>i. Suc i < length sws \<longrightarrow> map_of swmap (ms_Name (sws ! i)) = Some (sws ! Suc i)) \<and>
      map_of swmap (ms_Name (last sws)) = None"
proof (induction swmap sw visited layers metadata rule: layers_loop.induct)
  case (1 swmap sw visited layers metadata)
  let ?md = "fold (\<lambda>(k, v). mput k v) (ms_Metadata sw) metadata"
  have fresh: "ms_Name sw \<notin> set visited"
    using 1(2) by (subst (asm) layers_loop.simps) (simp add: Let_def split: if_splits)
  show ?case
  proof (cases "map_of swmap (ms_Name sw)")
    case None
    then have "ls = layers @ [ms_Name sw]" "md = ?md"
      using 1(2) fresh by (subst (asm) layers_loop.simps, simp add: Let_def)+
    then show ?thesis
      using fresh None by (intro exI [of _ "[sw]"]) (simp add: put_metadata chain_metadata_def)
  next
    case (Some parent)
    then have loop: "layers_loop swmap parent (ms_Name sw # visited) (layers @ [ms_Name sw]) ?md = Inr (ls, md)"
      using 1(2) fresh by (subst (asm) layers_loop.simps) (simp add: Let_def)
    obtain sws where sws: "sws \<noteq> []" "hd sws = parent" "ls = (layers @ [ms_Name sw]) @ map ms_Name sws"
      "map_of md = map_of ?md ++ chain_metadata sws" "distinct (map ms_Name sws)"
      "set (map ms_Name sws) \<inter> set (ms_Name sw # visited) = {}"
      "\<forall>i. Suc i < length sws \<longrightarrow> map_of swmap (ms_Name (sws ! i)) = Some (sws ! Suc i)"
      "map_of swmap (ms_Name (last sws)) = None"
      using 1(1) [OF refl fresh refl refl refl Some loop] by blast
    have "map_of md = map_of metadata ++ chain_metadata (sw # sws)"
      unfolding sws(4) put_metadata chain_metadata_def by simp
    moreover have "map_of swmap (ms_Name ((sw # sws) ! i)) = Some ((sw # sws) ! Suc i)" if "Suc i < length (sw # sws)" for i
      using that sws(1,2,7) Some by (cases i) (auto simp: hd_conv_nth)
    ultimately show ?thesis
      using sws fresh by (intro exI [of _ "sw # sws"]) auto
  qed
qed

lemma getNetworkLayers_chain:
  assumes maps: "parent_maps fmt switches = Inr (swmap, cbmap)"
    and layers: "(case map_of cbmap cb of Some sw \<Rightarrow> getNetworkLayers sw swmap | None \<Rightarrow> Inr ([], [])) = Inr (ls, md)"
  shows "\<exists>sws. switch_chain switches cb sws \<and> ls = map ms_Name sws \<and> map_of md = chain_metadata sws"
proof (cases "map_of cbmap cb")
  case None
  then have "cb \<notin> set (ms_CapacityBlocks sw)" if "sw \<in> set switches" for sw
    using parent_maps_lookup(2) [OF maps, of cb sw] that by simp
  then show ?thesis
    using layers None by (intro exI [of _ "[]"]) (simp add: switch_chain_def chain_metadata_def)
next
  case (Some sw)
  then have "layers_loop swmap sw [] [] [] = Inr (ls, md)" using layers by (simp add: getNetworkLayers_def)
  from layers_loop_switches [OF this] obtain sws where sws: "sws \<noteq> []" "hd sws = sw" "ls = map ms_Name sws"
    "map_of md = chain_metadata sws" "distinct (map ms_Name sws)"
    "\<forall>i. Suc i < length sws \<longrightarrow> map_of swmap (ms_Name (sws ! i)) = Some (sws ! Suc i)"
    "map_of swmap (ms_Name (last sws)) = None" by auto
  note up = parent_maps_lookup(1) [OF maps] and own = parent_maps_lookup(2) [OF maps, of cb sw]
  have "sws ! i \<in> set switches" if "i < length sws" for i
    using that sws(1,2,6) own Some up by (cases i) (auto simp: hd_conv_nth)
  then have "set sws \<subseteq> set switches" by (auto simp: in_set_conv_nth)
  moreover have "ms_Name (last sws) \<notin> set (ms_Switches p)" if "p \<in> set switches" for p
    using up [of "ms_Name (last sws)" p] sws(7) that by simp
  moreover have "cb \<in> set (ms_CapacityBlocks (hd sws))" using own Some sws(2) by simp
  ultimately have "switch_chain switches cb sws"
    using sws(1,5,6) up by (simp add: switch_chain_def)
  then show ?thesis using sws by blast
qed

section \<open>The nodes of an accepted model\<close>

text \<open>\<open>P\<close> is what holds of the layers and the metadata of a block.\<close>

definition node_of :: "CapacityBlock \<Rightarrow> string list \<Rightarrow> (string, string) gomap \<Rightarrow> string \<Rightarrow> model_node" where
  "node_of cb layers metadata name =
     \<lparr>mn_Name = name, mn_Metadata = metadata, mn_Type = cb_Type cb, mn_NVLink = cb_NVLink cb,
      mn_NetLayers = layers, mn_CapacityBlock = cb_Name cb\<rparr>"

definition nodes_inv ::
  "(CapacityBlock \<Rightarrow> string list \<Rightarrow> (string, string) gomap \<Rightarrow> bool) \<Rightarrow> (string \<times> CapacityBlock) list \<Rightarrow> node_state \<Rightarrow> bool" where
  "nodes_inv P seen st \<longleftrightarrow> distinct (map fst seen) \<and>
     (\<forall>name. map_of (fst st) name = None \<longleftrightarrow> name \<notin> fst ` set seen) \<and>
     (\<forall>name n. map_of (fst st) name = Some n \<longrightarrow>
        (\<exists>cb layers metadata. (name, cb) \<in> set seen \<and> P cb layers metadata \<and> n = node_of cb layers metadata name)) \<and>
     (\<forall>region name v. map_of (mget0 [] (snd st) region) name = Some v \<longleftrightarrow>
        v = ''n-'' @ name \<and> (\<exists>n. map_of (fst st) name = Some n \<and> region = region_of (mn_Metadata n))) \<and>
     distinct (mkeys (snd st)) \<and>
     (\<forall>region. region \<in> set (mkeys (snd st)) \<longleftrightarrow> (\<exists>name n. map_of (fst st) name = Some n \<and> region = region_of (mn_Metadata n)))"

lemma add_node_inv:
  assumes "nodes_inv P seen st" and "add_node cb layers metadata name st = Inr st'" and "P cb layers metadata"
  shows "nodes_inv P (seen @ [(name, cb)]) st'"
proof -
  obtain nodes regions where st: "st = (nodes, regions)" by (cases st)
  let ?region = "region_of metadata" and ?v = "''n-'' @ name" and ?node = "node_of cb layers metadata name"
  have fresh: "map_of nodes name = None"
    and st': "st' = (mput name ?node nodes, mput ?region (mput name ?v (mget0 [] regions ?region)) regions)"
    using assms(2) by (auto simp: add_node_def node_of_def st Let_def split: if_splits)
  have look: "map_of (mput name ?node nodes) = (map_of nodes)(name \<mapsto> ?node)" by (simp add: update_conv')
  have regs: "map_of (mget0 [] (mput ?region (mput name ?v (mget0 [] regions ?region)) regions) r) j =
      (if r = ?region \<and> j = name then Some ?v else map_of (mget0 [] regions r) j)" for r j
    by (simp add: mget0_def update_conv')
  have meta: "mn_Metadata ?node = metadata" by (simp add: node_of_def)
  note inv = assms(1) [unfolded nodes_inv_def st fst_conv snd_conv]
  have insts: "\<And>r j v. map_of (mget0 [] regions r) j = Some v \<longleftrightarrow>
      v = ''n-'' @ j \<and> (\<exists>n. map_of nodes j = Some n \<and> r = region_of (mn_Metadata n))" using inv by blast
  have keys: "\<And>r. r \<in> set (mkeys regions) \<longleftrightarrow> (\<exists>j n. map_of nodes j = Some n \<and> r = region_of (mn_Metadata n))" using inv by blast
  show ?thesis unfolding nodes_inv_def st' fst_conv snd_conv regs look mkeys_mput
  proof (intro conjI allI impI)
    show "distinct (map fst (seen @ [(name, cb)]))" using inv fresh by auto
    show "(((map_of nodes)(name \<mapsto> ?node)) j = None) = (j \<notin> fst ` set (seen @ [(name, cb)]))" for j
      using inv by auto
    show "\<exists>cb' ls md. (j, cb') \<in> set (seen @ [(name, cb)]) \<and> P cb' ls md \<and> n = node_of cb' ls md j"
      if "((map_of nodes)(name \<mapsto> ?node)) j = Some n" for j n
    proof (cases "j = name")
      case True
      then show ?thesis using that assms(3) by auto
    next
      case False
      then have "map_of nodes j = Some n" using that by simp
      then obtain cb' ls md where "(j, cb') \<in> set seen" "P cb' ls md" "n = node_of cb' ls md j"
        using inv [THEN conjunct2, THEN conjunct2, THEN conjunct1, rule_format, of j n] by blast
      then show ?thesis by auto
    qed
    show "((if r = ?region \<and> j = name then Some ?v else map_of (mget0 [] regions r) j) = Some v) =
        (v = ''n-'' @ j \<and> (\<exists>n. ((map_of nodes)(name \<mapsto> ?node)) j = Some n \<and> r = region_of (mn_Metadata n)))" for r j v
      using insts [of r j v] fresh meta by (cases "j = name") auto
    show "distinct (mkeys (mput ?region (mput name ?v (mget0 [] regions ?region)) regions))" using inv by simp
    have old: "(\<exists>n. ((map_of nodes)(name \<mapsto> ?node)) j = Some n \<and> r = region_of (mn_Metadata n)) \<longleftrightarrow>
        j = name \<and> r = ?region \<or> (\<exists>n. map_of nodes j = Some n \<and> r = region_of (mn_Metadata n))" for r j
      using fresh meta by (cases "j = name") auto
    show "(r \<in> insert ?region (set (mkeys regions))) =
        (\<exists>j n. ((map_of nodes)(name \<mapsto> ?node)) j = Some n \<and> r = region_of (mn_Metadata n))" for r
      unfolding old using keys [of r] by blast
  qed
qed

lemma add_nodes_inv:
  "nodes_inv P seen st \<Longrightarrow> fold_sum (add_node cb layers metadata) names st = Inr st' \<Longrightarrow> P cb layers metadata \<Longrightarrow>
    nodes_inv P (seen @ map (\<lambda>name. (name, cb)) names) st'"
proof (induction names arbitrary: seen st)
  case (Cons name names)
  then obtain st1 where "add_node cb layers metadata name st = Inr st1" "fold_sum (add_node cb layers metadata) names st1 = Inr st'"
    by (auto split: sum.splits)
  then show ?case using Cons.IH [OF add_node_inv [OF Cons.prems(1) _ Cons.prems(3)]] Cons.prems(3) by simp
qed simp

definition block_entries :: "CapacityBlock list \<Rightarrow> (string \<times> CapacityBlock) list" where
  "block_entries cbs = concat (map (\<lambda>cb. map (\<lambda>name. (name, cb)) (cb_Nodes cb)) cbs)"

lemma add_blocks_inv:
  assumes layers: "\<And>cb ls md. (case map_of cbmap (cb_Name cb) of Some sw \<Rightarrow> getNetworkLayers sw swmap | None \<Rightarrow> Inr ([], [])) = Inr (ls, md) \<Longrightarrow> P cb ls md"
  shows "nodes_inv P seen st \<Longrightarrow> fold_sum (add_block swmap cbmap) cbs st = Inr st' \<Longrightarrow> nodes_inv P (seen @ block_entries cbs) st'"
proof (induction cbs arbitrary: seen st)
  case (Cons cb cbs)
  then obtain st1 where one: "add_block swmap cbmap cb st = Inr st1" and rest: "fold_sum (add_block swmap cbmap) cbs st1 = Inr st'"
    by (auto split: sum.splits)
  from one obtain ls md where "(case map_of cbmap (cb_Name cb) of Some sw \<Rightarrow> getNetworkLayers sw swmap | None \<Rightarrow> Inr ([], [])) = Inr (ls, md)"
    "fold_sum (add_node cb ls md) (cb_Nodes cb) st = Inr st1"
    unfolding add_block_def by (elim bind_sum_InrE) (auto split: prod.splits)
  from add_nodes_inv [OF Cons.prems(1) this(2) layers [OF this(1)]]
  have "nodes_inv P (seen @ map (\<lambda>name. (name, cb)) (cb_Nodes cb)) st1" .
  from Cons.IH [OF this rest] show ?case by (simp add: block_entries_def)
qed (simp add: block_entries_def)

text \<open>What the nodes and the instances of an accepted model are.\<close>

lemma setNodeMap_inv:
  assumes "setNodeMap fmt m = Inr m'"
  shows "\<exists>nodes regions.
    nodes_inv (\<lambda>cb ls md. \<exists>sws. switch_chain (mod_Switches m) (cb_Name cb) sws \<and> ls = map ms_Name sws \<and> map_of md = chain_metadata sws)
      (block_entries (mod_CapacityBlocks m)) (nodes, regions) \<and>
    m' = m\<lparr>mod_Nodes := nodes,
           mod_Instances := map (\<lambda>region. \<lparr>Region = region, Instances = mget0 [] regions region\<rparr>) (sort (mkeys regions))\<rparr>"
    (is "\<exists>nodes regions. nodes_inv ?P _ _ \<and> _")
proof -
  obtain maps where one: "parent_maps fmt (mod_Switches m) = Inr maps"
    and rest: "(case maps of (swmap, cbmap) \<Rightarrow>
      bind_sum (fold_sum (add_block swmap cbmap) (mod_CapacityBlocks m) ([], [])) (\<lambda>(nodes, regions).
      Inr (m\<lparr>mod_Nodes := nodes,
        mod_Instances := map (\<lambda>region. \<lparr>Region = region, Instances = mget0 [] regions region\<rparr>) (sort (mkeys regions))\<rparr>))) = Inr m'"
    using assms unfolding setNodeMap_def by (rule bind_sum_InrE)
  obtain swmap cbmap where maps: "maps = (swmap, cbmap)" by (cases maps)
  from rest obtain nodes regions where run: "fold_sum (add_block swmap cbmap) (mod_CapacityBlocks m) ([], []) = Inr (nodes, regions)"
    and m': "m' = m\<lparr>mod_Nodes := nodes,
        mod_Instances := map (\<lambda>region. \<lparr>Region = region, Instances = mget0 [] regions region\<rparr>) (sort (mkeys regions))\<rparr>"
    unfolding maps prod.case by (elim bind_sum_InrE) (auto split: prod.splits)
  have "nodes_inv ?P [] ([], [])" by (simp add: nodes_inv_def mget0_def)
  from add_blocks_inv [where P = ?P, OF getNetworkLayers_chain [OF one [unfolded maps]] this run]
  show ?thesis using m' by auto
qed

text \<open>
  C25. A model that is accepted is a function on nodes: no node name occurs twice in its capacity blocks, and every
  such name has one node; the node has the type, the NVLink domain and the name of its block, as layers the names
  of the switches from the one that lists the block up to one that no switch lists, and the metadata of these
  switches, the upper ones first. The instances are one group for each region that the metadata of a node give, or
  \<open>none\<close>, in sorted order, and the group of a region maps exactly the nodes of the region to their host names.
\<close>

theorem setNodeMap_nodes:
  assumes "setNodeMap fmt m = Inr m'"
  shows "distinct (concat (map cb_Nodes (mod_CapacityBlocks m))) \<and>
    (\<forall>name. map_of (mod_Nodes m') name \<noteq> None \<longleftrightarrow> (\<exists>cb \<in> set (mod_CapacityBlocks m). name \<in> set (cb_Nodes cb))) \<and>
    (\<forall>name n. map_of (mod_Nodes m') name = Some n \<longrightarrow>
       (\<exists>cb \<in> set (mod_CapacityBlocks m). \<exists>sws. name \<in> set (cb_Nodes cb) \<and> switch_chain (mod_Switches m) (cb_Name cb) sws \<and>
          mn_Name n = name \<and> mn_Type n = cb_Type cb \<and> mn_NVLink n = cb_NVLink cb \<and> mn_CapacityBlock n = cb_Name cb \<and>
          mn_NetLayers n = map ms_Name sws \<and> map_of (mn_Metadata n) = chain_metadata sws)) \<and>
    sorted (map Region (mod_Instances m')) \<and> distinct (map Region (mod_Instances m')) \<and>
    set (map Region (mod_Instances m')) = {region_of (mn_Metadata n) | name n. map_of (mod_Nodes m') name = Some n} \<and>
    (\<forall>ci \<in> set (mod_Instances m'). \<forall>name host. map_of (Instances ci) name = Some host \<longleftrightarrow>
       host = ''n-'' @ name \<and> (\<exists>n. map_of (mod_Nodes m') name = Some n \<and> Region ci = region_of (mn_Metadata n)))"
proof -
  obtain nodes regions where inv: "nodes_inv (\<lambda>cb ls md. \<exists>sws. switch_chain (mod_Switches m) (cb_Name cb) sws \<and>
        ls = map ms_Name sws \<and> map_of md = chain_metadata sws) (block_entries (mod_CapacityBlocks m)) (nodes, regions)"
    and m': "m' = m\<lparr>mod_Nodes := nodes,
        mod_Instances := map (\<lambda>region. \<lparr>Region = region, Instances = mget0 [] regions region\<rparr>) (sort (mkeys regions))\<rparr>"
    using setNodeMap_inv [OF assms] by blast
  have names: "map fst (block_entries cbs) = concat (map cb_Nodes cbs)" for cbs
    by (induction cbs) (simp_all add: block_entries_def comp_def)
  have mem: "(name, cb) \<in> set (block_entries cbs) \<longleftrightarrow> cb \<in> set cbs \<and> name \<in> set (cb_Nodes cb)" for name cb cbs
    by (auto simp: block_entries_def)
  have dom: "(\<exists>cb. (name, cb) \<in> set (block_entries cbs)) \<longleftrightarrow> name \<in> fst ` set (block_entries cbs)" for name cbs
    by force
  note parts = inv [unfolded nodes_inv_def fst_conv snd_conv]
  have fresh: "distinct (concat (map cb_Nodes (mod_CapacityBlocks m)))" using parts [THEN conjunct1] unfolding names .
  have known: "(map_of nodes name \<noteq> None) = (\<exists>cb \<in> set (mod_CapacityBlocks m). name \<in> set (cb_Nodes cb))" for name
  proof -
    have "(map_of nodes name \<noteq> None) = (name \<in> fst ` set (block_entries (mod_CapacityBlocks m)))"
      using parts [THEN conjunct2, THEN conjunct1] by simp
    also have "\<dots> = (\<exists>cb. (name, cb) \<in> set (block_entries (mod_CapacityBlocks m)))" by (rule dom [symmetric])
    finally show ?thesis unfolding mem by blast
  qed
  have above: "\<exists>cb \<in> set (mod_CapacityBlocks m). \<exists>sws. name \<in> set (cb_Nodes cb) \<and> switch_chain (mod_Switches m) (cb_Name cb) sws \<and>
      mn_Name n = name \<and> mn_Type n = cb_Type cb \<and> mn_NVLink n = cb_NVLink cb \<and> mn_CapacityBlock n = cb_Name cb \<and>
      mn_NetLayers n = map ms_Name sws \<and> map_of (mn_Metadata n) = chain_metadata sws"
    if node: "map_of nodes name = Some n" for name n
  proof -
    obtain cb ls md sws where cb: "(name, cb) \<in> set (block_entries (mod_CapacityBlocks m))"
      "switch_chain (mod_Switches m) (cb_Name cb) sws" "ls = map ms_Name sws" "map_of md = chain_metadata sws"
      "n = node_of cb ls md name"
      using parts [THEN conjunct2, THEN conjunct2, THEN conjunct1, rule_format, OF node] by blast
    then show ?thesis unfolding mem by (intro bexI [of _ cb] exI [of _ sws]) (simp_all add: node_of_def)
  qed
  have insts: "(map_of (mget0 [] regions region) name = Some host) =
      (host = ''n-'' @ name \<and> (\<exists>n. map_of nodes name = Some n \<and> region = region_of (mn_Metadata n)))" for region name host
    using parts [THEN conjunct2, THEN conjunct2, THEN conjunct2, THEN conjunct1] by blast
  have once: "distinct (mkeys regions)"
    and keys: "\<And>region. region \<in> set (mkeys regions) \<longleftrightarrow> (\<exists>name n. map_of nodes name = Some n \<and> region = region_of (mn_Metadata n))"
    using parts [THEN conjunct2, THEN conjunct2, THEN conjunct2, THEN conjunct2] by blast+
  have nodes: "mod_Nodes m' = nodes" and regs: "map Region (mod_Instances m') = sort (mkeys regions)" by (simp_all add: m' comp_def)
  have one: "\<exists>region. ci = \<lparr>Region = region, Instances = mget0 [] regions region\<rparr>" if "ci \<in> set (mod_Instances m')" for ci
    using that by (auto simp: m')
  show ?thesis
    unfolding nodes regs
  proof (intro conjI allI ballI impI)
    show "sorted (sort (mkeys regions))" "distinct (sort (mkeys regions))" using once by simp_all
    show "set (sort (mkeys regions)) = {region_of (mn_Metadata n) |name n. map_of nodes name = Some n}"
      unfolding set_sort using keys by blast
    show "(map_of (Instances ci) name = Some host) =
        (host = ''n-'' @ name \<and> (\<exists>n. map_of nodes name = Some n \<and> Region ci = region_of (mn_Metadata n)))"
      if "ci \<in> set (mod_Instances m')" for ci name host
      using one [OF that] insts [of _ name host] by auto
  qed (rule fresh known above; assumption?)+
qed

definition sample_model :: Model where
  "sample_model =
     \<lparr>mod_Switches =
        [\<lparr>ms_Name = ''core'', ms_Metadata = [(''region'', ''us'')], ms_Switches = [''leaf''], ms_CapacityBlocks = []\<rparr>,
         \<lparr>ms_Name = ''leaf'', ms_Metadata = [], ms_Switches = [], ms_CapacityBlocks = [''cb1'']\<rparr>],
      mod_CapacityBlocks = [\<lparr>cb_Name = ''cb1'', cb_Type = ''H100'', cb_NVLink = ''nvl1'', cb_Nodes = [''n1'', ''n2'']\<rparr>],
      mod_Nodes = [], mod_Instances = []\<rparr>"

theorem setNodeMap_nodes_witness:
  "\<exists>m' n sws. setNodeMap (\<lambda>_. []) sample_model = Inr m' \<and> map_of (mod_Nodes m') ''n1'' = Some n \<and> mn_CapacityBlock n = ''cb1'' \<and>
     switch_chain (mod_Switches sample_model) ''cb1'' sws \<and> mn_NetLayers n = map ms_Name sws \<and>
     mn_NetLayers n = [''leaf'', ''core''] \<and> map_of (mn_Metadata n) ''region'' = Some ''us'' \<and>
     mod_Instances m' = [\<lparr>Region = ''us'', Instances = [(''n1'', ''n-n1''), (''n2'', ''n-n2'')]\<rparr>]"
proof -
  let ?run = "setNodeMap (\<lambda>_. []) sample_model"
  have "isl ?run = False" "map_option mn_NetLayers (map_of (mod_Nodes (projr ?run)) ''n1'') = Some [''leaf'', ''core'']"
    "map_option (\<lambda>n. map_of (mn_Metadata n) ''region'') (map_of (mod_Nodes (projr ?run)) ''n1'') = Some (Some ''us'')"
    "mod_Instances (projr ?run) = [\<lparr>Region = ''us'', Instances = [(''n1'', ''n-n1''), (''n2'', ''n-n2'')]\<rparr>]"
    by code_simp+
  then obtain m' n where m': "?run = Inr m'" "map_of (mod_Nodes m') ''n1'' = Some n" "mn_NetLayers n = [''leaf'', ''core'']"
    "map_of (mn_Metadata n) ''region'' = Some ''us''"
    "mod_Instances m' = [\<lparr>Region = ''us'', Instances = [(''n1'', ''n-n1''), (''n2'', ''n-n2'')]\<rparr>]"
    by (cases ?run) auto
  from setNodeMap_nodes [OF m'(1), THEN conjunct2, THEN conjunct2, THEN conjunct1, rule_format, OF m'(2)]
  obtain cb sws where "cb \<in> set (mod_CapacityBlocks sample_model)" "switch_chain (mod_Switches sample_model) (cb_Name cb) sws"
    "mn_CapacityBlock n = cb_Name cb" "mn_NetLayers n = map ms_Name sws" by blast
  moreover from this(1) have "cb_Name cb = ''cb1''" by (simp add: sample_model_def)
  ultimately show ?thesis using m' by (intro exI [of _ m'] exI [of _ n] exI [of _ sws]) simp
qed

end
