(* ===== verification/Paging.thy ===== *)
theory Paging
  imports Graph Exec Models
begin

text \<open>
  The loop that the cloud providers share: ask the service for a page of instances, add those that are wanted
  to the cluster, and go on with the token of the next page until there is none. The service is a call on the
  state \<open>'s\<close>; adding may fail or panic (\<open>None\<close>), and a service that always has a next page keeps the
  loop running, so that the loop itself has the result \<open>None\<close> when it does not return.
\<close>

partial_function (option) page_loop ::
  "('q \<Rightarrow> ('s, 'p) pcall) \<Rightarrow> ('p \<Rightarrow> cluster \<Rightarrow> cluster http_res option) \<Rightarrow> ('q \<Rightarrow> 'p \<Rightarrow> 'q option) \<Rightarrow> 'q \<Rightarrow> cluster \<Rightarrow> 's \<Rightarrow>
   (cluster http_res option \<times> 's) option" where
  "page_loop fetch add next_req req topo s =
     (case fetch req s of
        (None, s) \<Rightarrow> Some (None, s)
      | (Some (Inl err), s) \<Rightarrow> Some (Some (Inl err), s)
      | (Some (Inr page), s) \<Rightarrow>
          (case add page topo of
             None \<Rightarrow> Some (None, s)
           | Some (Inl err) \<Rightarrow> Some (Some (Inl err), s)
           | Some (Inr topo) \<Rightarrow>
               (case next_req req page of
                  None \<Rightarrow> Some (Some (Inr topo), s)
                | Some req \<Rightarrow> page_loop fetch add next_req req topo s)))"

declare page_loop.simps [code]

definition paged ::
  "('q \<Rightarrow> ('s, 'p) pcall) \<Rightarrow> ('p \<Rightarrow> cluster \<Rightarrow> cluster http_res option) \<Rightarrow> ('q \<Rightarrow> 'p \<Rightarrow> 'q option) \<Rightarrow> 'q \<Rightarrow> cluster \<Rightarrow> ('s, cluster) pcall" where
  "paged fetch add next_req req topo s =
     (case page_loop fetch add next_req req topo s of None \<Rightarrow> (None, s) | Some r \<Rightarrow> r)"

text \<open>The regions of a request one after the other, all into one cluster.\<close>

fun all_regions :: "(compute_instances \<Rightarrow> cluster \<Rightarrow> ('s, cluster) pcall) \<Rightarrow> compute_instances list \<Rightarrow> cluster \<Rightarrow> ('s, cluster) pcall" where
  "all_regions f [] topo s = (Some (Inr topo), s)"
| "all_regions f (ci # cis) topo s = then_pcall (f ci topo) (all_regions f cis) s"

text \<open>
  A call of a client: \<open>None\<close> when it panics or does not return, else a plain error or a value; the
  caller turns the error into an HTTP error with a message.
\<close>

type_synonym ('s, 'a) service = "'s \<Rightarrow> 'a res option \<times> 's"

definition answered :: "('s \<Rightarrow> 'a res \<times> 's) \<Rightarrow> ('s, 'a) service" where
  "answered c s = (case c s of (r, s) \<Rightarrow> (Some r, s))"

definition call_res :: "nat \<Rightarrow> string \<Rightarrow> ('s, 'a) service \<Rightarrow> ('s, 'a) pcall" where
  "call_res code msg c s =
     (case c s of
        (None, s) \<Rightarrow> (None, s)
      | (Some (Inl err), s) \<Rightarrow> (Some (Inl (NewError code (msg @ err))), s)
      | (Some (Inr x), s) \<Rightarrow> (Some (Inr x), s))"

lemma call_res_Inr: "c s = (Some (Inr x), s') \<Longrightarrow> call_res code msg c s = (Some (Inr x), s')"
  by (simp add: call_res_def)

text \<open>The graph of a cluster; \<open>None\<close> when its switches form a cycle, so that it is no tree.\<close>

definition three_tier :: "string \<Rightarrow> compute_instances list \<Rightarrow> bool \<Rightarrow> cluster \<Rightarrow> vertex option" where
  "three_tier prov cis normalise topo = fst (snd (ToThreeTierGraph prov cis normalise topo))"

definition return_pcall :: "'a http_res \<Rightarrow> ('s, 'a) pcall" where
  "return_pcall r s = (Some r, s)"

definition map_pcall :: "('a \<Rightarrow> 'b option) \<Rightarrow> ('s, 'a) pcall \<Rightarrow> ('s, 'b) pcall" where
  "map_pcall f c s =
     (case c s of (None, s) \<Rightarrow> (None, s) | (Some (Inl err), s) \<Rightarrow> (Some (Inl err), s) | (Some (Inr x), s) \<Rightarrow> (map_option Inr (f x), s))"

section \<open>Simulations\<close>

text \<open>
  \<open>pkg/providers/providers_sim.go\<close>, with the configuration decoder as argument, and what the loaders of
  all simulations start with: the parameters and the model. \<open>load\<close> is \<open>NewModelFromFile\<close> on the files
  of the system.
\<close>

definition ErrAPIError :: string where "ErrAPIError = ''API error''"

definition GetSimulationParams :: "('v \<Rightarrow> (string \<times> int) res) \<Rightarrow> 'v \<Rightarrow> (string \<times> int) res" where
  "GetSimulationParams decode params =
     (case decode params of
        Inl err \<Rightarrow> Inl (''error decoding params: '' @ err)
      | Inr (modelPath, apiError) \<Rightarrow>
          if length modelPath = 0 then Inl ''no model path for simulation'' else Inr (modelPath, apiError))"

definition load_simulation ::
  "('v \<Rightarrow> (string \<times> int) res) \<Rightarrow> (string \<Rightarrow> Model res) \<Rightarrow> 'v \<Rightarrow> (Model \<times> int) http_res" where
  "load_simulation decode load params =
     bind_sum (with_code StatusBadRequest (GetSimulationParams decode params))
       (\<lambda>(path, apiErr).
          case load path of
            Inl err \<Rightarrow> Inl (NewError StatusBadRequest (''failed to load model file: '' @ err))
          | Inr model \<Rightarrow> Inr (model, apiErr))"

definition node_names :: "Model \<Rightarrow> string list" where
  "node_names model = map (\<lambda>node. mn_Name node) (mvals (mod_Nodes model))"

text \<open>
  The instances of a simulation are those of its model, reached through a client; the error of making one is
  dropped, and using the client that is not there panics.
\<close>

definition sim_instances :: "('s \<Rightarrow> 'c res \<times> 's) \<Rightarrow> Model \<Rightarrow> ('s, compute_instances list) pcall" where
  "sim_instances factory model s =
     (case factory s of
        (Inl err, s) \<Rightarrow> (None, s)
      | (Inr client, s) \<Rightarrow> (Some (Inr (mod_Instances model)), s))"

section \<open>A service with pages\<close>

text \<open>
  The contract of a paged listing with parameters \<open>e\<close>: from a state that is ready for page \<open>i\<close>, the \<open>i\<close>-th
  request is answered with that page and the token of the next one, except for the last.
\<close>

locale paged_source =
  fixes fetch :: "'e \<Rightarrow> 'q \<Rightarrow> ('s, 'p) pcall"
    and next_req :: "'q \<Rightarrow> 'p \<Rightarrow> 'q option"
    and pages :: "'e \<Rightarrow> 'p list"
    and req :: "'e \<Rightarrow> nat \<Rightarrow> 'q"
    and ready :: "'e \<Rightarrow> nat \<Rightarrow> 's \<Rightarrow> bool"
  assumes fetch_page: "ready e i s \<Longrightarrow> i < length (pages e) \<Longrightarrow>
      \<exists>s'. fetch e (req e i) s = (Some (Inr (pages e ! i)), s') \<and> ready e (Suc i) s'"
    and next_page: "i < length (pages e) \<Longrightarrow>
      next_req (req e i) (pages e ! i) = (if Suc i < length (pages e) then Some (req e (Suc i)) else None)"
begin

text \<open>The loop sees every page once, in order, and ends with the last.\<close>

lemma page_loop_from:
  assumes "ready e i s" and "i < length (pages e)"
    and "fold (\<lambda>p t. Option.bind t (add p)) (drop i (pages e)) (Some topo) = Some topo'"
  shows "\<exists>s'. page_loop (fetch e) (\<lambda>p t. map_option Inr (add p t)) next_req (req e i) topo s = Some (Some (Inr topo'), s')"
  using assms
proof (induction "length (pages e) - i" arbitrary: i s topo)
  case (Suc n)
  obtain s' where s': "fetch e (req e i) s = (Some (Inr (pages e ! i)), s')" "ready e (Suc i) s'"
    using fetch_page [OF Suc.prems(1,2)] by (elim exE conjE)
  have drop: "drop i (pages e) = pages e ! i # drop (Suc i) (pages e)" by (simp add: Cons_nth_drop_Suc Suc.prems(2))
  have none: "fold (\<lambda>p t. Option.bind t (add p)) ps None = None" for ps by (induction ps) simp_all
  obtain topo1 where topo1: "add (pages e ! i) topo = Some topo1"
    "fold (\<lambda>p t. Option.bind t (add p)) (drop (Suc i) (pages e)) (Some topo1) = Some topo'"
    using Suc.prems(3) none by (cases "add (pages e ! i) topo") (simp_all add: drop)
  show ?case
  proof (cases "Suc i < length (pages e)")
    case True
    have "n = length (pages e) - Suc i" using Suc.hyps(2) by simp
    from Suc.hyps(1) [OF this s'(2) True topo1(2)] show ?thesis
      using True by (subst page_loop.simps) (simp add: s'(1) topo1(1) next_page [OF Suc.prems(2)])
  next
    case False
    then have "topo' = topo1" using topo1(2) by simp
    then show ?thesis using False by (subst page_loop.simps) (simp add: s'(1) topo1(1) next_page [OF Suc.prems(2)])
  qed
qed simp

lemma paged_all:
  assumes "ready e 0 s" and "pages e \<noteq> []"
    and "fold (\<lambda>p t. Option.bind t (add p)) (pages e) (Some topo) = Some topo'"
  shows "fst (paged (fetch e) (\<lambda>p t. map_option Inr (add p t)) next_req (req e 0) topo s) = Some (Inr topo')"
proof -
  obtain s' where "page_loop (fetch e) (\<lambda>p t. map_option Inr (add p t)) next_req (req e 0) topo s = Some (Some (Inr topo'), s')"
    using page_loop_from [OF assms(1), where add = add and topo = topo and topo' = topo'] assms(2,3) by auto
  then show ?thesis by (simp add: paged_def)
qed

end

text \<open>Cutting a list into pages of \<open>n\<close> entries loses nothing.\<close>

function chunks :: "nat \<Rightarrow> 'a list \<Rightarrow> 'a list list" where
  "chunks n xs = (if length xs \<le> Suc n then [xs] else take (Suc n) xs # chunks n (drop (Suc n) xs))"
  by pat_completeness auto
termination by (relation "measure (\<lambda>(n, xs). length xs)") auto

declare chunks.simps [simp del]

lemma concat_chunks: "concat (chunks n xs) = xs"
proof (induction n xs rule: chunks.induct)
  case (1 n xs)
  show ?case
  proof (cases "length xs \<le> Suc n")
    case True
    then show ?thesis by (subst chunks.simps) simp
  next
    case False
    then have "concat (chunks n (drop (Suc n) xs)) = drop (Suc n) xs" by (rule 1)
    then show ?thesis using False by (subst chunks.simps) (simp del: take_Suc_Cons drop_Suc_Cons)
  qed
qed

lemma chunks_not_Nil [simp]: "chunks n xs \<noteq> []"
  by (subst chunks.simps) simp

lemma length_chunks_Suc: "Suc i < length (chunks n xs) \<longleftrightarrow> Suc i * Suc n < length xs"
proof (induction n xs arbitrary: i rule: chunks.induct)
  case (1 n xs)
  show ?case
  proof (cases "length xs \<le> Suc n")
    case True
    moreover have "Suc n \<le> Suc i * Suc n" by simp
    ultimately have "\<not> Suc i * Suc n < length xs" by linarith
    then show ?thesis using True by (subst chunks.simps) simp
  next
    case False
    have "0 < length (chunks n (drop (Suc n) xs))" by simp
    moreover have "j < length (chunks n (drop (Suc n) xs)) \<longleftrightarrow> Suc j * Suc n < length xs" if "i = j" "0 < j" for j
      using 1 [OF False, of "j - 1"] that by auto
    ultimately show ?thesis using False by (subst chunks.simps) (cases i; auto)
  qed
qed

lemma nth_chunks: "i < length (chunks n xs) \<Longrightarrow> chunks n xs ! i = take (Suc n) (drop (i * Suc n) xs)"
proof (induction n xs arbitrary: i rule: chunks.induct)
  case (1 n xs)
  show ?case
  proof (cases "length xs \<le> Suc n")
    case True
    then have "chunks n xs = [xs]" by (subst chunks.simps) simp
    then show ?thesis using 1(2) True by simp
  next
    case False
    then have cs: "chunks n xs = take (Suc n) xs # chunks n (drop (Suc n) xs)" by (subst chunks.simps) simp
    show ?thesis
    proof (cases i)
      case (Suc j)
      then have "chunks n (drop (Suc n) xs) ! j = take (Suc n) (drop (j * Suc n) (drop (Suc n) xs))"
        using 1(1) [OF False, of j] 1(2) by (simp add: cs)
      then show ?thesis by (simp add: cs Suc ac_simps)
    qed (simp add: cs)
  qed
qed

end
