(* ===== verification/K8s.thy ===== *)
theory K8s
  imports Registry "HOL-Library.Word"
begin

text \<open>
  \<open>pkg/engines/k8s\<close>: the engine that labels Kubernetes nodes with their place in the network:
  \<open>labeler.go\<close> (the labels), \<open>kubernetes.go\<close> (nodes and their annotations) and
  \<open>engine.go\<close>; and the helpers of \<open>internal/k8s/utils.go\<close> that decide something.

  The API server is a state that the calls \<open>get_node\<close>, \<open>update_node\<close> and \<open>list_nodes\<close>
  thread. The labeler's memo of label values is passed explicitly.
\<close>

unbundle bit_operations_syntax

section \<open>Label values\<close>

text \<open>The 64-bit FNV-1a hash.\<close>

definition fnv64a :: "string \<Rightarrow> 64 word" where
  "fnv64a s = foldl (\<lambda>h c. (h XOR word_of_nat (of_char c)) * 1099511628211) 14695981039346656037 s"

fun show_hex :: "nat \<Rightarrow> string" where
  "show_hex n = (if n < 16 then [hex_digit n] else show_hex (n div 16) @ [hex_digit (n mod 16)])"

declare show_hex.simps [simp del]

definition label_value :: "string \<Rightarrow> string" where
  "label_value val = (if length val \<le> 63 then val else CHR ''x'' # show_hex (unat (fnv64a val)))"

type_synonym mapper = "(string, string) gomap"

definition checkLabel :: "string \<Rightarrow> mapper \<Rightarrow> string \<times> mapper" where
  "checkLabel val mapper =
     (case map_of mapper val of
        Some v \<Rightarrow> (v, mapper)
      | None \<Rightarrow> let v = label_value val in (v, mput val v mapper))"

definition mapper_ok :: "mapper \<Rightarrow> bool" where
  "mapper_ok m \<longleftrightarrow> (\<forall>val v. map_of m val = Some v \<longrightarrow> v = label_value val)"

lemma checkLabel_ok: "mapper_ok m \<Longrightarrow> checkLabel val m = (v, m') \<Longrightarrow> v = label_value val \<and> mapper_ok m'"
  by (auto simp: checkLabel_def mapper_ok_def Let_def update_conv' split: option.splits if_splits)

lemma show_hex_length: "n < 16 ^ k \<Longrightarrow> 0 < k \<Longrightarrow> length (show_hex n) \<le> k"
proof (induction n arbitrary: k rule: show_hex.induct)
  case (1 n)
  show ?case
  proof (cases "n < 16")
    case True
    then show ?thesis using 1(3) by (subst show_hex.simps) simp
  next
    case False
    then obtain j where k: "k = Suc j" "0 < j" using 1(2,3) by (cases k) (auto, cases "k - 1", auto)
    then have "n div 16 < 16 ^ j" using 1(2) by (auto simp: div_less_iff_less_mult)
    then have "length (show_hex (n div 16)) \<le> j" using 1(1) [OF False] k(2) by blast
    then show ?thesis using False k by (subst show_hex.simps) simp
  qed
qed

lemma label_value_length: "length (label_value val) \<le> 63"
proof -
  have "unat (fnv64a val) < 2 ^ LENGTH(64)" by (rule unsigned_less)
  then have "unat (fnv64a val) < 16 ^ 16" by simp
  then show ?thesis using show_hex_length [of "unat (fnv64a val)" 16] by (simp add: label_value_def)
qed

section \<open>Labels of the nodes\<close>

record label_names =
  labelAccelerator :: string
  switchNetworkHierarchy :: "string list"

definition InitLabels :: "string \<Rightarrow> string \<Rightarrow> string \<Rightarrow> string \<Rightarrow> label_names" where
  "InitLabels accelerator block spine datacenter =
     \<lparr>labelAccelerator = accelerator, switchNetworkHierarchy = [block, spine, datacenter]\<rparr>"

type_synonym nodeLabelMap = "(string, (string, string) gomap) gomap"
type_synonym label_state = "mapper \<times> nodeLabelMap"

text \<open>The loop over the layers above a node: one label per layer until an empty ID.\<close>

fun layer_labels :: "string list \<Rightarrow> string list \<Rightarrow> (string, string) gomap \<Rightarrow> mapper \<Rightarrow> (string, string) gomap \<times> mapper" where
  "layer_labels hierarchy [] labels m = (labels, m)"
| "layer_labels hierarchy (sw # layers) labels m =
     (if length sw = 0 then (labels, m)
      else case hierarchy of
             [] \<Rightarrow> layer_labels [] layers labels m
           | l # ls \<Rightarrow> (case checkLabel sw m of (v, m) \<Rightarrow> layer_labels ls layers (mput l v labels) m))"

definition label_leaf :: "label_names \<Rightarrow> vertex \<times> string list \<Rightarrow> label_state \<Rightarrow> label_state res" where
  "label_leaf names leaf_layers st =
     (case leaf_layers of (v, layers) \<Rightarrow>
        case layers of
          [] \<Rightarrow> Inr st
        | first # rest \<Rightarrow>
            if ID v \<noteq> first then Inl (''instance ID mismatch: expected '' @ ID v @ '', got '' @ first)
            else (case st of (m, nodeMap) \<Rightarrow>
                    case layer_labels (switchNetworkHierarchy names) rest (mget0 [] nodeMap (Name v)) m of
                      (labels, m) \<Rightarrow> Inr (m, mput (Name v) labels nodeMap)))"

fun getTreeNodeLabels :: "label_names \<Rightarrow> vertex \<Rightarrow> string list \<Rightarrow> label_state \<Rightarrow> label_state res" where
  "getTreeNodeLabels names (Vertex n i cs md) layers st =
     (if cs = [] then label_leaf names (Vertex n i cs md, layers) st
      else fold_sum (\<lambda>p. getTreeNodeLabels names (snd p) (ID (snd p) # layers)) cs st)"

definition block_node :: "label_names \<Rightarrow> vertex \<Rightarrow> vertex \<Rightarrow> label_state \<Rightarrow> label_state res" where
  "block_node names block node st =
     (case st of (m, nodeMap) \<Rightarrow>
        let labels = mget0 [] nodeMap (Name node)
        in case map_of labels (labelAccelerator names) of
             Some val \<Rightarrow> Inl (''multiple accelerator labels '' @ val @ '', '' @ ID block @ '' for node '' @ Name node)
           | None \<Rightarrow>
               (case checkLabel (ID block) m of (v, m) \<Rightarrow>
                  Inr (m, mput (Name node) (mput (labelAccelerator names) v labels) nodeMap)))"

definition getBlockNodeLabels :: "label_names \<Rightarrow> vertex \<Rightarrow> label_state \<Rightarrow> label_state res" where
  "getBlockNodeLabels names v st =
     fold_sum (\<lambda>(k, block). fold_sum (\<lambda>(k, node). block_node names block node) (Vertices block)) (Vertices v) st"

text \<open>The map of all labels that \<open>ApplyNodeLabels\<close> builds.\<close>

definition node_labels :: "label_names \<Rightarrow> vertex \<Rightarrow> nodeLabelMap res" where
  "node_labels names v =
     bind_sum (case map_of (Vertices v) TopologyBlock of
                 Some blockRoot \<Rightarrow> getBlockNodeLabels names blockRoot ([], [])
               | None \<Rightarrow> Inr ([], []))
       (\<lambda>st. bind_sum (case map_of (Vertices v) TopologyTree of
                 Some treeRoot \<Rightarrow> getTreeNodeLabels names treeRoot (if length (ID treeRoot) \<noteq> 0 then [ID treeRoot] else []) st
               | None \<Rightarrow> Inr st)
       (\<lambda>(m, nodeMap). Inr nodeMap))"

fun add_all_labels :: "(string \<Rightarrow> (string, string) gomap \<Rightarrow> 's \<Rightarrow> string option \<times> 's) \<Rightarrow> nodeLabelMap \<Rightarrow> 's \<Rightarrow> string option \<times> 's" where
  "add_all_labels add [] s = (None, s)"
| "add_all_labels add ((nodeName, labels) # rest) s =
     (case add nodeName labels s of (Some err, s) \<Rightarrow> (Some err, s) | (None, s) \<Rightarrow> add_all_labels add rest s)"

definition ApplyNodeLabels ::
  "label_names \<Rightarrow> (string \<Rightarrow> (string, string) gomap \<Rightarrow> 's \<Rightarrow> string option \<times> 's) \<Rightarrow> vertex \<Rightarrow> 's \<Rightarrow> string option \<times> 's" where
  "ApplyNodeLabels names add v s =
     (if length (Vertices v) = 0 then (None, s)
      else case node_labels names v of
             Inl err \<Rightarrow> (Some err, s)
           | Inr nodeMap \<Rightarrow> add_all_labels add nodeMap s)"

section \<open>Nodes of the cluster\<close>

record k8s_node =
  kn_Name :: string
  kn_Annotations :: "(string, string) gomap"
  kn_Labels :: "(string, string) gomap"

definition node_step ::
  "k8s_node \<Rightarrow> (string, (string, string) gomap) gomap \<times> string list \<Rightarrow> (string, (string, string) gomap) gomap \<times> string list" where
  "node_step node s =
     (case s of (regions, regionNames) \<Rightarrow>
        case map_of (kn_Annotations node) KeyNodeInstance of
          None \<Rightarrow> s
        | Some inst \<Rightarrow>
            (case map_of (kn_Annotations node) KeyNodeRegion of
               None \<Rightarrow> s
             | Some region \<Rightarrow>
                 (mput region (mput inst (kn_Name node) (mget0 [] regions region)) regions,
                  if map_of regions region = None then regionNames @ [region] else regionNames)))"

definition getComputeInstances :: "k8s_node list \<Rightarrow> compute_instances list" where
  "getComputeInstances nodes =
     (case fold node_step nodes ([], []) of (regions, regionNames) \<Rightarrow>
        map (\<lambda>region. \<lparr>Region = region, Instances = mget0 [] regions region\<rparr>) regionNames)"

definition GetNodes :: "('o \<Rightarrow> 's \<Rightarrow> k8s_node list res \<times> 's) \<Rightarrow> 'o \<Rightarrow> 'o option \<Rightarrow> 's \<Rightarrow> k8s_node list res \<times> 's" where
  "GetNodes list_nodes no_opt opt s =
     (case list_nodes (case opt of None \<Rightarrow> no_opt | Some opt \<Rightarrow> opt) s of
        (Inl err, s) \<Rightarrow> (Inl (''failed to list node in the cluster: '' @ err), s)
      | (Inr nodes, s) \<Rightarrow> (Inr nodes, s))"

definition K8s_GetComputeInstances ::
  "('o \<Rightarrow> 's \<Rightarrow> k8s_node list res \<times> 's) \<Rightarrow> 'o \<Rightarrow> 'o option \<Rightarrow> ('s, compute_instances list) call" where
  "K8s_GetComputeInstances list_nodes no_opt opt s =
     (case GetNodes list_nodes no_opt opt s of
        (Inl err, s) \<Rightarrow> (Inl (NewError StatusBadGateway err), s)
      | (Inr nodes, s) \<Rightarrow> (Inr (getComputeInstances nodes), s))"

definition MergeNodeLabels :: "k8s_node \<Rightarrow> (string, string) gomap \<Rightarrow> k8s_node" where
  "MergeNodeLabels node labels = node\<lparr>kn_Labels := mcopy labels (kn_Labels node)\<rparr>"

definition AddNodeLabels ::
  "(string \<Rightarrow> 's \<Rightarrow> k8s_node res \<times> 's) \<Rightarrow> (k8s_node \<Rightarrow> 's \<Rightarrow> string option \<times> 's) \<Rightarrow> string \<Rightarrow> (string, string) gomap \<Rightarrow>
   's \<Rightarrow> string option \<times> 's" where
  "AddNodeLabels get_node update_node nodeName labels s =
     (case get_node nodeName s of
        (Inl err, s) \<Rightarrow> (Some err, s)
      | (Inr node, s) \<Rightarrow> update_node (MergeNodeLabels node labels) s)"

definition K8s_GenerateOutput ::
  "label_names \<Rightarrow> (string \<Rightarrow> 's \<Rightarrow> k8s_node res \<times> 's) \<Rightarrow> (k8s_node \<Rightarrow> 's \<Rightarrow> string option \<times> 's) \<Rightarrow> vertex \<Rightarrow> ('s, string) call" where
  "K8s_GenerateOutput names get_node update_node tree s =
     (case ApplyNodeLabels names (AddNodeLabels get_node update_node) tree s of
        (Some err, s) \<Rightarrow> (Inl (NewError StatusBadGateway err), s)
      | (None, s) \<Rightarrow> (Inr (''OK'' @ newline), s))"

text \<open>\<open>getParameters\<close>: decoding the parameters and printing a label selector are arguments.\<close>

definition getParameters :: "('p \<Rightarrow> (string, string) gomap res) \<Rightarrow> ((string, string) gomap \<Rightarrow> string) \<Rightarrow> 'p \<Rightarrow> string option res" where
  "getParameters decode selector params =
     bind_sum (decode params) (\<lambda>sel. Inr (if length sel \<noteq> 0 then Some (selector sel) else None))"

definition K8s_Loader ::
  "('p \<Rightarrow> (string, string) gomap res) \<Rightarrow> ((string, string) gomap \<Rightarrow> string) \<Rightarrow> (unit \<Rightarrow> 'g res) \<Rightarrow> ('g \<Rightarrow> 'k res) \<Rightarrow> 'p \<Rightarrow>
   ('g \<times> 'k \<times> string option) http_res" where
  "K8s_Loader decode selector in_cluster new_client params =
     bind_sum (with_code StatusBadRequest (getParameters decode selector params)) (\<lambda>p.
     bind_sum (with_code StatusBadGateway (in_cluster ())) (\<lambda>cfg.
     bind_sum (with_code StatusBadGateway (new_client cfg)) (\<lambda>cl.
     Inr (cfg, cl, p))))"

text \<open>The readiness of a pod, from the type and status of its conditions.\<close>

definition IsPodReady :: "(string \<times> string) list \<Rightarrow> bool" where
  "IsPodReady conditions \<longleftrightarrow> list_ex (\<lambda>(ty, status). ty = ''Ready'' \<and> status = ''True'') conditions"

section \<open>The walk over the tree\<close>

text \<open>The leaves of a tree with the IDs above them, the nearest first, below their own.\<close>

fun leaf_paths :: "vertex \<Rightarrow> string list \<Rightarrow> (vertex \<times> string list) list" where
  "leaf_paths (Vertex n i cs md) layers =
     (if cs = [] then [(Vertex n i cs md, layers)]
      else concat (map (\<lambda>p. leaf_paths (snd p) (ID (snd p) # layers)) cs))"

lemma getTreeNodeLabels_leaves:
  "getTreeNodeLabels names v layers st = fold_sum (label_leaf names) (leaf_paths v layers) st"
proof (induction v layers arbitrary: st rule: leaf_paths.induct)
  case (1 n i cs md layers)
  show ?case
  proof (cases "cs = []")
    case True
    then show ?thesis by (simp add: fold_sum_one del: fold_sum.simps)
  next
    case False
    have "fold_sum (\<lambda>p. getTreeNodeLabels names (snd p) (ID (snd p) # layers)) cs st =
        fold_sum (\<lambda>p. fold_sum (label_leaf names) (leaf_paths (snd p) (ID (snd p) # layers))) cs st"
      using 1 [OF False] by (intro fold_sum_cong) auto
    then show ?thesis using False by (simp add: fold_sum_concat fold_sum_map)
  qed
qed

text \<open>A leaf that is not the root has its own ID first.\<close>

lemma leaf_paths_head:
  "(lf, layers') \<in> set (leaf_paths v layers) \<Longrightarrow> layers = [] \<or> hd layers = ID v \<Longrightarrow>
    (Vertices v \<noteq> [] \<longrightarrow> layers' \<noteq> []) \<and> (layers' = [] \<or> hd layers' = ID lf)"
proof (induction v layers rule: leaf_paths.induct)
  case (1 n i cs md layers)
  show ?case
  proof (cases "cs = []")
    case True
    then show ?thesis using 1(2,3) by simp
  next
    case False
    then obtain k w where w: "(k, w) \<in> set cs" "(lf, layers') \<in> set (leaf_paths w (ID w # layers))"
      using 1(2) by auto
    have sub: "layers' \<noteq> []" if "(lf, layers') \<in> set (leaf_paths w ls)" "ls \<noteq> []" for w ls
      using that by (induction w ls rule: leaf_paths.induct) (auto split: if_splits)
    from 1(1) [OF False w(1), simplified, OF w(2)] sub [OF w(2)] show ?thesis by simp
  qed
qed

lemma label_leaf_total: "layers = [] \<or> hd layers = ID lf \<Longrightarrow> \<exists>st'. label_leaf names (lf, layers) st = Inr st'"
  by (cases layers) (auto simp: label_leaf_def split: prod.split)

section \<open>Properties\<close>

definition short_values :: "(string, string) gomap \<Rightarrow> bool" where
  "short_values labels \<longleftrightarrow> (\<forall>v \<in> snd ` set labels. length v \<le> 63)"

definition labels_ok :: "nodeLabelMap \<Rightarrow> bool" where
  "labels_ok nm \<longleftrightarrow> (\<forall>labels \<in> snd ` set nm. short_values labels)"

lemma mvals_mput: "snd ` set (mput k v m) \<subseteq> insert v (snd ` set m)"
  by (induction m) auto

lemma short_mput: "length v \<le> 63 \<Longrightarrow> short_values labels \<Longrightarrow> short_values (mput k v labels)"
  unfolding short_values_def using mvals_mput [of k v labels] by blast

lemma labels_ok_mput: "labels_ok nm \<Longrightarrow> short_values labels \<Longrightarrow> labels_ok (mput k labels nm)"
  unfolding labels_ok_def using mvals_mput [of k labels nm] by blast

lemma short_mget0: "labels_ok nm \<Longrightarrow> short_values (mget0 [] nm k)"
proof (cases "map_of nm k")
  case (Some l)
  assume "labels_ok nm"
  moreover have "l \<in> snd ` set nm" using map_of_SomeD [OF Some] by force
  ultimately have "short_values l" unfolding labels_ok_def by blast
  then show ?thesis by (simp add: mget0_def Some)
qed (simp add: mget0_def short_values_def)

lemma layer_labels_ok:
  "layer_labels hierarchy layers labels m = (labels', m') \<Longrightarrow> mapper_ok m \<Longrightarrow> short_values labels \<Longrightarrow>
    mapper_ok m' \<and> short_values labels'"
proof (induction layers arbitrary: hierarchy labels m)
  case (Cons sw layers)
  show ?case
  proof (cases "length sw = 0 \<or> hierarchy = []")
    case True
    then show ?thesis using Cons by (auto split: if_splits)
  next
    case False
    then obtain l ls where h: "hierarchy = l # ls" by (cases hierarchy) auto
    obtain v m1 where v: "checkLabel sw m = (v, m1)" by (cases "checkLabel sw m")
    have ok: "v = label_value sw" "mapper_ok m1" using checkLabel_ok [OF Cons.prems(2) v] by auto
    have "layer_labels ls layers (mput l v labels) m1 = (labels', m')" using Cons.prems(1) False by (simp add: h v)
    from Cons.IH [OF this ok(2)] show ?thesis using short_mput [OF _ Cons.prems(3)] ok(1) label_value_length by simp
  qed
qed simp

definition st_ok :: "label_state \<Rightarrow> bool" where
  "st_ok st \<longleftrightarrow> mapper_ok (fst st) \<and> labels_ok (snd st)"

lemma label_leaf_ok:
  assumes "label_leaf names p st = Inr st'" and "st_ok st"
  shows "st_ok st'"
proof -
  obtain v layers m nm where p: "p = (v, layers)" "st = (m, nm)" by (cases p, cases st)
  show ?thesis
  proof (cases layers)
    case Nil
    then show ?thesis using assms by (simp add: label_leaf_def p)
  next
    case (Cons first rest)
    obtain labels m' where l: "layer_labels (switchNetworkHierarchy names) rest (mget0 [] nm (Name v)) m = (labels, m')"
      by (cases "layer_labels (switchNetworkHierarchy names) rest (mget0 [] nm (Name v)) m")
    have ok: "mapper_ok m" "labels_ok nm" using assms(2) by (simp_all add: st_ok_def p)
    from layer_labels_ok [OF l ok(1) short_mget0 [OF ok(2)]] have "mapper_ok m'" "short_values labels" by auto
    moreover have "st' = (m', mput (Name v) labels nm)"
      using assms(1) by (auto simp: label_leaf_def p Cons l split: if_splits)
    ultimately show ?thesis using labels_ok_mput [OF ok(2)] by (simp add: st_ok_def)
  qed
qed

lemma block_node_ok:
  assumes "block_node names b node st = Inr st'" and "st_ok st"
  shows "st_ok st'"
proof -
  obtain m nm where st: "st = (m, nm)" by (cases st)
  obtain v m' where v: "checkLabel (ID b) m = (v, m')" by (cases "checkLabel (ID b) m")
  have ok: "mapper_ok m" "labels_ok nm" using assms(2) by (simp_all add: st_ok_def st)
  have m: "v = label_value (ID b)" "mapper_ok m'" using checkLabel_ok [OF ok(1) v] by auto
  have "st' = (m', mput (Name node) (mput (labelAccelerator names) v (mget0 [] nm (Name node))) nm)"
    using assms(1) by (auto simp: block_node_def st v Let_def split: option.splits)
  then show ?thesis
    using m labels_ok_mput [OF ok(2) short_mput [OF _ short_mget0 [OF ok(2)]]] label_value_length by (simp add: st_ok_def)
qed

text \<open>
  C22. Every label value that the engine writes is short enough for Kubernetes: whatever the length of the
  IDs, no value in the labels of any node exceeds 63 characters.
\<close>

theorem node_labels_length:
  assumes "node_labels names v = Inr nodeMap"
  shows "\<forall>(node, labels) \<in> set nodeMap. \<forall>(l, val) \<in> set labels. length val \<le> 63"
proof -
  obtain st where blocks: "(case map_of (Vertices v) TopologyBlock of
       Some blockRoot \<Rightarrow> getBlockNodeLabels names blockRoot ([], []) | None \<Rightarrow> Inr ([], [])) = Inr st"
    and rest: "bind_sum (case map_of (Vertices v) TopologyTree of
       Some treeRoot \<Rightarrow> getTreeNodeLabels names treeRoot (if length (ID treeRoot) \<noteq> 0 then [ID treeRoot] else []) st
     | None \<Rightarrow> Inr st) (\<lambda>(m, nodeMap). Inr nodeMap) = Inr nodeMap"
    using assms unfolding node_labels_def by (rule bind_sum_InrE)
  have start: "st_ok ([], [])" by (simp add: st_ok_def mapper_ok_def labels_ok_def)
  have "st_ok st"
  proof (cases "map_of (Vertices v) TopologyBlock")
    case (Some blockRoot)
    have block: "st_ok s'" if "fold_sum (\<lambda>(k, node). block_node names b node) ns s = Inr s'" "st_ok s" for b ns s s'
      using that by (rule fold_sum_invariant) (auto intro: block_node_ok)
    have "fold_sum (\<lambda>(k, block). fold_sum (\<lambda>(k, node). block_node names block node) (Vertices block)) (Vertices blockRoot) ([], []) = Inr st"
      using blocks Some by (simp add: getBlockNodeLabels_def)
    from this start show ?thesis by (rule fold_sum_invariant) (auto intro: block)
  qed (use blocks start in simp)
  moreover obtain m where "(case map_of (Vertices v) TopologyTree of
       Some treeRoot \<Rightarrow> getTreeNodeLabels names treeRoot (if length (ID treeRoot) \<noteq> 0 then [ID treeRoot] else []) st
     | None \<Rightarrow> Inr st) = Inr (m, nodeMap)"
    using rest by (auto elim!: bind_sum_InrE split: prod.splits)
  ultimately have "st_ok (m, nodeMap)"
  proof (cases "map_of (Vertices v) TopologyTree")
    case (Some treeRoot)
    assume ok: "st_ok st" and run: "(case map_of (Vertices v) TopologyTree of
       Some treeRoot \<Rightarrow> getTreeNodeLabels names treeRoot (if length (ID treeRoot) \<noteq> 0 then [ID treeRoot] else []) st
     | None \<Rightarrow> Inr st) = Inr (m, nodeMap)"
    have "fold_sum (label_leaf names) (leaf_paths treeRoot (if length (ID treeRoot) \<noteq> 0 then [ID treeRoot] else [])) st = Inr (m, nodeMap)"
      using run by (simp only: Some option.case getTreeNodeLabels_leaves)
    from this ok show ?thesis by (rule fold_sum_invariant) (auto intro: label_leaf_ok)
  qed simp
  then show ?thesis by (force simp: st_ok_def labels_ok_def short_values_def)
qed

text \<open>The labels of the layers above a node: block, spine and datacenter in this order.\<close>

definition layer_map :: "label_names \<Rightarrow> string list \<Rightarrow> (string, string) gomap" where
  "layer_map names layers =
     rev (zip (switchNetworkHierarchy names) (map label_value (takeWhile (\<lambda>sw. sw \<noteq> []) (tl layers))))"

lemma layer_labels_spec:
  "layer_labels hierarchy layers labels m = (labels', m') \<Longrightarrow> mapper_ok m \<Longrightarrow>
    mapper_ok m' \<and> map_of labels' = map_of labels ++ map_of (rev (zip hierarchy (map label_value (takeWhile (\<lambda>sw. sw \<noteq> []) layers))))"
proof (induction layers arbitrary: hierarchy labels m)
  case (Cons sw layers)
  show ?case
  proof (cases "length sw = 0 \<or> hierarchy = []")
    case True
    then show ?thesis using Cons by (auto split: if_splits)
  next
    case False
    then obtain l ls where h: "hierarchy = l # ls" by (cases hierarchy) auto
    obtain v m1 where v: "checkLabel sw m = (v, m1)" by (cases "checkLabel sw m")
    have ok: "v = label_value sw" "mapper_ok m1" using checkLabel_ok [OF Cons.prems(2) v] by auto
    have "layer_labels ls layers (mput l v labels) m1 = (labels', m')" using Cons.prems(1) False by (simp add: h v)
    from Cons.IH [OF this ok(2)] have IH: "mapper_ok m'" "map_of labels' = map_of (mput l v labels) ++
        map_of (rev (zip ls (map label_value (takeWhile (\<lambda>sw. sw \<noteq> []) layers))))" by auto
    have put: "map_of (mput l v labels) = map_of labels ++ map_of [(l, label_value sw)]"
      by (simp add: update_conv' ok(1) fun_eq_iff map_add_def)
    have "rev (zip hierarchy (map label_value (takeWhile (\<lambda>sw. sw \<noteq> []) (sw # layers)))) =
        rev (zip ls (map label_value (takeWhile (\<lambda>sw. sw \<noteq> []) layers))) @ [(l, label_value sw)]"
      using False by (simp add: h)
    then show ?thesis using IH put by (simp only: map_of_append map_add_assoc simp_thms)
  qed
qed simp

lemma label_leaves_spec:
  assumes "mapper_ok m" and "distinct (map (\<lambda>(l, layers). Name l) ps)"
    and "\<forall>(l, layers) \<in> set ps. layers \<noteq> [] \<and> hd layers = ID l"
  shows "\<exists>m' nm'. fold_sum (label_leaf names) ps (m, nm) = Inr (m', nm') \<and>
    (\<forall>n. n \<notin> (\<lambda>(l, layers). Name l) ` set ps \<longrightarrow> map_of nm' n = map_of nm n) \<and>
    (\<forall>(l, layers) \<in> set ps. \<exists>labels. map_of nm' (Name l) = Some labels \<and>
       map_of labels = map_of (mget0 [] nm (Name l)) ++ map_of (layer_map names layers))"
  using assms
proof (induction ps arbitrary: m nm)
  case (Cons p ps)
  obtain l layers where p: "p = (l, layers)" by (cases p)
  obtain rest where layers: "layers = ID l # rest" using Cons.prems(3) by (cases layers) (auto simp: p)
  obtain labels m1 where ll: "layer_labels (switchNetworkHierarchy names) rest (mget0 [] nm (Name l)) m = (labels, m1)"
    by (cases "layer_labels (switchNetworkHierarchy names) rest (mget0 [] nm (Name l)) m")
  from layer_labels_spec [OF ll Cons.prems(1)] have m1: "mapper_ok m1"
    and labels: "map_of labels = map_of (mget0 [] nm (Name l)) ++ map_of (layer_map names layers)"
    by (simp_all add: layer_map_def layers)
  let ?nm = "mput (Name l) labels nm"
  have step: "label_leaf names p (m, nm) = Inr (m1, ?nm)" by (simp add: label_leaf_def p layers ll)
  from Cons.IH [OF m1, of ?nm] Cons.prems(2,3) obtain m' nm' where
    rest: "fold_sum (label_leaf names) ps (m1, ?nm) = Inr (m', nm')"
      "\<forall>n. n \<notin> (\<lambda>(l, layers). Name l) ` set ps \<longrightarrow> map_of nm' n = map_of ?nm n"
      "\<forall>(l, layers) \<in> set ps. \<exists>labels. map_of nm' (Name l) = Some labels \<and>
         map_of labels = map_of (mget0 [] ?nm (Name l)) ++ map_of (layer_map names layers)"
    by auto
  have fresh: "Name l \<notin> (\<lambda>(l, layers). Name l) ` set ps" using Cons.prems(2) by (simp add: p)
  have same: "mget0 [] ?nm (Name l') = mget0 [] nm (Name l')" if "(l', ls) \<in> set ps" for l' ls
  proof -
    have "Name l' \<noteq> Name l" using fresh that by force
    then show ?thesis by (simp add: mget0_def update_conv')
  qed
  have "\<exists>labels. map_of nm' (Name l') = Some labels \<and>
      map_of labels = map_of (mget0 [] nm (Name l')) ++ map_of (layer_map names ls)" if "(l', ls) \<in> set (p # ps)" for l' ls
  proof (cases "(l', ls) \<in> set ps")
    case True
    then show ?thesis using rest(3) same [OF True] by force
  next
    case False
    then have "l' = l" "ls = layers" using that by (simp_all add: p)
    then show ?thesis using rest(2) fresh labels by (simp add: update_conv')
  qed
  moreover have "map_of nm' n = map_of nm n" if "n \<notin> (\<lambda>(l, layers). Name l) ` set (p # ps)" for n
    using that rest(2) by (simp add: p update_conv')
  ultimately show ?case using rest(1) step by (intro exI [of _ m'] exI [of _ nm']) auto
qed simp

definition tree_paths :: "vertex \<Rightarrow> (vertex \<times> string list) list" where
  "tree_paths tree = leaf_paths tree (if length (ID tree) \<noteq> 0 then [ID tree] else [])"

text \<open>
  C23. The labels mean what they say: for a tree whose leaves have distinct names, labelling does not fail
  after the accelerator labels are done; every node has its accelerator labels, overlaid with the label of
  its leaf switch as block, of the switch above as spine and of the next as datacenter; switches further up
  and all layers from the first empty ID on are left out, and no other node gets labels.
\<close>

theorem node_labels_tree:
  assumes "map_of (Vertices v) TopologyTree = Some tree" and "Vertices tree \<noteq> []"
    and "(case map_of (Vertices v) TopologyBlock of
            Some blockRoot \<Rightarrow> getBlockNodeLabels names blockRoot ([], []) | None \<Rightarrow> Inr ([], [])) = Inr (m0, accel)"
    and "distinct (map (\<lambda>(l, layers). Name l) (tree_paths tree))" and "mapper_ok m0"
  shows "\<exists>nodeMap. node_labels names v = Inr nodeMap \<and>
    (\<forall>(l, layers) \<in> set (tree_paths tree). \<exists>labels. map_of nodeMap (Name l) = Some labels \<and>
       map_of labels = map_of (mget0 [] accel (Name l)) ++ map_of (layer_map names layers)) \<and>
    (\<forall>n. n \<notin> (\<lambda>(l, layers). Name l) ` set (tree_paths tree) \<longrightarrow> map_of nodeMap n = map_of accel n)"
proof -
  have "\<forall>(l, layers) \<in> set (tree_paths tree). layers \<noteq> [] \<and> hd layers = ID l"
  proof clarify
    fix l layers assume "(l, layers) \<in> set (tree_paths tree)"
    moreover have "(if length (ID tree) \<noteq> 0 then [ID tree] else []) = [] \<or>
        hd (if length (ID tree) \<noteq> 0 then [ID tree] else []) = ID tree" by simp
    ultimately have "(Vertices tree \<noteq> [] \<longrightarrow> layers \<noteq> []) \<and> (layers = [] \<or> hd layers = ID l)"
      unfolding tree_paths_def by (rule leaf_paths_head)
    with assms(2) have "layers \<noteq> [] \<and> (layers = [] \<or> hd layers = ID l)" by blast
    then show "layers \<noteq> [] \<and> hd layers = ID l" by blast
  qed
  from label_leaves_spec [OF assms(5,4) this, of names accel] obtain m' nm' where
    run: "fold_sum (label_leaf names) (tree_paths tree) (m0, accel) = Inr (m', nm')" and
    rest: "\<forall>n. n \<notin> (\<lambda>(l, layers). Name l) ` set (tree_paths tree) \<longrightarrow> map_of nm' n = map_of accel n"
      "\<forall>(l, layers) \<in> set (tree_paths tree). \<exists>labels. map_of nm' (Name l) = Some labels \<and>
         map_of labels = map_of (mget0 [] accel (Name l)) ++ map_of (layer_map names layers)"
    by blast
  have "node_labels names v = Inr nm'"
    unfolding node_labels_def assms(3) assms(1) bind_sum_simps option.case getTreeNodeLabels_leaves
    using run by (simp add: tree_paths_def)
  then show ?thesis using rest by blast
qed

definition default_labels :: label_names where
  "default_labels = InitLabels ''network.topology.nvidia.com/accelerator'' ''network.topology.nvidia.com/block''
     ''network.topology.nvidia.com/spine'' ''network.topology.nvidia.com/datacenter''"

definition sample_root :: vertex where
  "sample_root = Vertex [] []
     [(TopologyTree, Vertex [] [] [(''S1'', Vertex [] ''S1''
        [(''L1'', Vertex [] ''L1'' [(''i1'', leaf ''n1'' ''i1''), (''i2'', leaf ''n2'' ''i2'')] [])] [])] [])] []"

theorem node_labels_length_witness:
  "\<exists>nodeMap. node_labels default_labels sample_root = Inr nodeMap \<and>
     list_all (\<lambda>(node, labels). list_all (\<lambda>(l, val). length val \<le> 63) labels) nodeMap"
proof -
  have "node_labels default_labels sample_root = Inr
      [(''n1'', [(''network.topology.nvidia.com/block'', ''L1''), (''network.topology.nvidia.com/spine'', ''S1'')]),
       (''n2'', [(''network.topology.nvidia.com/block'', ''L1''), (''network.topology.nvidia.com/spine'', ''S1'')])]"
    by code_simp
  from this node_labels_length [OF this] show ?thesis by (auto simp: list_all_iff)
qed

theorem node_labels_tree_witness:
  "\<exists>nodeMap labels. node_labels default_labels sample_root = Inr nodeMap \<and> map_of nodeMap ''n2'' = Some labels \<and>
     map_of labels ''network.topology.nvidia.com/spine'' = Some ''S1''"
proof -
  let ?tree = "the (map_of (Vertices sample_root) TopologyTree)"
  have tree: "map_of (Vertices sample_root) TopologyTree = Some ?tree" "Vertices ?tree \<noteq> []"
    "(case map_of (Vertices sample_root) TopologyBlock of
        Some blockRoot \<Rightarrow> getBlockNodeLabels default_labels blockRoot ([], []) | None \<Rightarrow> Inr ([], [])) = Inr ([], [])"
    "tree_paths ?tree = [(leaf ''n1'' ''i1'', [''i1'', ''L1'', ''S1'']), (leaf ''n2'' ''i2'', [''i2'', ''L1'', ''S1''])]"
    by code_simp+
  have "mapper_ok []" by (simp add: mapper_ok_def)
  from node_labels_tree [OF tree(1-3) _ this, unfolded tree(4)] obtain nodeMap labels where
    "node_labels default_labels sample_root = Inr nodeMap" "map_of nodeMap ''n2'' = Some labels"
    "map_of labels = map_of (layer_map default_labels [''i2'', ''L1'', ''S1''])"
    by (auto simp: mget0_def)
  moreover have "map_of (layer_map default_labels [''i2'', ''L1'', ''S1'']) ''network.topology.nvidia.com/spine'' = Some ''S1''"
    by code_simp
  ultimately show ?thesis by auto
qed

end
