(* ===== verification/Slurm.thy ===== *)
theory Slurm
  imports Exec Output Server_Config
begin

text \<open>
  \<open>pkg/engines/slurm/slurm.go\<close>: the engine that writes SLURM's topology configuration.
  Running a command and the file system are calls on the state \<open>'s\<close>
  of the outside world; decoding the parameters and \<open>yaml.Marshal\<close> are arguments.
\<close>

section \<open>Parameters\<close>

record slurm_topology =
  st_Partition :: string
  st_Plugin :: string
  st_BlockSizes :: "int list"
  st_Nodes :: "string list"
  st_Default :: bool

record BaseParams =
  bp_Plugin :: string
  bp_BlockSizes :: string
  bp_FakeNodesEnabled :: bool
  bp_FakeNodePool :: string
  bp_Topologies :: "(string, slurm_topology) gomap"

record Params = BaseParams +
  sp_TopoConfigPath :: string
  sp_Reconfigure :: bool

definition getBlockSizes :: "string \<Rightarrow> int list" where
  "getBlockSizes str =
     (if length str = 0 then []
      else let parts = map strconv_atoi (split_on (CHR '','') str)
           in if list_all snd parts then map fst parts else [])"

section \<open>Output of scontrol\<close>

definition scan_output :: "string \<Rightarrow> string list res" where
  "scan_output out =
     (if \<exists>l \<in> set (split_on (CHR 0x0A) out). max_token \<le> length l then Inl ''bufio.Scanner: token too long''
      else Inr (scan_lines out))"

definition node_of_line :: "string \<Rightarrow> string list" where
  "node_of_line line =
     (case split_on (CHR '' '') line of
        first # _ \<Rightarrow> if prefix ''NodeName='' first then [drop 9 first] else []
      | [] \<Rightarrow> [])"

definition GetNodeList :: "'s exec \<Rightarrow> 's \<Rightarrow> string list res \<times> 's" where
  "GetNodeList exec s =
     (case exec ''scontrol'' [''show'', ''nodes'', ''-o''] s of
        (Inl err, s) \<Rightarrow> (Inl err, s)
      | (Inr stdout, s) \<Rightarrow>
          (case scan_output stdout of
             Inl err \<Rightarrow> (Inl (''failed scan output: '' @ err), s)
           | Inr lines \<Rightarrow> (Inr (concat (map node_of_line lines)), s)))"

text \<open>The scan stops at the first line it wants, so only lines up to there can be too long.\<close>

fun fake_nodes_loop :: "string list \<Rightarrow> string res" where
  "fake_nodes_loop [] = Inl ''fake partition has no nodes''"
| "fake_nodes_loop (l # ls) =
     (if max_token \<le> length l then Inl ''failed to scan fake nodes partition: bufio.Scanner: token too long''
      else let line = trim_space (drop_cr l)
           in if prefix ''Nodes='' line then Inr (drop 6 line) else fake_nodes_loop ls)"

definition parseFakeNodes :: "string \<Rightarrow> string res" where
  "parseFakeNodes data =
     (let ls = split_on (CHR 0x0A) data in fake_nodes_loop (if last ls = [] then butlast ls else ls))"

definition GetFakeNodes :: "'s exec \<Rightarrow> 's \<Rightarrow> string res \<times> 's" where
  "GetFakeNodes exec s =
     (case exec ''scontrol'' [''show'', ''partition'', ''fake''] s of
        (Inl err, s) \<Rightarrow> (Inl err, s)
      | (Inr out, s) \<Rightarrow> (parseFakeNodes out, s))"

text \<open>The group of the first match of \<open>\s\<close>, \<open>Nodes=\<close> and a run of other characters.\<close>

definition re_space :: "char \<Rightarrow> bool" where
  "re_space c \<longleftrightarrow> (of_char c :: nat) \<in> {9, 10, 12, 13, 32}"

fun find_nodes :: "string \<Rightarrow> string option" where
  "find_nodes [] = None"
| "find_nodes (c # s) =
     (if re_space c \<and> prefix ''Nodes='' s \<and> takeWhile (\<lambda>c. \<not> re_space c) (drop 6 s) \<noteq> []
      then Some (takeWhile (\<lambda>c. \<not> re_space c) (drop 6 s)) else find_nodes s)"

definition parsePartitionNodes :: "string \<Rightarrow> string \<Rightarrow> string list res" where
  "parsePartitionNodes part data =
     (case find_nodes data of
        Some nodes \<Rightarrow> Inr (Compact (ExpandList nodes))
      | None \<Rightarrow> Inl (''partition '' @ quote part @ '' has no nodes''))"

type_synonym 's node_finder = "string \<Rightarrow> 's \<Rightarrow> string res \<times> 's"

definition getPartitionNodes :: "'s exec \<Rightarrow> 's node_finder" where
  "getPartitionNodes exec part s = exec ''scontrol'' [''show'', ''partition'', part] s"

definition GetPartitionNodes :: "'s node_finder \<Rightarrow> string \<Rightarrow> 's \<Rightarrow> string list res \<times> 's" where
  "GetPartitionNodes f part s =
     (if length part = 0 then (Inl ''missing partition name'', s)
      else (case f part s of
              (Inl err, s) \<Rightarrow> (Inl err, s)
            | (Inr out, s) \<Rightarrow> (parsePartitionNodes part out, s)))"

section \<open>Compute instances\<close>

definition aggregate_step ::
  "(string, string) gomap \<Rightarrow> string \<times> string \<Rightarrow> (string, nat) gomap \<times> compute_instances list \<Rightarrow>
   (string, nat) gomap \<times> compute_instances list" where
  "aggregate_step nodeRegions inst_node st =
     (case inst_node of (inst, node) \<Rightarrow> case st of (regions, cis) \<Rightarrow>
        case map_of nodeRegions node of
          None \<Rightarrow> st
        | Some region \<Rightarrow>
            (case map_of regions region of
               None \<Rightarrow> (mput region (length regions) regions, cis @ [\<lparr>Region = region, Instances = [(inst, node)]\<rparr>])
             | Some indx \<Rightarrow>
                 (regions, cis[indx := (cis ! indx)\<lparr>Instances := mput inst node (Instances (cis ! indx))\<rparr>])))"

definition aggregateComputeInstances :: "(string, string) gomap \<Rightarrow> (string, string) gomap \<Rightarrow> compute_instances list" where
  "aggregateComputeInstances i2n nodeRegions = snd (fold (aggregate_step nodeRegions) i2n ([], []))"

record 's instanceMapper =
  im_Instances2NodeMap :: "string list \<Rightarrow> 's \<Rightarrow> (string, string) gomap res \<times> 's"
  im_GetInstancesRegions :: "string list \<Rightarrow> 's \<Rightarrow> (string, string) gomap res \<times> 's"

definition Slurm_GetComputeInstances :: "'s exec \<Rightarrow> 's instanceMapper option \<Rightarrow> ('s, compute_instances list) call" where
  "Slurm_GetComputeInstances exec environment s =
     (case environment of
        None \<Rightarrow> (Inl (NewError StatusBadRequest ''environment must implement instanceMapper''), s)
      | Some im \<Rightarrow>
          (case GetNodeList exec s of
             (Inl err, s) \<Rightarrow> (Inl (NewError StatusInternalServerError err), s)
           | (Inr nodes, s) \<Rightarrow>
               if length nodes = 0 then (Inr [], s)
               else
                 (case im_Instances2NodeMap im nodes s of
                    (Inl err, s) \<Rightarrow> (Inl (NewError StatusInternalServerError err), s)
                  | (Inr i2n, s) \<Rightarrow>
                      (case im_GetInstancesRegions im nodes s of
                         (Inl err, s) \<Rightarrow> (Inl (NewError StatusInternalServerError err), s)
                       | (Inr nodeRegions, s) \<Rightarrow> (Inr (aggregateComputeInstances i2n nodeRegions), s)))))"

section \<open>Configuration of the translation\<close>

definition topology_spec :: "'s node_finder \<Rightarrow> slurm_topology \<Rightarrow> 's \<Rightarrow> TopologySpec res \<times> 's" where
  "topology_spec f sect s =
     (let spec = \<lparr>spec_Plugin = st_Plugin sect, spec_BlockSizes = st_BlockSizes sect,
                  spec_ClusterDefault = st_Default sect, spec_Nodes = []\<rparr>
      in if length (st_Nodes sect) \<noteq> 0 then (Inr (spec\<lparr>spec_Nodes := st_Nodes sect\<rparr>), s)
         else if st_Default sect \<and> st_Plugin sect = TopologyFlat \<and> length (st_Partition sect) = 0 then (Inr spec, s)
         else (case GetPartitionNodes f (st_Partition sect) s of
                 (Inl err, s) \<Rightarrow> (Inl err, s)
               | (Inr nodes, s) \<Rightarrow> (Inr (spec\<lparr>spec_Nodes := nodes\<rparr>), s)))"

fun topology_specs ::
  "'s node_finder \<Rightarrow> (string, slurm_topology) gomap \<Rightarrow> (string, TopologySpec) gomap \<Rightarrow> 's \<Rightarrow>
   (string, TopologySpec) gomap res \<times> 's" where
  "topology_specs f [] specs s = (Inr specs, s)"
| "topology_specs f ((topo, sect) # rest) specs s =
     (case topology_spec f sect s of
        (Inl err, s) \<Rightarrow> (Inl err, s)
      | (Inr spec, s) \<Rightarrow> topology_specs f rest (mput topo spec specs) s)"

definition fake_pool :: "'s exec \<Rightarrow> 'b BaseParams_scheme \<Rightarrow> 's \<Rightarrow> string res \<times> 's" where
  "fake_pool exec params s =
     (if bp_Plugin params = TopologyBlock \<and> bp_FakeNodesEnabled params
      then if length (bp_FakeNodePool params) > 0 then (Inr (bp_FakeNodePool params), s) else GetFakeNodes exec s
      else (Inr [], s))"

definition GetTranslateConfig :: "'s exec \<Rightarrow> 'b BaseParams_scheme \<Rightarrow> 's node_finder \<Rightarrow> 's \<Rightarrow> Config res \<times> 's" where
  "GetTranslateConfig exec params f s =
     (case fake_pool exec params s of
        (Inl err, s) \<Rightarrow> (Inl err, s)
      | (Inr pool, s) \<Rightarrow>
          (case topology_specs f (bp_Topologies params) [] s of
             (Inl err, s) \<Rightarrow> (Inl err, s)
           | (Inr specs, s) \<Rightarrow>
               (Inr \<lparr>cfg_Plugin = bp_Plugin params, cfg_BlockSizes = getBlockSizes (bp_BlockSizes params),
                     cfg_FakeNodePool = pool, cfg_Topologies = specs\<rparr>, s)))"

section \<open>Output\<close>

definition TopologyHeader :: "string \<Rightarrow> string" where
  "TopologyHeader plugin =
     (let bar = replicate 63 (CHR ''#'')
      in newline @ bar @ newline @
         ''# Slurm'' @ [CHR 0x27] @ ''s network topology configuration file for use with the'' @ newline @
         ''# '' @ plugin @ '' plugin'' @ newline @ bar @ newline)"

definition reconfigure :: "'s exec \<Rightarrow> 's \<Rightarrow> string option \<times> 's" where
  "reconfigure exec s =
     (case exec ''scontrol'' [''reconfigure''] s of (Inl err, s) \<Rightarrow> (Some err, s) | (Inr out, s) \<Rightarrow> (None, s))"

definition write_config ::
  "'s exec \<Rightarrow> (string \<Rightarrow> string \<Rightarrow> 's \<Rightarrow> string option \<times> 's) \<Rightarrow> Params \<Rightarrow> string \<Rightarrow> ('s, string) call" where
  "write_config exec create params data s =
     (if length (sp_TopoConfigPath params) = 0 then (Inr data, s)
      else
        (case create (sp_TopoConfigPath params) data s of
           (Some err, s) \<Rightarrow> (Inl (NewError StatusInternalServerError err), s)
         | (None, s) \<Rightarrow>
             if sp_Reconfigure params
             then (case reconfigure exec s of
                     (Some err, s) \<Rightarrow> (Inl (NewError StatusInternalServerError err), s)
                   | (None, s) \<Rightarrow> (Inr (''OK'' @ newline), s))
             else (Inr (''OK'' @ newline), s)))"

definition GenerateOutputParams ::
  "'s exec \<Rightarrow> (string \<Rightarrow> string \<Rightarrow> 's \<Rightarrow> string option \<times> 's) \<Rightarrow> (TopologyUnit list \<Rightarrow> string res) \<Rightarrow> vertex \<Rightarrow> Params \<Rightarrow>
   ('s, string) pcall" where
  "GenerateOutputParams exec create marshal root params s =
     (let params = (if length (bp_Plugin params) = 0 \<and> length (bp_Topologies params) = 0
                    then params\<lparr>bp_Plugin := TopologyTree\<rparr> else params)
      in case GetTranslateConfig exec params (getPartitionNodes exec) s of
           (Inl err, s) \<Rightarrow> (Some (Inl (NewError StatusInternalServerError err)), s)
         | (Inr cfg, s) \<Rightarrow>
             (case NewNetworkTopology root cfg of
                Inl err \<Rightarrow> (Some (Inl (NewError StatusBadRequest err)), s)
              | Inr nt \<Rightarrow>
                  (case Generate marshal buf_write nt
                          (if length (sp_TopoConfigPath params) \<noteq> 0 then TopologyHeader (bp_Plugin params) else []) of
                     None \<Rightarrow> (None, s)
                   | Some (Inl err) \<Rightarrow> (Some (Inl err), s)
                   | Some (Inr data) \<Rightarrow> lift_call (write_config exec create params data) s)))"

definition GenerateOutput ::
  "('p \<Rightarrow> Params res) \<Rightarrow> 's exec \<Rightarrow> (string \<Rightarrow> string \<Rightarrow> 's \<Rightarrow> string option \<times> 's) \<Rightarrow> (TopologyUnit list \<Rightarrow> string res) \<Rightarrow>
   vertex \<Rightarrow> 'p \<Rightarrow> ('s, string) pcall" where
  "GenerateOutput getParams exec create marshal root params s =
     (case getParams params of
        Inl err \<Rightarrow> (Some (Inl (NewError StatusBadRequest err)), s)
      | Inr p \<Rightarrow> GenerateOutputParams exec create marshal root p s)"

section \<open>Properties\<close>

text \<open>
  The block sizes survive the text form: what is printed as a comma-separated list of 64-bit numbers is
  read back as the same list.
\<close>

theorem getBlockSizes_roundtrip:
  assumes "sizes \<noteq> []" and "\<forall>s \<in> set sizes. min_int64 \<le> s \<and> s \<le> max_int64"
  shows "getBlockSizes (join '','' (map show_int sizes)) = sizes"
proof -
  have "CHR '','' \<notin> set (show_int s)" for s
    using show_int_chars [of "CHR '',''" s] by (auto simp: is_digit_def)
  then have split: "split_on (CHR '','') (join '','' (map show_int sizes)) = map show_int sizes"
    using assms(1) by (intro split_on_join) auto
  have parts: "map strconv_atoi (map show_int sizes) = map (\<lambda>s. (s, True)) sizes"
    using assms(2) by (simp add: strconv_atoi_show)
  have "join '','' (map show_int sizes) \<noteq> []"
  proof
    assume "join '','' (map show_int sizes) = []"
    then have "map show_int sizes = [[]]" using split by simp
    then show False by (auto simp: show_int_def split: if_splits)
  qed
  then show ?thesis unfolding getBlockSizes_def split parts by (simp add: Let_def list_all_iff comp_def)
qed

theorem getBlockSizes_roundtrip_witness: "getBlockSizes ''4,8,16'' = [4, 8, 16]"
proof -
  have "join '','' (map show_int [4, 8, 16]) = ''4,8,16''" by code_simp
  moreover have "\<forall>s \<in> set [4, 8, 16]. min_int64 \<le> s \<and> s \<le> max_int64" by (simp add: min_int64_def max_int64_def)
  ultimately show ?thesis using getBlockSizes_roundtrip [of "[4, 8, 16]"] by simp
qed

text \<open>The loop invariant of the aggregation after the instances \<open>seen\<close>.\<close>

definition aggregate_inv ::
  "(string, string) gomap \<Rightarrow> (string \<times> string) list \<Rightarrow> (string, nat) gomap \<Rightarrow> compute_instances list \<Rightarrow> bool" where
  "aggregate_inv nodeRegions seen regions cis \<longleftrightarrow>
     length regions = length cis \<and>
     (\<forall>r i. map_of regions r = Some i \<longleftrightarrow> i < length cis \<and> Region (cis ! i) = r) \<and>
     (\<forall>i < length cis. \<forall>inst node. map_of (Instances (cis ! i)) inst = Some node \<longleftrightarrow>
        (inst, node) \<in> set seen \<and> map_of nodeRegions node = Some (Region (cis ! i))) \<and>
     (\<forall>inst node r. (inst, node) \<in> set seen \<longrightarrow> map_of nodeRegions node = Some r \<longrightarrow> map_of regions r \<noteq> None)"

lemma length_mput_new: "map_of m k = None \<Longrightarrow> length (mput k v m) = Suc (length m)"
  by (induction m) (auto split: if_splits)

lemma aggregate_inv_step:
  assumes inv: "aggregate_inv nodeRegions seen regions cis" and new: "inst \<notin> fst ` set seen"
    and step: "aggregate_step nodeRegions (inst, node) (regions, cis) = (regions', cis')"
  shows "aggregate_inv nodeRegions (seen @ [(inst, node)]) regions' cis'"
proof (cases "map_of nodeRegions node")
  case None
  then have "regions' = regions" "cis' = cis" using step by (simp_all add: aggregate_step_def)
  then show ?thesis using inv None unfolding aggregate_inv_def by auto
next
  case node: (Some region)
  have len: "length regions = length cis"
    and look: "\<And>r i. map_of regions r = Some i \<longleftrightarrow> i < length cis \<and> Region (cis ! i) = r"
    and insts: "\<And>i j n. i < length cis \<Longrightarrow> map_of (Instances (cis ! i)) j = Some n \<longleftrightarrow>
        (j, n) \<in> set seen \<and> map_of nodeRegions n = Some (Region (cis ! i))"
    and known: "\<And>j n r. (j, n) \<in> set seen \<Longrightarrow> map_of nodeRegions n = Some r \<Longrightarrow> map_of regions r \<noteq> None"
    using inv unfolding aggregate_inv_def by blast+
  show ?thesis
  proof (cases "map_of regions region")
    case None
    let ?ci = "\<lparr>Region = region, Instances = [(inst, node)]\<rparr>"
    have out: "regions' = mput region (length cis) regions" "cis' = cis @ [?ci]"
      using step node None len by (simp_all add: aggregate_step_def)
    have absent: "Region (cis ! i) \<noteq> region" if "i < length cis" for i
      using look [of region i] None that by auto
    have unseen: "map_of nodeRegions n \<noteq> Some region" if "(j, n) \<in> set seen" for j n
      using known [OF that] None by blast
    show ?thesis unfolding aggregate_inv_def out
    proof (intro conjI allI impI)
      show "length (mput region (length cis) regions) = length (cis @ [?ci])"
        using None len by (simp add: length_mput_new)
    next
      fix r i
      show "(map_of (mput region (length cis) regions) r = Some i) =
          (i < length (cis @ [?ci]) \<and> Region ((cis @ [?ci]) ! i) = r)"
        using look [of r i] absent by (auto simp: update_conv' nth_append less_Suc_eq)
    next
      fix i j n assume "i < length (cis @ [?ci])"
      then show "(map_of (Instances ((cis @ [?ci]) ! i)) j = Some n) =
          ((j, n) \<in> set (seen @ [(inst, node)]) \<and> map_of nodeRegions n = Some (Region ((cis @ [?ci]) ! i)))"
        using insts [of i j n] unseen [of j n] node absent [of i]
        by (auto simp: nth_append less_Suc_eq split: if_splits)
    next
      fix j n r assume "(j, n) \<in> set (seen @ [(inst, node)])" "map_of nodeRegions n = Some r"
      then show "map_of (mput region (length cis) regions) r \<noteq> None"
        using known [of j n r] node by (auto simp: update_conv')
    qed
  next
    case (Some i)
    let ?ci = "(cis ! i)\<lparr>Instances := mput inst node (Instances (cis ! i))\<rparr>"
    have out: "regions' = regions" "cis' = cis[i := ?ci]" using step node Some by (simp_all add: aggregate_step_def)
    have i: "i < length cis" "Region (cis ! i) = region" using look Some by auto
    have reg: "Region (cis[i := ?ci] ! k) = Region (cis ! k)" for k
      by (cases "k = i") (use i in simp_all)
    show ?thesis unfolding aggregate_inv_def out reg length_list_update
    proof (intro conjI allI impI)
      show "length regions = length cis" by (rule len)
      show "(map_of regions r = Some k) = (k < length cis \<and> Region (cis ! k) = r)" for r k by (rule look)
    next
      fix k j n assume k: "k < length cis"
      show "(map_of (Instances (cis[i := ?ci] ! k)) j = Some n) =
          ((j, n) \<in> set (seen @ [(inst, node)]) \<and> map_of nodeRegions n = Some (Region (cis ! k)))"
      proof (cases "k = i")
        case True
        have "(inst, n) \<notin> set seen" using new by force
        then show ?thesis using insts [OF k, of j n] True i node by (auto simp: update_conv')
      next
        case False
        have "Region (cis ! k) \<noteq> region" using look [of region k] look [of region i] i k False by auto
        then show ?thesis using insts [OF k, of j n] False node by auto
      qed
    next
      fix j n r assume "(j, n) \<in> set (seen @ [(inst, node)])" "map_of nodeRegions n = Some r"
      then show "map_of regions r \<noteq> None" using known [of j n r] node Some by auto
    qed
  qed
qed

lemma aggregate_inv_all:
  "aggregate_inv nodeRegions seen regions cis \<Longrightarrow> distinct (map fst (seen @ i2n)) \<Longrightarrow>
    fold (aggregate_step nodeRegions) i2n (regions, cis) = (regions', cis') \<Longrightarrow>
    aggregate_inv nodeRegions (seen @ i2n) regions' cis'"
proof (induction i2n arbitrary: seen regions cis)
  case (Cons p i2n)
  obtain inst node where p: "p = (inst, node)" by (cases p)
  obtain regions1 cis1 where one: "aggregate_step nodeRegions (inst, node) (regions, cis) = (regions1, cis1)"
    by (cases "aggregate_step nodeRegions (inst, node) (regions, cis)")
  have "inst \<notin> fst ` set seen" using Cons.prems(2) by (auto simp: p)
  from aggregate_inv_step [OF Cons.prems(1) this one]
  have "aggregate_inv nodeRegions ((seen @ [(inst, node)]) @ i2n) regions' cis'"
    using Cons.prems(2,3) one by (intro Cons.IH) (simp_all add: p)
  then show ?case by (simp add: p)
qed simp

text \<open>
  C24. Grouping by region loses nothing and mixes nothing: the result has one entry per region, none empty,
  and an instance with its node is in the entry of a region exactly when the node is in that region;
  instances of nodes without a region are left out.
\<close>

theorem aggregateComputeInstances_spec:
  assumes "distinct (map fst i2n)"
  shows "distinct (map Region (aggregateComputeInstances i2n nodeRegions)) \<and>
    (\<forall>inst node r. (\<exists>ci \<in> set (aggregateComputeInstances i2n nodeRegions). Region ci = r \<and> map_of (Instances ci) inst = Some node)
       \<longleftrightarrow> map_of i2n inst = Some node \<and> map_of nodeRegions node = Some r)"
proof -
  obtain regions cis where run: "fold (aggregate_step nodeRegions) i2n ([], []) = (regions, cis)"
    by (cases "fold (aggregate_step nodeRegions) i2n ([], [])")
  have "aggregate_inv nodeRegions ([] @ i2n) regions cis"
    using assms run by (intro aggregate_inv_all [of nodeRegions "[]" "[]" "[]"]) (simp_all add: aggregate_inv_def)
  then have look: "\<And>r i. map_of regions r = Some i \<longleftrightarrow> i < length cis \<and> Region (cis ! i) = r"
    and insts: "\<And>i j n. i < length cis \<Longrightarrow> map_of (Instances (cis ! i)) j = Some n \<longleftrightarrow>
        (j, n) \<in> set i2n \<and> map_of nodeRegions n = Some (Region (cis ! i))"
    and known: "\<And>j n r. (j, n) \<in> set i2n \<Longrightarrow> map_of nodeRegions n = Some r \<Longrightarrow> map_of regions r \<noteq> None"
    unfolding aggregate_inv_def append_Nil by blast+
  have "distinct (map Region cis)"
    unfolding distinct_conv_nth using look by (metis length_map nth_map option.inject)
  moreover have "(\<exists>ci \<in> set cis. Region ci = r \<and> map_of (Instances ci) j = Some n) \<longleftrightarrow>
      map_of i2n j = Some n \<and> map_of nodeRegions n = Some r" for j n r
  proof -
    have "(\<exists>ci \<in> set cis. Region ci = r \<and> map_of (Instances ci) j = Some n) \<longleftrightarrow>
        (\<exists>i < length cis. Region (cis ! i) = r \<and> map_of (Instances (cis ! i)) j = Some n)"
      by (metis in_set_conv_nth)
    also have "\<dots> \<longleftrightarrow> (j, n) \<in> set i2n \<and> map_of nodeRegions n = Some r"
    proof
      assume "(j, n) \<in> set i2n \<and> map_of nodeRegions n = Some r"
      moreover from this obtain i where "map_of regions r = Some i" using known [of j n r] by blast
      ultimately show "\<exists>i < length cis. Region (cis ! i) = r \<and> map_of (Instances (cis ! i)) j = Some n"
        using look [of r i] insts [of i j n] by auto
    qed (use insts in blast)
    finally show ?thesis using assms by simp
  qed
  ultimately show ?thesis by (simp add: aggregateComputeInstances_def run)
qed

theorem aggregateComputeInstances_spec_witness:
  "\<exists>ci \<in> set (aggregateComputeInstances [(''i1'', ''n1''), (''i2'', ''n2''), (''i3'', ''n3'')]
       [(''n1'', ''east''), (''n3'', ''east'')]). Region ci = ''east'' \<and> map_of (Instances ci) ''i3'' = Some ''n3''"
proof -
  let ?i2n = "[(''i1'', ''n1''), (''i2'', ''n2''), (''i3'', ''n3'')]" and ?regions = "[(''n1'', ''east''), (''n3'', ''east'')]"
  have "distinct (map fst ?i2n)" by simp
  from aggregateComputeInstances_spec [OF this, of ?regions, THEN conjunct2]
  have "(\<exists>ci \<in> set (aggregateComputeInstances ?i2n ?regions). Region ci = ''east'' \<and> map_of (Instances ci) ''i3'' = Some ''n3'') \<longleftrightarrow>
      map_of ?i2n ''i3'' = Some ''n3'' \<and> map_of ?regions ''n3'' = Some ''east''" by blast
  then show ?thesis by simp
qed

end
