(* ===== verification/Ib.thy ===== *)
theory Ib
  imports Merger Registry
begin

text \<open>
  \<open>pkg/ib/ib.go\<close>: the tree of an InfiniBand fabric from the output of \<open>ibnetdiscover\<close>. The
  regular expressions are anchored and their parts never overlap, so each is a sequence of literals and of
  longest runs of a class of characters; \<open>[^"]+\<close> ends at the next quote. What the code parses it hands
  to the merger of theory \<open>Merger\<close>.
\<close>

section \<open>Matching\<close>

definition lit :: "string \<Rightarrow> string \<Rightarrow> string option" where
  "lit p s = (if prefix p s then Some (drop (length p) s) else None)"

definition many1 :: "(char \<Rightarrow> bool) \<Rightarrow> string \<Rightarrow> (string \<times> string) option" where
  "many1 P s = (if takeWhile P s = [] then None else Some (takeWhile P s, dropWhile P s))"

definition re_ws :: "char \<Rightarrow> bool" where
  "re_ws c \<longleftrightarrow> (of_char c :: nat) \<in> {9, 10, 12, 13, 32}"

definition re_hex :: "char \<Rightarrow> bool" where
  "re_hex c \<longleftrightarrow> is_digit c \<or> (97 \<le> (of_char c :: nat) \<and> (of_char c :: nat) \<le> 102)"

definition quote_mark :: char where
  "quote_mark = CHR 0x22"

definition skip_ws :: "string \<Rightarrow> string option" where
  "skip_ws s = map_option snd (many1 re_ws s)"

definition skip_digits :: "string \<Rightarrow> string option" where
  "skip_digits s = map_option snd (many1 is_digit s)"

text \<open>A non-empty text in quotes.\<close>

definition quoted :: "string \<Rightarrow> (string \<times> string) option" where
  "quoted s = Option.bind (lit [quote_mark] s) (\<lambda>s. Option.bind (many1 (\<lambda>c. c \<noteq> quote_mark) s)
     (\<lambda>(t, s). map_option (\<lambda>s. (t, s)) (lit [quote_mark] s)))"

text \<open>A line of an adapter or a switch: \<open>Ca\<close> or \<open>Switch\<close>, a number, the ID, the name.\<close>

definition match_entry :: "string \<Rightarrow> string \<Rightarrow> (string \<times> string) option" where
  "match_entry kw s =
     Option.bind (lit kw s) (\<lambda>s. Option.bind (skip_ws s) (\<lambda>s. Option.bind (skip_digits s) (\<lambda>s.
     Option.bind (skip_ws s) (\<lambda>s. Option.bind (quoted s) (\<lambda>(eid, s). Option.bind (skip_ws s) (\<lambda>s.
     Option.bind (lit ''# '' s) (\<lambda>s. map_option (\<lambda>(name, s). (eid, name)) (quoted s))))))))"

text \<open>The optional \<open>(\<close>hex\<open>)\<close> of a connection; if it does not match it is skipped.\<close>

definition skip_guid :: "string \<Rightarrow> string" where
  "skip_guid s =
     (case Option.bind (lit ''('' s) (\<lambda>s. Option.bind (many1 re_hex s) (\<lambda>(_, s). lit '')'' s)) of
        Some s' \<Rightarrow> s' | None \<Rightarrow> s)"

definition match_conn :: "string \<Rightarrow> (string \<times> string) option" where
  "match_conn s =
     Option.bind (lit ''['' s) (\<lambda>s. Option.bind (skip_digits s) (\<lambda>s. Option.bind (lit '']'' s) (\<lambda>s.
     Option.bind (skip_ws s) (\<lambda>s. Option.bind (quoted s) (\<lambda>(eid, s). Option.bind (lit ''['' s) (\<lambda>s.
     Option.bind (skip_digits s) (\<lambda>s. Option.bind (lit '']'' s) (\<lambda>s. Option.bind (skip_ws (skip_guid s)) (\<lambda>s.
     Option.bind (lit ''# '' s) (\<lambda>s. map_option (\<lambda>(name, s). (eid, name)) (quoted s)))))))))))"

definition not_sep :: "char \<Rightarrow> bool" where
  "not_sep c \<longleftrightarrow> c \<noteq> CHR '';'' \<and> c \<noteq> CHR '':''"

definition match_switch_name :: "string \<Rightarrow> string option" where
  "match_switch_name s =
     Option.bind (many1 not_sep s) (\<lambda>(_, s). Option.bind (lit '';'' s) (\<lambda>s. Option.bind (many1 not_sep s) (\<lambda>(name, s).
     Option.bind (lit '':'' s) (\<lambda>s. Option.bind (many1 not_sep s) (\<lambda>(_, s). if s = [] then Some name else None)))))"

definition extractSwitchName :: "string \<Rightarrow> string" where
  "extractSwitchName name =
     (case match_switch_name name of
        Some n \<Rightarrow> n
      | None \<Rightarrow> if list_ex (\<lambda>c. c \<in> {CHR '' '', CHR '';'', CHR '':''}) name then [] else name)"

definition match_node_name :: "string \<Rightarrow> string option" where
  "match_node_name s =
     Option.bind (many1 (\<lambda>c. \<not> re_ws c) s) (\<lambda>(name, s).
       case s of [] \<Rightarrow> None
       | c # s \<Rightarrow> Option.bind (many1 (\<lambda>c. \<not> re_ws c) s) (\<lambda>(_, s). if s = [] then Some name else None))"

definition extractNodeName :: "string \<Rightarrow> string" where
  "extractNodeName name = (case match_node_name name of Some n \<Rightarrow> n | None \<Rightarrow> [])"

section \<open>Parsing\<close>

record ib_switch =
  ib_ID :: string
  ib_Name :: string
  ib_Conn :: "(string, string) gomap"
  ib_Nodes :: "(string, string) gomap"

type_synonym ib_state = "(string, ib_switch) gomap \<times> (string, string) gomap \<times> ib_switch option"

definition ib_line :: "string \<Rightarrow> ib_state \<Rightarrow> ib_state" where
  "ib_line line st =
     (case st of (switches, hca, entry) \<Rightarrow>
        if prefix ''#'' line then st
        else if list_all re_ws line
        then (case entry of None \<Rightarrow> st | Some isw \<Rightarrow> (mput (ib_ID isw) isw switches, hca, None))
        else
          (case match_entry ''Ca'' line of
             Some (hid, name) \<Rightarrow>
               let nodeName = extractNodeName name
               in (switches, if length nodeName \<noteq> 0 then mput hid nodeName hca else hca, entry)
           | None \<Rightarrow>
               (case match_entry ''Switch'' line of
                  Some (sid, name) \<Rightarrow>
                    (switches, hca, Some \<lparr>ib_ID = sid, ib_Name = extractSwitchName name, ib_Conn = [], ib_Nodes = []\<rparr>)
                | None \<Rightarrow>
                    (case (match_conn line, entry) of
                       (Some (cid, destName), Some isw) \<Rightarrow>
                         (switches, hca, Some (isw\<lparr>ib_Conn := mput cid destName (ib_Conn isw)\<rparr>))
                     | _ \<Rightarrow> st))))"

definition ParseIbnetdiscoverFile :: "string \<Rightarrow> ((string, ib_switch) gomap \<times> (string, string) gomap) res" where
  "ParseIbnetdiscoverFile data =
     (if \<exists>l \<in> set (split_on (CHR 0x0A) data). max_token \<le> length l then Inl ''bufio.Scanner: token too long''
      else (case fold ib_line (scan_lines data) ([], [], None) of (switches, hca, _) \<Rightarrow> Inr (switches, hca)))"

section \<open>The tree\<close>

text \<open>The compute nodes of the cluster on a switch, and the switch without its adapters.\<close>

definition switch_nodes :: "(string, string) gomap \<Rightarrow> (string, bool) gomap \<Rightarrow> ib_switch \<Rightarrow> (string, string) gomap" where
  "switch_nodes hca nodesInCluster isw =
     fold (\<lambda>(conID, _) ns. case map_of hca conID of
             Some nodeName \<Rightarrow>
               if length nodeName \<noteq> 0 \<and> map_of nodesInCluster nodeName \<noteq> None then mput conID nodeName ns else ns
           | None \<Rightarrow> ns)
       (ib_Conn isw) (ib_Nodes isw)"

definition fabric_conn :: "(string, string) gomap \<Rightarrow> ib_switch \<Rightarrow> string list" where
  "fabric_conn hca isw = filter (\<lambda>conID. map_of hca conID = None) (mkeys (ib_Conn isw))"

definition leaf_switch :: "string \<Rightarrow> (string, string) gomap \<Rightarrow> vertex" where
  "leaf_switch swID ns = Vertex [] swID (fold (\<lambda>nodeName. mput nodeName (leaf nodeName nodeName)) (mvals ns) []) []"

text \<open>The first pass: the leaf switches; the others with their links to switches.\<close>

definition first_level :: "(string, ib_switch) gomap \<Rightarrow> (string, string) gomap \<Rightarrow> (string, bool) gomap \<Rightarrow> (string, vertex) gomap" where
  "first_level switches hca nodesInCluster =
     map (\<lambda>(swID, isw). (swID, leaf_switch swID (switch_nodes hca nodesInCluster isw)))
       (filter (\<lambda>(swID, isw). switch_nodes hca nodesInCluster isw \<noteq> []) switches)"

text \<open>The switches that are not placed yet and have a child in the level below.\<close>

definition level_children :: "(string, string) gomap \<Rightarrow> (string, vertex) gomap \<Rightarrow> ib_switch \<Rightarrow> (string, vertex) gomap" where
  "level_children hca lvl isw =
     concat (map (\<lambda>conID. case map_of lvl conID of Some child \<Rightarrow> [(conID, child)] | None \<Rightarrow> []) (fabric_conn hca isw))"

definition upper_level ::
  "(string, ib_switch) gomap \<Rightarrow> (string, string) gomap \<Rightarrow> string list \<Rightarrow> (string, vertex) gomap \<Rightarrow> (string, vertex) gomap" where
  "upper_level switches hca placed lvl =
     concat (map (\<lambda>(swID, isw).
         if swID \<in> set placed then []
         else let children = level_children hca lvl isw
              in if children \<noteq> [] then [(swID, Vertex [] swID children [])] else [])
       switches)"

lemma upper_level_keys:
  "k \<in> set (mkeys (upper_level switches hca placed lvl)) \<Longrightarrow> k \<in> set (mkeys switches) \<and> k \<notin> set placed"
  by (force simp: upper_level_def Let_def split: if_splits)

function level_loop ::
  "(string, ib_switch) gomap \<Rightarrow> (string, string) gomap \<Rightarrow> string list \<Rightarrow> (string, vertex) gomap \<Rightarrow> (string, vertex) gomap" where
  "level_loop switches hca placed lvl =
     (let upper = upper_level switches hca placed lvl
      in if upper = [] then lvl else level_loop switches hca (placed @ mkeys upper) upper)"
  by pat_completeness auto
termination
proof (relation "measure (\<lambda>(switches, hca, placed, lvl). card (set (mkeys switches) - set placed))", simp)
  fix switches :: "(string, ib_switch) gomap" and hca :: "(string, string) gomap" and placed and lvl upper :: "(string, vertex) gomap"
  assume upper: "upper = upper_level switches hca placed lvl" "upper \<noteq> []"
  then obtain k where "k \<in> set (mkeys upper)" by (metis hd_in_set list.map_disc_iff)
  then have "set (mkeys switches) - set (placed @ mkeys upper) \<subset> set (mkeys switches) - set placed"
    using upper_level_keys [of k switches hca placed lvl] upper(1) by auto
  then have "card (set (mkeys switches) - set (placed @ mkeys upper)) < card (set (mkeys switches) - set placed)"
    by (rule psubset_card_mono [rotated]) simp
  then show "((switches, hca, placed @ mkeys upper, upper), switches, hca, placed, lvl) \<in>
      measure (\<lambda>(switches, hca, placed, lvl). card (set (mkeys switches) - set placed))" by simp
qed

declare level_loop.simps [simp del]

definition buildTree ::
  "(string, ib_switch) gomap \<Rightarrow> (string, string) gomap \<Rightarrow> (string, bool) gomap \<Rightarrow> (string, vertex) gomap" where
  "buildTree switches hca nodesInCluster =
     (let lvl = first_level switches hca nodesInCluster in level_loop switches hca (mkeys lvl) lvl)"

definition ib_GenerateTopologyConfig ::
  "string \<Rightarrow> compute_instances list \<Rightarrow> (vertex list \<times> (string, string) gomap) option res" where
  "ib_GenerateTopologyConfig data instances =
     (case ParseIbnetdiscoverFile data of
        Inl err \<Rightarrow> Inl (''failed to parse ibnetdiscover output: '' @ err)
      | Inr (switches, hca) \<Rightarrow>
          let roots = buildTree switches hca (GetNodeNameMap instances)
          in Inr (map_option (\<lambda>m. (TopTier m, hca)) (Option.bind (NewMerger (mvals roots)) Merge)))"

section \<open>The tree is layered\<close>

definition conns_ok :: "(string, ib_switch) gomap \<Rightarrow> bool" where
  "conns_ok switches \<longleftrightarrow> distinct (mkeys switches) \<and>
     (\<forall>isw \<in> snd ` set switches. distinct (mkeys (ib_Conn isw)) \<and> ib_Nodes isw = [])"

definition nodes_apart :: "(string, ib_switch) gomap \<Rightarrow> (string, string) gomap \<Rightarrow> bool" where
  "nodes_apart switches hca \<longleftrightarrow> (\<forall>node \<in> snd ` set hca. node \<notin> set (mkeys switches))"

lemma mvals_mput_in: "isw \<in> snd ` set (mput k v m) \<Longrightarrow> isw = v \<or> isw \<in> snd ` set m"
  by (induction m) (auto split: if_splits)

definition ib_state_ok :: "ib_state \<Rightarrow> bool" where
  "ib_state_ok st \<longleftrightarrow> conns_ok (fst st) \<and>
     (\<forall>isw. snd (snd st) = Some isw \<longrightarrow> distinct (mkeys (ib_Conn isw)) \<and> ib_Nodes isw = [])"

lemma ib_line_ok: "ib_state_ok st \<Longrightarrow> ib_state_ok (ib_line line st)"
proof -
  assume ok: "ib_state_ok st"
  obtain switches hca entry where st: "st = (switches, hca, entry)" by (cases st)
  have add: "conns_ok (mput (ib_ID isw) isw switches)" if "entry = Some isw" for isw
  proof -
    have ok': "conns_ok switches" "distinct (mkeys (ib_Conn isw)) \<and> ib_Nodes isw = []"
      using ok that by (auto simp: ib_state_ok_def st)
    have each: "distinct (mkeys (ib_Conn x)) \<and> ib_Nodes x = []" if "x \<in> snd ` set (mput (ib_ID isw) isw switches)" for x
    proof (cases "x = isw")
      case False
      then have "x \<in> snd ` set switches" using mvals_mput_in [OF that] by simp
      then show ?thesis using ok'(1) unfolding conns_ok_def by (elim conjE bspec)
    qed (use ok'(2) in simp)
    have "distinct (mkeys switches)" using ok'(1) by (simp add: conns_ok_def)
    then show ?thesis unfolding conns_ok_def by (intro conjI [OF distinct_update ballI] each)
  qed
  show ?thesis
    using ok add
    by (auto simp: ib_line_def st ib_state_ok_def Let_def distinct_update split: option.splits prod.splits)
qed

lemma parse_conns_ok: "ParseIbnetdiscoverFile data = Inr (switches, hca) \<Longrightarrow> conns_ok switches"
proof -
  assume run: "ParseIbnetdiscoverFile data = Inr (switches, hca)"
  have "ib_state_ok (fold ib_line ls st)" if "ib_state_ok st" for ls st
    using that by (induction ls arbitrary: st) (simp_all add: ib_line_ok)
  moreover have "ib_state_ok ([], [], None)" by (simp add: ib_state_ok_def conns_ok_def)
  ultimately have "ib_state_ok (fold ib_line (scan_lines data) ([], [], None))" by blast
  then show ?thesis
    using run by (auto simp: ParseIbnetdiscoverFile_def ib_state_ok_def split: prod.splits if_splits)
qed

lemma switch_nodes_hca:
  "n \<in> snd ` set (switch_nodes hca cluster isw) \<Longrightarrow> ib_Nodes isw = [] \<Longrightarrow> n \<in> snd ` set hca"
proof -
  have "n \<in> snd ` set (fold (\<lambda>(conID, _) ns. case map_of hca conID of
             Some nodeName \<Rightarrow>
               if length nodeName \<noteq> 0 \<and> map_of cluster nodeName \<noteq> None then mput conID nodeName ns else ns
           | None \<Rightarrow> ns) cs ns) \<Longrightarrow> n \<in> snd ` set ns \<union> snd ` set hca" for cs :: "(string \<times> string) list" and ns
  proof (induction cs arbitrary: ns)
    case (Cons c cs)
    let ?ns = "(case map_of hca (fst c) of
        Some nodeName \<Rightarrow> if length nodeName \<noteq> 0 \<and> map_of cluster nodeName \<noteq> None then mput (fst c) nodeName ns else ns
      | None \<Rightarrow> ns)"
    have "n \<in> snd ` set ?ns \<union> snd ` set hca" using Cons by (simp add: case_prod_unfold)
    moreover have "snd ` set ?ns \<subseteq> snd ` set ns \<union> snd ` set hca"
    proof (cases "map_of hca (fst c)")
      case (Some m)
      then have "m \<in> snd ` set hca" using map_of_SomeD [OF Some] by force
      then show ?thesis using Some mvals_mput_in [of _ "fst c" m ns] by auto
    qed simp
    ultimately show ?case by blast
  qed simp
  then show "n \<in> snd ` set (switch_nodes hca cluster isw) \<Longrightarrow> ib_Nodes isw = [] \<Longrightarrow> n \<in> snd ` set hca"
    unfolding switch_nodes_def by force
qed

lemma leaf_switch_kids:
  "set (Vertices (leaf_switch swID ns)) = (\<lambda>n. (n, leaf n n)) ` snd ` set ns \<and> distinct (mkeys (Vertices (leaf_switch swID ns)))"
proof -
  have d: "distinct (mkeys (fold (\<lambda>n. mput n (leaf n n)) xs m))" if "distinct (mkeys m)" for xs m
    using that by (induction xs arbitrary: m) (simp_all add: distinct_update)
  have look: "map_of (fold (\<lambda>n. mput n (leaf n n)) xs m) k = (if k \<in> set xs then Some (leaf k k) else map_of m k)" for xs m k
    by (induction xs arbitrary: m) (auto simp: update_conv')
  let ?m = "fold (\<lambda>n. mput n (leaf n n)) (mvals ns) []"
  have "distinct (mkeys ?m)" by (rule d) simp
  then have "(k, v) \<in> set ?m \<longleftrightarrow> k \<in> snd ` set ns \<and> v = leaf k k" for k v
    unfolding map_of_eq_Some_iff [OF \<open>distinct (mkeys ?m)\<close>, symmetric] look by auto
  then show ?thesis using \<open>distinct (mkeys ?m)\<close> by (auto simp: leaf_switch_def)
qed

text \<open>A level with everything below it: the IDs of switches are placed, the others are node names.\<close>

definition level_inv ::
  "(string, ib_switch) gomap \<Rightarrow> string set \<Rightarrow> nat \<Rightarrow> string list \<Rightarrow> (string, vertex) gomap \<Rightarrow> vertex set \<Rightarrow> bool" where
  "level_inv switches names n placed lvl U \<longleftrightarrow>
     consistent U \<and> (\<forall>v \<in> U. ID v \<in> set placed \<union> names) \<and>
     (\<forall>(k, v) \<in> set lvl. ID v = k \<and> level (Suc n) v \<and> v \<in> U)"

lemma subs_in_consistent: "consistent U \<Longrightarrow> v \<in> U \<Longrightarrow> set (subs v) \<subseteq> U"
proof (induction v rule: subs.induct)
  case (1 n i cs m)
  have "set (subs w) \<subseteq> U" if "(k, w) \<in> set cs" for k w
  proof -
    have "w \<in> U" using 1(2,3) that by (force simp: consistent_def)
    then show ?thesis using 1(1) [of "(k, w)" k w] that 1(2) by simp
  qed
  then show ?case using 1(3) by auto
qed

lemma first_level_entry:
  assumes "conns_ok switches" and "(k, v) \<in> set (first_level switches hca cluster)"
  shows "\<forall>(j, w) \<in> set (Vertices v). w = leaf j j \<and> j \<in> snd ` set hca" and "distinct (mkeys (Vertices v))"
    and "Vertices v \<noteq> []" and "ID v = k" and "k \<in> set (mkeys switches)"
    and "\<exists>isw. (k, isw) \<in> set switches \<and> v = leaf_switch k (switch_nodes hca cluster isw)"
proof -
  obtain isw where isw: "(k, isw) \<in> set switches" "switch_nodes hca cluster isw \<noteq> []"
    "v = leaf_switch k (switch_nodes hca cluster isw)"
    using assms(2) by (auto simp: first_level_def)
  have "isw \<in> snd ` set switches" using isw(1) by force
  then have "ib_Nodes isw = []" using assms(1) unfolding conns_ok_def by blast
  then have sub: "snd ` set (switch_nodes hca cluster isw) \<subseteq> snd ` set hca" using switch_nodes_hca by blast
  note kids = leaf_switch_kids [of k "switch_nodes hca cluster isw"]
  show "\<forall>(j, w) \<in> set (Vertices v). w = leaf j j \<and> j \<in> snd ` set hca" "distinct (mkeys (Vertices v))"
    using kids sub isw(3) by auto
  have "set (Vertices v) \<noteq> {}" using kids isw(2,3) by simp
  then show "Vertices v \<noteq> []" by auto
  show "ID v = k" using isw(3) by (simp add: leaf_switch_def)
  show "k \<in> set (mkeys switches)" using isw(1) by force
  show "\<exists>isw. (k, isw) \<in> set switches \<and> v = leaf_switch k (switch_nodes hca cluster isw)"
    using isw(1,3) by (intro exI [of _ isw] conjI)
qed

lemma first_level_unique:
  assumes "conns_ok switches" and "(k, v) \<in> set (first_level switches hca cluster)" and "(k, w) \<in> set (first_level switches hca cluster)"
  shows "v = w"
proof -
  have d: "distinct (mkeys switches)" using assms(1) by (simp add: conns_ok_def)
  obtain a where a: "(k, a) \<in> set switches" "v = leaf_switch k (switch_nodes hca cluster a)"
    using first_level_entry(6) [OF assms(1,2)] by (elim exE conjE)
  obtain b where b: "(k, b) \<in> set switches" "w = leaf_switch k (switch_nodes hca cluster b)"
    using first_level_entry(6) [OF assms(1,3)] by (elim exE conjE)
  have "a = b" by (rule eq_key_imp_eq_value [OF d a(1) b(1)])
  then show ?thesis using a(2) b(2) by (simp only:)
qed

lemma first_level_inv:
  assumes "conns_ok switches" and "nodes_apart switches hca"
  shows "\<exists>U. level_inv switches (snd ` set hca) 0 (mkeys (first_level switches hca cluster)) (first_level switches hca cluster) U"
proof -
  define lvl where "lvl = first_level switches hca cluster"
  define names where "names = snd ` set hca"
  define U where "U = snd ` set lvl \<union> (\<lambda>n. leaf n n) ` names"
  note entry = first_level_entry [OF assms(1), of _ _ hca cluster, folded lvl_def names_def]
  have inU: "v \<in> U \<longleftrightarrow> (\<exists>k. (k, v) \<in> set lvl) \<or> (\<exists>n \<in> names. v = leaf n n)" for v
    unfolding U_def by force
  have apart: "ID u \<notin> names" if "(k, u) \<in> set lvl" for k u
  proof -
    have "ID u \<in> set (mkeys switches)" using entry(4,5) [OF that] by (simp only:)
    then show ?thesis using assms(2) unfolding nodes_apart_def names_def by blast
  qed
  have closed: "w \<in> U" if v: "v \<in> U" and w: "w \<in> snd ` set (Vertices v)" for v w
  proof -
    have "\<exists>n \<in> names. w = leaf n n"
    proof (cases "\<exists>k. (k, v) \<in> set lvl")
      case True
      then obtain k where k: "(k, v) \<in> set lvl" by (elim exE)
      obtain j where "(j, w) \<in> set (Vertices v)" using w by auto
      then show ?thesis using entry(1) [OF k] by auto
    next
      case False
      then have "Vertices v = []" using v inU by auto
      then show ?thesis using w by simp
    qed
    then show ?thesis using inU by simp
  qed
  have unique: "v = w" if vw: "v \<in> U" "w \<in> U" "ID v = ID w" for v w
  proof (cases "\<exists>k. (k, v) \<in> set lvl")
    case True
    then obtain k where k: "(k, v) \<in> set lvl" by (elim exE)
    then have "ID w \<notin> names" using apart [OF k] vw(3) by simp
    then obtain j where j: "(j, w) \<in> set lvl" using vw(2) inU by auto
    have "j = k" using entry(4) [OF j] entry(4) [OF k] vw(3) by simp
    then show ?thesis using first_level_unique [OF assms(1)] k j unfolding lvl_def by simp
  next
    case False
    then obtain n where n: "v = leaf n n" "n \<in> names" using vw(1) inU by auto
    then have "\<not> (\<exists>k. (k, w) \<in> set lvl)" using apart vw(3) by force
    then obtain m where "w = leaf m m" using vw(2) inU by auto
    then show ?thesis using n(1) vw(3) by simp
  qed
  have "consistent U" unfolding consistent_def using closed unique by (intro conjI ballI impI)
  moreover have "level (Suc 0) v" if "(k, v) \<in> set lvl" for k v
    using entry(1-3) [OF that] by auto
  moreover have "ID v \<in> set (mkeys lvl) \<union> names" if v: "v \<in> U" for v
  proof (cases "\<exists>k. (k, v) \<in> set lvl")
    case True
    then obtain k where k: "(k, v) \<in> set lvl" by (elim exE)
    then show ?thesis using entry(4) [OF k] by force
  next
    case False
    then show ?thesis using v inU by auto
  qed
  ultimately have "level_inv switches names 0 (mkeys lvl) lvl U"
    unfolding level_inv_def using entry(4) inU by blast
  then show ?thesis unfolding lvl_def names_def by (intro exI)
qed

lemma upper_level_entry:
  assumes "(k, v) \<in> set (upper_level switches hca placed lvl)"
  shows "\<exists>isw. (k, isw) \<in> set switches \<and> k \<notin> set placed \<and> level_children hca lvl isw \<noteq> [] \<and>
    v = Vertex [] k (level_children hca lvl isw) []"
  using assms by (auto simp: upper_level_def Let_def split: if_splits)

lemma level_children_in: "(k, w) \<in> set (level_children hca lvl isw) \<Longrightarrow> (k, w) \<in> set lvl"
  by (auto simp: level_children_def split: option.splits dest: map_of_SomeD [OF sym])

lemma level_children_distinct: "distinct (mkeys (ib_Conn isw)) \<Longrightarrow> distinct (mkeys (level_children hca lvl isw))"
proof -
  have "distinct ks \<Longrightarrow> distinct (mkeys (concat (map (\<lambda>c. case map_of lvl c of Some child \<Rightarrow> [(c, child)] | None \<Rightarrow> []) ks))) \<and>
      set (mkeys (concat (map (\<lambda>c. case map_of lvl c of Some child \<Rightarrow> [(c, child)] | None \<Rightarrow> []) ks))) \<subseteq> set ks" for ks
    by (induction ks) (auto split: option.splits)
  then show "distinct (mkeys (ib_Conn isw)) \<Longrightarrow> ?thesis"
    unfolding level_children_def fabric_conn_def using distinct_filter by blast
qed

lemma upper_level_inv:
  assumes "conns_ok switches" and "names \<inter> set (mkeys switches) = {}" and "level_inv switches names n placed lvl U"
  shows "\<exists>U'. level_inv switches names (Suc n) (placed @ mkeys (upper_level switches hca placed lvl))
    (upper_level switches hca placed lvl) U'"
proof -
  define upper where "upper = upper_level switches hca placed lvl"
  define U' where "U' = snd ` set upper \<union> U"
  have U: "consistent U" "\<And>v. v \<in> U \<Longrightarrow> ID v \<in> set placed \<union> names"
    and lvl: "\<And>k v. (k, v) \<in> set lvl \<Longrightarrow> ID v = k \<and> level (Suc n) v \<and> v \<in> U"
    using assms(3) unfolding level_inv_def by blast+
  have entry: "\<exists>isw. (k, isw) \<in> set switches \<and> k \<notin> set placed \<and> level_children hca lvl isw \<noteq> [] \<and>
      v = Vertex [] k (level_children hca lvl isw) []" if "(k, v) \<in> set upper" for k v
    using upper_level_entry that unfolding upper_def by simp
  have inU': "v \<in> U' \<longleftrightarrow> (\<exists>k. (k, v) \<in> set upper) \<or> v \<in> U" for v unfolding U'_def by force
  have new: "ID v = k \<and> k \<notin> set placed \<union> names \<and> level (Suc (Suc n)) v \<and> snd ` set (Vertices v) \<subseteq> U"
    if kv: "(k, v) \<in> set upper" for k v
  proof -
    obtain isw where isw: "(k, isw) \<in> set switches" "k \<notin> set placed" "level_children hca lvl isw \<noteq> []"
      "v = Vertex [] k (level_children hca lvl isw) []" using entry [OF kv] by (elim exE conjE)
    have "k \<in> set (mkeys switches)" "isw \<in> snd ` set switches" using isw(1) by force+
    then have "k \<notin> names" "distinct (mkeys (ib_Conn isw))" using assms(1,2) unfolding conns_ok_def by blast+
    moreover have child: "j = ID w \<and> level (Suc n) w \<and> w \<in> U"
      if "(j, w) \<in> set (level_children hca lvl isw)" for j w
      using lvl [OF level_children_in [OF that]] by simp
    ultimately have "level (Suc (Suc n)) v"
      using isw(3) level_children_distinct unfolding isw(4) by (auto simp del: level.simps simp: level.simps(2) [of "Suc n"])
    moreover have "snd ` set (Vertices v) \<subseteq> U" using child unfolding isw(4) by auto
    ultimately show ?thesis using \<open>k \<notin> names\<close> isw(2) unfolding isw(4) by simp
  qed
  have closed: "w \<in> U'" if v: "v \<in> U'" and w: "w \<in> snd ` set (Vertices v)" for v w
  proof (cases "\<exists>k. (k, v) \<in> set upper")
    case True
    then obtain k where "(k, v) \<in> set upper" by (elim exE)
    then show ?thesis using new w inU' by blast
  next
    case False
    then have "v \<in> U" using v inU' by simp
    then have "w \<in> U" using U(1) w unfolding consistent_def by blast
    then show ?thesis using inU' by simp
  qed
  have unique: "v = w" if vw: "v \<in> U'" "w \<in> U'" "ID v = ID w" for v w
  proof (cases "\<exists>k. (k, v) \<in> set upper")
    case True
    then obtain k where k: "(k, v) \<in> set upper" by (elim exE)
    then have "ID w \<notin> set placed \<union> names" using new [OF k] vw(3) by simp
    then obtain j where j: "(j, w) \<in> set upper" using vw(2) inU' U(2) by blast
    have "j = k" using new [OF j] new [OF k] vw(3) by simp
    obtain a where a: "(k, a) \<in> set switches" "v = Vertex [] k (level_children hca lvl a) []"
      using entry [OF k] by (elim exE conjE)
    obtain b where b: "(k, b) \<in> set switches" "w = Vertex [] k (level_children hca lvl b) []"
      using entry [OF j] unfolding \<open>j = k\<close> by (elim exE conjE)
    have "distinct (mkeys switches)" using assms(1) by (simp add: conns_ok_def)
    from eq_key_imp_eq_value [OF this a(1) b(1)] show ?thesis using a(2) b(2) by (simp only:)
  next
    case False
    then have v: "v \<in> U" using vw(1) inU' by simp
    have "ID w \<in> set placed \<union> names" using U(2) [OF v] vw(3) by simp
    then have "w \<in> U" using new vw(2) inU' by blast
    then show ?thesis using U(1) v vw(3) unfolding consistent_def by blast
  qed
  have "consistent U'" unfolding consistent_def using closed unique by (intro conjI ballI impI)
  moreover have "ID v \<in> set (placed @ mkeys upper) \<union> names" if v: "v \<in> U'" for v
  proof (cases "v \<in> U")
    case True
    then show ?thesis using U(2) by auto
  next
    case False
    then obtain k where k: "(k, v) \<in> set upper" using v inU' by auto
    then have "k \<in> set (mkeys upper)" by force
    then show ?thesis using new [OF k] by simp
  qed
  moreover have "ID v = k \<and> level (Suc (Suc n)) v \<and> v \<in> U'" if "(k, v) \<in> set upper" for k v
    using new [OF that] that inU' by blast
  ultimately have "level_inv switches names (Suc n) (placed @ mkeys upper) upper U'"
    unfolding level_inv_def by blast
  then show ?thesis unfolding upper_def by (intro exI)
qed

lemma level_loop_inv:
  assumes "conns_ok switches" and "names \<inter> set (mkeys switches) = {}"
  shows "level_inv switches names n placed lvl U \<Longrightarrow>
    \<exists>n' placed' U'. level_inv switches names n' placed' (level_loop switches hca placed lvl) U'"
  using assms
proof (induction switches hca placed lvl arbitrary: n U rule: level_loop.induct)
  case (1 switches hca placed lvl)
  show ?case
  proof (cases "upper_level switches hca placed lvl = []")
    case True
    then have "level_loop switches hca placed lvl = lvl" by (subst level_loop.simps) simp
    then show ?thesis using 1(2) by (intro exI) simp
  next
    case False
    then have step: "level_loop switches hca placed lvl =
        level_loop switches hca (placed @ mkeys (upper_level switches hca placed lvl)) (upper_level switches hca placed lvl)"
      by (subst level_loop.simps) (simp add: Let_def)
    obtain U' where "level_inv switches names (Suc n) (placed @ mkeys (upper_level switches hca placed lvl))
        (upper_level switches hca placed lvl) U'"
      using upper_level_inv [OF 1(3,4,2), of hca] by (elim exE)
    from 1(1) [OF refl False this 1(3,4)] show ?thesis unfolding step .
  qed
qed

text \<open>The tree of a parsed fabric satisfies what the merger asks for.\<close>

lemma buildTree_layered:
  assumes "conns_ok switches" and "nodes_apart switches hca"
  shows "\<exists>n. (\<forall>v \<in> set (mvals (buildTree switches hca cluster)). level (Suc n) v) \<and>
    consistent (\<Union>v \<in> set (mvals (buildTree switches hca cluster)). set (subs v))"
proof -
  let ?lvl = "first_level switches hca cluster" and ?names = "snd ` set hca"
  obtain U where "level_inv switches ?names 0 (mkeys ?lvl) ?lvl U" using first_level_inv [OF assms, of cluster] by (elim exE)
  moreover have "?names \<inter> set (mkeys switches) = {}" using assms(2) unfolding nodes_apart_def by blast
  ultimately obtain n placed U' where inv: "level_inv switches ?names n placed (buildTree switches hca cluster) U'"
    using level_loop_inv [OF assms(1), of ?names] unfolding buildTree_def Let_def by (metis (no_types))
  have U': "consistent U'" and roots: "\<And>v. v \<in> set (mvals (buildTree switches hca cluster)) \<Longrightarrow> level (Suc n) v \<and> v \<in> U'"
    using inv unfolding level_inv_def by (auto simp del: level.simps)
  have sub: "(\<Union>v \<in> set (mvals (buildTree switches hca cluster)). set (subs v)) \<subseteq> U'"
    using subs_in_consistent [OF U'] roots by blast
  have "consistent (\<Union>v \<in> set (mvals (buildTree switches hca cluster)). set (subs v))"
    unfolding consistent_def
  proof (intro conjI ballI impI)
    fix v w assume "v \<in> (\<Union>v \<in> set (mvals (buildTree switches hca cluster)). set (subs v))" "w \<in> snd ` set (Vertices v)"
    then show "w \<in> (\<Union>v \<in> set (mvals (buildTree switches hca cluster)). set (subs v))"
      using subs_kids unfolding kids_def by blast
  next
    fix v w assume vw: "v \<in> (\<Union>v \<in> set (mvals (buildTree switches hca cluster)). set (subs v))"
      "w \<in> (\<Union>v \<in> set (mvals (buildTree switches hca cluster)). set (subs v))" "ID v = ID w"
    have "v \<in> U'" "w \<in> U'" using subsetD [OF sub vw(1)] subsetD [OF sub vw(2)] by simp_all
    then show "v = w" using U' vw(3) unfolding consistent_def by blast
  qed
  then show ?thesis using roots by blast
qed

section \<open>Reading back a printed fabric\<close>

definition quot :: "string \<Rightarrow> string" where
  "quot s = [quote_mark] @ s @ [quote_mark]"

definition entry_line :: "string \<Rightarrow> string \<Rightarrow> string \<Rightarrow> string" where
  "entry_line kw eid name = kw @ '' 2 '' @ quot eid @ '' # '' @ quot name"

definition conn_line :: "string \<times> string \<Rightarrow> string" where
  "conn_line c = ''[1] '' @ quot (fst c) @ ''[1](a0) # '' @ quot (snd c)"

text \<open>A switch with its connections and the empty line that ends it; an adapter of a node.\<close>

definition switch_lines :: "string \<times> ib_switch \<Rightarrow> string list" where
  "switch_lines entry = entry_line ''Switch'' (fst entry) (ib_Name (snd entry)) # map conn_line (ib_Conn (snd entry)) @ [[]]"

definition ca_line :: "string \<times> string \<Rightarrow> string" where
  "ca_line ca = entry_line ''Ca'' (fst ca) (snd ca @ '' mlx5_0'')"

definition fabric_lines :: "(string, ib_switch) gomap \<Rightarrow> (string, string) gomap \<Rightarrow> string list" where
  "fabric_lines switches hca = concat (map switch_lines switches) @ map ca_line hca"

definition fabric_word :: "string \<Rightarrow> bool" where
  "fabric_word w \<longleftrightarrow> w \<noteq> [] \<and> quote_mark \<notin> set w \<and> CHR 0x0A \<notin> set w \<and> length w < 1000"

definition fabric_name :: "string \<Rightarrow> bool" where
  "fabric_name w \<longleftrightarrow> fabric_word w \<and> length w < 900 \<and> (\<forall>c \<in> set w. \<not> re_ws c \<and> not_sep c)"

definition switch_ok :: "string \<times> ib_switch \<Rightarrow> bool" where
  "switch_ok entry \<longleftrightarrow> fabric_word (fst entry) \<and> ib_ID (snd entry) = fst entry \<and> fabric_name (ib_Name (snd entry)) \<and>
     ib_Nodes (snd entry) = [] \<and> distinct (mkeys (ib_Conn (snd entry))) \<and>
     (\<forall>(cid, name) \<in> set (ib_Conn (snd entry)). fabric_word cid \<and> fabric_word name)"

lemma takeWhile_mark: "x \<notin> set w \<Longrightarrow> takeWhile (\<lambda>c. c \<noteq> x) (w @ x # s) = w \<and> dropWhile (\<lambda>c. c \<noteq> x) (w @ x # s) = x # s"
  by (induction w) auto

lemma quoted_quot: "w \<noteq> [] \<Longrightarrow> quote_mark \<notin> set w \<Longrightarrow> quoted (quot w @ s) = Some (w, s)"
  using takeWhile_mark [of quote_mark w s] by (simp add: quoted_def quot_def lit_def many1_def)

lemma quoted_quot_end: "w \<noteq> [] \<Longrightarrow> quote_mark \<notin> set w \<Longrightarrow> quoted (quot w) = Some (w, [])"
  using quoted_quot [of w "[]"] by simp

lemma not_ws_quote: "\<not> re_ws quote_mark" "\<not> re_ws (CHR ''#'')"
  by (simp_all add: re_ws_def quote_mark_def)

lemma skip_space: "s \<noteq> [] \<Longrightarrow> \<not> re_ws (hd s) \<Longrightarrow> skip_ws (CHR '' '' # s) = Some s"
  by (cases s) (simp_all add: skip_ws_def many1_def re_ws_def)

lemma match_entry_line:
  assumes "fabric_word eid" and "fabric_word name"
  shows "match_entry kw (entry_line kw eid name) = Some (eid, name)"
proof -
  have "skip_ws ('' 2 '' @ s) = Some (''2 '' @ s)" for s
    by (simp add: skip_space re_ws_def)
  moreover have "skip_digits (''2 '' @ s) = Some ('' '' @ s)" for s
    by (simp add: skip_digits_def many1_def is_digit_def)
  moreover have "skip_ws ('' '' @ quot w @ s) = Some (quot w @ s)" for w s
    by (simp add: skip_space quot_def not_ws_quote)
  moreover have "skip_ws ('' # '' @ s) = Some (''# '' @ s)" for s
    by (simp add: skip_space not_ws_quote)
  ultimately show ?thesis
    using assms by (simp add: match_entry_def entry_line_def fabric_word_def lit_def quoted_quot quoted_quot_end)
qed

lemma match_conn_line:
  assumes "fabric_word (fst c)" and "fabric_word (snd c)"
  shows "match_conn (conn_line c) = Some c"
proof -
  have "skip_digits (''1]'' @ s) = Some ('']'' @ s)" for s
    by (simp add: skip_digits_def many1_def is_digit_def)
  moreover have "skip_ws ('' '' @ quot w @ s) = Some (quot w @ s)" for w s
    by (simp add: skip_space quot_def not_ws_quote)
  moreover have "skip_ws ('' # '' @ s) = Some (''# '' @ s)" for s
    by (simp add: skip_space not_ws_quote)
  moreover have "skip_guid (''(a0)'' @ s) = s" for s
    by (simp add: skip_guid_def lit_def many1_def re_hex_def is_digit_def)
  ultimately show ?thesis
    using assms by (simp add: match_conn_def conn_line_def fabric_word_def lit_def quoted_quot quoted_quot_end)
qed

lemma match_other:
  "match_entry ''Ca'' (entry_line ''Switch'' eid name) = None" "match_entry ''Ca'' (conn_line c) = None"
  "match_entry ''Switch'' (conn_line c) = None"
proof -
  have none: "lit kw s = None \<Longrightarrow> match_entry kw s = None" for kw s by (simp add: match_entry_def)
  show "match_entry ''Ca'' (entry_line ''Switch'' eid name) = None" "match_entry ''Ca'' (conn_line c) = None"
    "match_entry ''Switch'' (conn_line c) = None"
    by (rule none, simp add: lit_def entry_line_def conn_line_def)+
qed

lemma line_starts:
  "\<not> prefix ''#'' (entry_line ''Ca'' eid name) \<and> \<not> list_all re_ws (entry_line ''Ca'' eid name)"
  "\<not> prefix ''#'' (entry_line ''Switch'' eid name) \<and> \<not> list_all re_ws (entry_line ''Switch'' eid name)"
  "\<not> prefix ''#'' (conn_line c) \<and> \<not> list_all re_ws (conn_line c)"
  by (simp_all add: entry_line_def conn_line_def re_ws_def)

lemma extractSwitchName_word: "fabric_name w \<Longrightarrow> extractSwitchName w = w"
proof -
  assume w: "fabric_name w"
  then have each: "\<forall>c \<in> set w. \<not> re_ws c \<and> not_sep c" and ne: "w \<noteq> []" by (simp_all add: fabric_name_def fabric_word_def)
  have taken: "takeWhile not_sep w = w" "dropWhile not_sep w = []" using each by (simp_all add: takeWhile_eq_all_conv)
  have "many1 not_sep w = Some (w, [])" unfolding many1_def taken using ne by (simp only: if_False)
  moreover have "lit '';'' [] = None" by (simp add: lit_def)
  ultimately have no_match: "match_switch_name w = None" by (simp add: match_switch_name_def)
  have "c \<notin> {CHR '' '', CHR '';'', CHR '':''}" if "\<not> re_ws c \<and> not_sep c" for c
    using that by (auto simp: re_ws_def not_sep_def)
  then have "\<not> list_ex (\<lambda>c. c \<in> {CHR '' '', CHR '';'', CHR '':''}) w" unfolding list_ex_iff using each by blast
  then show ?thesis unfolding extractSwitchName_def no_match by (simp only: option.case if_False)
qed

lemma extractNodeName_word: "fabric_name w \<Longrightarrow> extractNodeName (w @ '' mlx5_0'') = w"
proof -
  assume w: "fabric_name w"
  then have "takeWhile (\<lambda>c. \<not> re_ws c) (w @ '' mlx5_0'') = w" "dropWhile (\<lambda>c. \<not> re_ws c) (w @ '' mlx5_0'') = '' mlx5_0''"
    by (simp_all add: fabric_name_def re_ws_def)
  then show ?thesis
    using w by (simp add: extractNodeName_def match_node_name_def many1_def fabric_name_def fabric_word_def re_ws_def)
qed

text \<open>What the lines of a switch and of an adapter do to the state.\<close>

lemma fold_conn_lines:
  assumes "\<forall>(cid, name) \<in> set cs. fabric_word cid \<and> fabric_word name"
  shows "fold ib_line (map conn_line cs) (switches, hca, Some isw) =
    (switches, hca, Some (isw\<lparr>ib_Conn := fold (\<lambda>(k, v). mput k v) cs (ib_Conn isw)\<rparr>))"
  using assms
proof (induction cs arbitrary: isw)
  case (Cons c cs)
  then have "match_conn (conn_line c) = Some c" by (intro match_conn_line) auto
  then have "ib_line (conn_line c) (switches, hca, Some isw) =
      (switches, hca, Some (isw\<lparr>ib_Conn := mput (fst c) (snd c) (ib_Conn isw)\<rparr>))"
    by (cases c) (simp add: ib_line_def match_other line_starts)
  then show ?case using Cons by (cases c) simp
qed simp

lemma fold_mput_new:
  "distinct (mkeys (m @ cs)) \<Longrightarrow> fold (\<lambda>(k, v). mput k v) cs m = m @ cs"
proof (induction cs arbitrary: m)
  case (Cons c cs)
  then have "mput (fst c) (snd c) m = m @ [c]" by (simp add: update_append_new)
  then show ?case using Cons by (cases c) simp
qed simp

lemma fold_switch_lines:
  assumes "switch_ok e" and "fst e \<notin> set (mkeys switches)"
  shows "fold ib_line (switch_lines e) (switches, hca, entry) = (switches @ [e], hca, None)"
proof -
  obtain sid isw where e: "e = (sid, isw)" by (cases e)
  let ?new = "\<lparr>ib_ID = sid, ib_Name = ib_Name isw, ib_Conn = [], ib_Nodes = []\<rparr>"
  have "ib_line (entry_line ''Switch'' sid (ib_Name isw)) (switches, hca, entry) = (switches, hca, Some ?new)"
    using assms(1) match_entry_line [of sid "ib_Name isw" "''Switch''"]
    by (simp add: ib_line_def line_starts match_other extractSwitchName_word switch_ok_def fabric_name_def e)
  moreover have "fold (\<lambda>(k, v). mput k v) (ib_Conn isw) [] = ib_Conn isw"
    using assms(1) fold_mput_new [of "[]" "ib_Conn isw"] by (simp add: switch_ok_def e)
  moreover have "ib_line [] (switches, hca, Some isw) = (switches @ [e], hca, None)"
    using assms by (simp add: ib_line_def switch_ok_def e update_append_new)
  moreover have "?new\<lparr>ib_Conn := ib_Conn isw\<rparr> = isw"
    using assms(1) by (cases isw) (simp add: switch_ok_def e)
  ultimately show ?thesis
    using assms(1) fold_conn_lines [of "ib_Conn isw" switches hca ?new]
    by (simp add: switch_lines_def switch_ok_def e del: ib_switch.update_convs)
qed

lemma fold_fabric_lines:
  assumes "\<forall>e \<in> set switches. switch_ok e" and "distinct (mkeys switches)"
    and "\<forall>(hid, node) \<in> set hca. fabric_word hid \<and> fabric_name node" and "distinct (mkeys hca)"
  shows "fold ib_line (fabric_lines switches hca) ([], [], None) = (switches, hca, None)"
proof -
  have ca: "fold ib_line (map ca_line cs) (sws, h, None) = (sws, h @ cs, None)"
    if "\<forall>(hid, node) \<in> set cs. fabric_word hid \<and> fabric_name node" "distinct (mkeys (h @ cs))" for cs h sws
    using that
  proof (induction cs arbitrary: h)
    case (Cons c cs)
    have ok: "fabric_word (fst c)" "fabric_name (snd c)" using Cons.prems(1) by auto
    then have "fabric_word (snd c @ '' mlx5_0'')" "length (snd c) \<noteq> 0"
      by (auto simp: fabric_name_def fabric_word_def quote_mark_def)
    then have "ib_line (ca_line c) (sws, h, None) = (sws, h @ [c], None)"
      using ok Cons.prems(2) match_entry_line [of "fst c" "snd c @ '' mlx5_0''" "''Ca''"]
      by (simp add: ib_line_def ca_line_def line_starts extractNodeName_word update_append_new)
    then show ?case using Cons.IH [of "h @ [c]"] Cons.prems by simp
  qed simp
  have "fold ib_line (concat (map switch_lines es)) (sws, h, None) = (sws @ es, h, None)"
    if "\<forall>e \<in> set es. switch_ok e" "distinct (mkeys (sws @ es))" for es sws h
    using that
  proof (induction es arbitrary: sws)
    case (Cons e es)
    then have "fold ib_line (switch_lines e) (sws, h, None) = (sws @ [e], h, None)"
      by (intro fold_switch_lines) auto
    then show ?case using Cons.IH [of "sws @ [e]"] Cons.prems by simp
  qed simp
  from this [OF assms(1), of "[]"] ca [OF assms(3), of "[]"] show ?thesis
    using assms(2,4) by (simp add: fabric_lines_def)
qed

lemma line_ok_entry:
  assumes "fabric_word eid" and "fabric_word name" and "CHR 0x0A \<notin> set kw" and "length kw < 1000"
  shows "line_ok (entry_line kw eid name)"
  using assms by (simp add: line_ok_def entry_line_def fabric_word_def quot_def quote_mark_def drop_cr_def max_token_def)

lemma fabric_lines_ok:
  assumes "\<forall>e \<in> set switches. switch_ok e" and "\<forall>(hid, node) \<in> set hca. fabric_word hid \<and> fabric_name node"
  shows "\<forall>l \<in> set (fabric_lines switches hca). line_ok l"
proof -
  have "line_ok (conn_line c)" if "fabric_word (fst c)" "fabric_word (snd c)" for c
    using that by (simp add: line_ok_def conn_line_def fabric_word_def quot_def quote_mark_def drop_cr_def max_token_def)
  moreover have "line_ok []" by (simp add: line_ok_def drop_cr_def max_token_def)
  moreover have "fabric_word (node @ '' mlx5_0'')" if "fabric_name node" for node
    using that by (auto simp: fabric_name_def fabric_word_def quote_mark_def)
  ultimately show ?thesis
    using assms by (fastforce simp: fabric_lines_def switch_lines_def ca_line_def switch_ok_def fabric_name_def intro!: line_ok_entry)
qed

section \<open>Properties\<close>

text \<open>
  C28. Parsing is a round trip: a printed fabric, whose switch entries each end with an empty line, is read
  back as it was, every switch with its connections and every adapter with its node name.
\<close>

theorem ParseIbnetdiscoverFile_roundtrip:
  assumes "\<forall>e \<in> set switches. switch_ok e" and "distinct (mkeys switches)"
    and "\<forall>(hid, node) \<in> set hca. fabric_word hid \<and> fabric_name node" and "distinct (mkeys hca)"
  shows "ParseIbnetdiscoverFile (text_of (fabric_lines switches hca)) = Inr (switches, hca)"
  using fold_fabric_lines [OF assms] scan_text_of [OF fabric_lines_ok [OF assms(1,3)]]
  by (simp add: ParseIbnetdiscoverFile_def)

definition sample_switches :: "(string, ib_switch) gomap" where
  "sample_switches =
     map (\<lambda>(sid, name, conns). (sid, \<lparr>ib_ID = sid, ib_Name = name, ib_Conn = conns, ib_Nodes = []\<rparr>))
       [(''S-1'', ''sw1'', [(''H-1'', ''n1 mlx''), (''S-3'', ''sw3'')]),
        (''S-2'', ''sw2'', [(''H-2'', ''n2 mlx''), (''S-3'', ''sw3'')]),
        (''S-3'', ''sw3'', [(''S-1'', ''sw1''), (''S-2'', ''sw2'')])]"

definition sample_hca :: "(string, string) gomap" where
  "sample_hca = [(''H-1'', ''n1''), (''H-2'', ''n2'')]"

lemma sample_ok:
  "\<forall>e \<in> set sample_switches. switch_ok e" "distinct (mkeys sample_switches)"
  "\<forall>(hid, node) \<in> set sample_hca. fabric_word hid \<and> fabric_name node" "distinct (mkeys sample_hca)"
  by (simp_all add: sample_switches_def sample_hca_def switch_ok_def fabric_name_def fabric_word_def quote_mark_def
      re_ws_def not_sep_def)

theorem ParseIbnetdiscoverFile_roundtrip_witness:
  "ParseIbnetdiscoverFile (text_of (fabric_lines sample_switches sample_hca)) = Inr (sample_switches, sample_hca)"
  by (rule ParseIbnetdiscoverFile_roundtrip) (rule sample_ok)+

text \<open>
  C27. From the text of \<open>ibnetdiscover\<close> to the merged fabric: when the text parses, no compute node has
  the ID of a switch and at least one switch is above a node of the cluster, \<open>GenerateTopologyConfig\<close>
  returns; each root of the tree has a representative among the returned switches with the same compute nodes,
  each returned switch is one of the roots by ID and compute nodes, and no two have the same children.
\<close>

theorem ib_GenerateTopologyConfig_merges:
  assumes "ParseIbnetdiscoverFile data = Inr (switches, hca)" and "nodes_apart switches hca"
    and "buildTree switches hca (GetNodeNameMap instances) \<noteq> []"
  shows "\<exists>top. ib_GenerateTopologyConfig data instances = Inr (Some (top, hca)) \<and>
    distinct (map (\<lambda>r. mkeys (Vertices r)) top) \<and>
    (\<forall>v \<in> set (mvals (buildTree switches hca (GetNodeNameMap instances))). \<exists>r \<in> set top. set (leaves r) = set (leaves v)) \<and>
    (\<forall>r \<in> set top. \<exists>v \<in> set (mvals (buildTree switches hca (GetNodeNameMap instances))).
       ID r = ID v \<and> set (leaves r) = set (leaves v))"
proof -
  define vs where "vs = mvals (buildTree switches hca (GetNodeNameMap instances))"
  obtain n where n: "\<forall>v \<in> set vs. level (Suc n) v" "consistent (\<Union>v \<in> set vs. set (subs v))"
    using buildTree_layered [OF parse_conns_ok [OF assms(1)] assms(2), of "GetNodeNameMap instances"]
    unfolding vs_def by (elim exE conjE)
  have nonempty: "vs \<noteq> []" using assms(3) by (simp add: vs_def)
  obtain m m' where m: "NewMerger vs = Some m" "Merge m = Some m'" "merged_layer vs (TopTier m')"
    using Merge_layered_top [OF nonempty n] by (elim exE conjE)
  have "ib_GenerateTopologyConfig data instances = Inr (Some (TopTier m', hca))"
    using m(1,2) by (simp add: ib_GenerateTopologyConfig_def assms(1) Let_def vs_def)
  then show ?thesis using m(3) unfolding merged_layer_def vs_def by (intro exI [of _ "TopTier m'"] conjI) blast+
qed

definition sample_cluster :: "compute_instances list" where
  "sample_cluster = [\<lparr>Region = ''r'', Instances = [(''i1'', ''n1''), (''i2'', ''n2'')]\<rparr>]"

lemma sample_tree:
  "buildTree sample_switches sample_hca (GetNodeNameMap sample_cluster) =
    [(''S-3'', Vertex [] ''S-3'' [(''S-1'', Vertex [] ''S-1'' [(''n1'', leaf ''n1'' ''n1'')] []),
                                 (''S-2'', Vertex [] ''S-2'' [(''n2'', leaf ''n2'' ''n2'')] [])] [])]"
  by code_simp

theorem ib_GenerateTopologyConfig_merges_witness:
  "\<exists>top. ib_GenerateTopologyConfig (text_of (fabric_lines sample_switches sample_hca)) sample_cluster =
     Inr (Some (top, sample_hca)) \<and>
     (\<exists>r \<in> set top. ID r = ''S-3'' \<and> set (leaves r) = {leaf ''n1'' ''n1'', leaf ''n2'' ''n2''})"
proof -
  have "ParseIbnetdiscoverFile (text_of (fabric_lines sample_switches sample_hca)) = Inr (sample_switches, sample_hca)"
    using fold_fabric_lines [OF sample_ok] scan_text_of [OF fabric_lines_ok [OF sample_ok(1,3)]]
    by (simp add: ParseIbnetdiscoverFile_def)
  moreover have "nodes_apart sample_switches sample_hca"
    by (simp add: nodes_apart_def sample_switches_def sample_hca_def)
  moreover have "buildTree sample_switches sample_hca (GetNodeNameMap sample_cluster) \<noteq> []" by (simp add: sample_tree)
  ultimately show ?thesis
    using ib_GenerateTopologyConfig_merges [of "text_of (fabric_lines sample_switches sample_hca)" sample_switches sample_hca sample_cluster]
    unfolding sample_tree by fastforce
qed

text \<open>
  Two corners of the code: without an empty line after it the last switch is lost, and a leaf switch
  that no switch of the level above is linked to is not among the roots.
\<close>

lemma ParseIbnetdiscoverFile_last_entry:
  assumes "fabric_word sid" and "fabric_name name"
  shows "ParseIbnetdiscoverFile (text_of [entry_line ''Switch'' sid name]) = Inr ([], [])"
proof -
  have "fabric_word name" using assms(2) by (simp add: fabric_name_def)
  then have "line_ok (entry_line ''Switch'' sid name)" using assms(1) by (intro line_ok_entry) simp_all
  then show ?thesis
    using scan_text_of [of "[entry_line ''Switch'' sid name]"] match_entry_line [OF assms(1) \<open>fabric_word name\<close>]
    by (simp add: ParseIbnetdiscoverFile_def ib_line_def line_starts match_other)
qed

definition sample_split :: "(string, ib_switch) gomap" where
  "sample_split =
     [(''S-1'', \<lparr>ib_ID = ''S-1'', ib_Name = ''sw1'', ib_Conn = [(''H-1'', ''n1 mlx''), (''S-3'', ''sw3'')], ib_Nodes = []\<rparr>),
      (''S-2'', \<lparr>ib_ID = ''S-2'', ib_Name = ''sw2'', ib_Conn = [(''H-2'', ''n2 mlx'')], ib_Nodes = []\<rparr>),
      (''S-3'', \<lparr>ib_ID = ''S-3'', ib_Name = ''sw3'', ib_Conn = [(''S-1'', ''sw1'')], ib_Nodes = []\<rparr>)]"

lemma buildTree_drops_leaf:
  "mkeys (buildTree sample_split sample_hca (GetNodeNameMap sample_cluster)) = [''S-3''] \<and>
   ''n2'' \<in> set (mkeys (GetNodeNameMap sample_cluster)) \<and>
   leaf ''n2'' ''n2'' \<notin> set (concat (map leaves (mvals (buildTree sample_split sample_hca (GetNodeNameMap sample_cluster)))))"
  by code_simp

end
