(* ===== verification/Decode.thy ===== *)
theory Decode
  imports Prelude
begin

text \<open>
  \<open>internal/config/decode.go\<close>: decoding of configuration values. The libraries that walk the structure
  (\<open>mapstructure\<close>) and validate it are arguments of \<open>Decode\<close>; the hook that converts texts to
  the type of a field is modelled in full. Parsing of floating-point numbers, of times and of durations with
  units are arguments; \<open>ParseInt\<close>, \<open>ParseUint\<close> and \<open>ParseBool\<close> of \<open>strconv\<close> are
  written out, with the value they return beside an error.
\<close>

section \<open>Numbers of strconv\<close>

definition ParseUint :: "nat \<Rightarrow> string \<Rightarrow> nat \<times> bool" where
  "ParseUint bits s =
     (if s = [] \<or> \<not> list_all is_digit s then (0, False)
      else if digits_val s < 2 ^ bits then (digits_val s, True) else (2 ^ bits - 1, False))"

definition ParseInt :: "nat \<Rightarrow> string \<Rightarrow> int \<times> bool" where
  "ParseInt bits s =
     (let (neg, ds) =
        (case s of [] \<Rightarrow> (False, [])
         | c # t \<Rightarrow> if c = CHR ''-'' then (True, t) else if c = CHR ''+'' then (False, t) else (False, s))
      in if ds = [] \<or> \<not> list_all is_digit ds then (0, False)
         else let v = int (digits_val ds); cutoff = 2 ^ (bits - 1)
              in if neg then (if v > cutoff then (- cutoff, False) else (- v, True))
                 else (if v \<ge> cutoff then (cutoff - 1, False) else (v, True)))"

definition ParseBool :: "string \<Rightarrow> bool \<times> bool" where
  "ParseBool s =
     (if s \<in> {''1'', ''t'', ''T'', ''TRUE'', ''true'', ''True''} then (True, True)
      else if s \<in> {''0'', ''f'', ''F'', ''FALSE'', ''false'', ''False''} then (False, True)
      else (False, False))"

text \<open>\<open>Atoi\<close> is \<open>ParseInt\<close> at 64 bits.\<close>

lemma ParseInt_64: "ParseInt 64 s = strconv_atoi s"
proof -
  have "(9223372036854775808 \<le> i) = (9223372036854775807 < i)" for i :: int by arith
  then show ?thesis
    by (auto simp: ParseInt_def strconv_atoi_def Let_def max_int64_def min_int64_def split: list.split)
qed

section \<open>Types and values\<close>

datatype kind =
  KUint | KUint64 | KUint32 | KUint16 | KUint8 | KInt | KInt64 | KInt32 | KInt16 | KInt8 |
  KFloat32 | KFloat64 | KBool | KString | KPtr | KOther

text \<open>
  A Go value as far as the hook distinguishes it: texts, pointers (nil or not), numbers of a width, and values of
  other types, \<open>'o\<close>; times are \<open>'t\<close> and floats \<open>'f\<close>.
\<close>

datatype ('o, 't, 'f) gvalue =
    GString string
  | GUint nat
  | GInt int
  | GFloat 'f
  | GBool bool
  | GDuration int
  | GTime 't
  | GPtr "('o, 't, 'f) gvalue option"
  | GNil
  | GOther 'o

text \<open>
  The target type of a field: its kind and name, and what a fresh value of it is after its own decoders ran on a
  text, if it implements them, with their error.
\<close>

record ('o, 't, 'f) gtype =
  ty_kind :: kind
  ty_name :: string
  ty_is_duration :: bool
  ty_is_time :: bool
  ty_zero :: "('o, 't, 'f) gvalue"
  ty_StringDecoder :: "(string \<Rightarrow> string option \<times> ('o, 't, 'f) gvalue) option"
  ty_FromStringer :: "(string \<Rightarrow> string option \<times> ('o, 't, 'f) gvalue) option"

type_synonym ('o, 't, 'f) decoded = "('o, 't, 'f) gvalue \<times> string option"

definition invalidError :: "bool \<Rightarrow> string \<Rightarrow> string \<Rightarrow> string option" where
  "invalidError ok msg val = (if ok then None else Some (''invalid '' @ msg @ '' '' @ quote val))"

definition int_kinds :: "(kind \<times> nat \<times> string) list" where
  "int_kinds = [(KInt, 64, ''int''), (KInt64, 64, ''int64''), (KInt32, 32, ''int32''), (KInt16, 16, ''int16''), (KInt8, 8, ''int8'')]"

definition uint_kinds :: "(kind \<times> nat \<times> string) list" where
  "uint_kinds =
     [(KUint, 64, ''uint''), (KUint64, 64, ''uint64''), (KUint32, 32, ''uint32''), (KUint16, 16, ''uint16''), (KUint8, 8, ''uint8'')]"

definition decodeOther ::
  "(nat \<Rightarrow> string \<Rightarrow> 'f \<times> bool) \<Rightarrow> kind \<Rightarrow> ('o, 't, 'f) gvalue \<Rightarrow> string \<Rightarrow> ('o, 't, 'f) decoded" where
  "decodeOther parse_float k data dataString =
     (case map_of uint_kinds k of
        Some (bits, name) \<Rightarrow>
          (case ParseUint bits dataString of (val, ok) \<Rightarrow> (GUint val, invalidError ok name dataString))
      | None \<Rightarrow>
          (case map_of int_kinds k of
             Some (bits, name) \<Rightarrow>
               (case ParseInt bits dataString of (val, ok) \<Rightarrow> (GInt val, invalidError ok name dataString))
           | None \<Rightarrow>
               (case k of
                  KFloat32 \<Rightarrow> (case parse_float 32 dataString of (val, ok) \<Rightarrow> (GFloat val, invalidError ok ''float32'' dataString))
                | KFloat64 \<Rightarrow> (case parse_float 64 dataString of (val, ok) \<Rightarrow> (GFloat val, invalidError ok ''float64'' dataString))
                | KBool \<Rightarrow> (case ParseBool dataString of (val, ok) \<Rightarrow> (GBool val, invalidError ok ''bool'' dataString))
                | _ \<Rightarrow> (data, None))))"

definition DecodeDuration :: "(string \<Rightarrow> int \<times> bool) \<Rightarrow> string \<Rightarrow> int \<times> string option" where
  "DecodeDuration parse_duration dataString =
     (case strconv_atoi dataString of
        (val, True) \<Rightarrow> (wrap64 (val * 1000000), None)
      | (_, False) \<Rightarrow> (case parse_duration dataString of (d, ok) \<Rightarrow> (d, invalidError ok ''duration'' dataString)))"

text \<open>Parsing a time in a layout gives the time or no time.\<close>

definition DecodeTime :: "(string \<Rightarrow> string \<Rightarrow> 't \<times> bool) \<Rightarrow> string \<Rightarrow> 't \<times> string option" where
  "DecodeTime parse_time dataString =
     (case parse_time ''2006-01-02T15:04:05.999999999Z07:00'' dataString of
        (t, True) \<Rightarrow> (t, None)
      | (_, False) \<Rightarrow>
          (case parse_time ''2006-01-02T15:04:05Z07:00'' dataString of (t, ok) \<Rightarrow> (t, invalidError ok ''time'' dataString)))"

section \<open>The hook\<close>

text \<open>
  A type with decoders of its own: the decoder that runs is \<open>DecodeString\<close> if there is one, but what is
  returned is the value made for \<open>FromString\<close> if there is one.
\<close>

definition custom_decode ::
  "('o, 't, 'f) gtype \<Rightarrow> string \<Rightarrow> ('o, 't, 'f) decoded option" where
  "custom_decode t dataString =
     (case (ty_StringDecoder t, ty_FromStringer t) of
        (None, None) \<Rightarrow> None
      | (decoder, from) \<Rightarrow>
          if dataString = [] then Some (GNil, None)
          else
            let (err, result) =
                  (case (decoder, from) of
                     (Some d, None) \<Rightarrow> d dataString
                   | (Some d, Some _) \<Rightarrow> (fst (d dataString), ty_zero t)
                   | (None, Some f) \<Rightarrow> f dataString
                   | (None, None) \<Rightarrow> (None, GNil))
            in Some (case err of
                 Some msg \<Rightarrow> (GNil, Some (''invalid '' @ ty_name t @ '' '' @ quote dataString @ '': '' @ msg))
               | None \<Rightarrow> (result, None)))"

definition is_text :: "('o, 't, 'f) gvalue \<Rightarrow> bool" where
  "is_text v = (case v of GString _ \<Rightarrow> True | _ \<Rightarrow> False)"

text \<open>The result is missing when the code panics, on a nil pointer.\<close>

definition decodeHook ::
  "(('o, 't, 'f) gvalue \<Rightarrow> string) \<Rightarrow> (nat \<Rightarrow> string \<Rightarrow> 'f \<times> bool) \<Rightarrow> (string \<Rightarrow> int \<times> bool) \<Rightarrow> (string \<Rightarrow> string \<Rightarrow> 't \<times> bool) \<Rightarrow>
   ('o, 't, 'f) gtype \<Rightarrow> ('o, 't, 'f) gvalue \<Rightarrow> ('o, 't, 'f) decoded option" where
  "decodeHook sprint parse_float parse_duration parse_time t data =
     (if ty_kind t = KString \<and> \<not> is_text data then Some (GString (sprint data), None)
      else
        case (case data of GPtr p \<Rightarrow> p | _ \<Rightarrow> Some data) of
          None \<Rightarrow> None
        | Some data \<Rightarrow>
            (case data of
               GString dataString \<Rightarrow>
                 (case custom_decode t dataString of
                    Some r \<Rightarrow> Some r
                  | None \<Rightarrow>
                      Some (if ty_is_duration t
                            then (case DecodeDuration parse_duration dataString of (d, err) \<Rightarrow> (GDuration d, err))
                            else if ty_is_time t
                            then (case DecodeTime parse_time dataString of (tm, err) \<Rightarrow> (GTime tm, err))
                            else decodeOther parse_float (ty_kind t) data dataString))
             | _ \<Rightarrow> Some (data, None)))"

text \<open>\<open>Decode\<close>: the decoder of the library with this hook, then the validator.\<close>

definition Decode :: "'d res \<Rightarrow> ('d \<Rightarrow> 'i \<Rightarrow> 'o res) \<Rightarrow> ('o \<Rightarrow> string option) \<Rightarrow> 'i \<Rightarrow> 'o res" where
  "Decode new_decoder decode validate input =
     (case new_decoder of
        Inl err \<Rightarrow> Inl (''could not create decoder: '' @ err)
      | Inr decoder \<Rightarrow>
          (case decode decoder input of
             Inl err \<Rightarrow> Inl (''could not decode configuration: '' @ err)
           | Inr output \<Rightarrow>
               (case validate output of
                  Some err \<Rightarrow> Inl (''invalidation configuration: '' @ err)
                | None \<Rightarrow> Inr output)))"

section \<open>Lemmas\<close>

text \<open>What a text of an optional sign and decimal digits denotes.\<close>

definition numeral_of :: "string \<Rightarrow> int option" where
  "numeral_of s =
     (let (neg, ds) = (case s of [] \<Rightarrow> (False, []) | c # t \<Rightarrow>
            if c = CHR ''-'' then (True, t) else if c = CHR ''+'' then (False, t) else (False, s))
      in if ds \<noteq> [] \<and> list_all is_digit ds then Some (if neg then - int (digits_val ds) else int (digits_val ds)) else None)"

text \<open>The numeral of a text: whether it is negative, and its digits.\<close>

lemma ParseInt_cases:
  obtains (bad) "ParseInt bits s = (0, False)" "numeral_of s = None"
  | (num) neg d where "0 \<le> d" "numeral_of s = Some (if neg then - d else d)"
      "ParseInt bits s =
        (if neg then (if d > 2 ^ (bits - 1) then (- (2 ^ (bits - 1)), False) else (- d, True))
         else (if d \<ge> 2 ^ (bits - 1) then (2 ^ (bits - 1) - 1, False) else (d, True)))"
proof -
  obtain neg ds where ds: "(case s of [] \<Rightarrow> (False, []) | c # t \<Rightarrow>
      if c = CHR ''-'' then (True, t) else if c = CHR ''+'' then (False, t) else (False, s)) = (neg, ds)"
    by (rule prod.exhaust)
  show ?thesis
  proof (cases "ds \<noteq> [] \<and> list_all is_digit ds")
    case True
    show ?thesis
      by (rule num [of "int (digits_val ds)" neg]) (use True in \<open>simp_all add: numeral_of_def ParseInt_def ds Let_def\<close>)
  next
    case False
    show ?thesis by (rule bad) (use False in \<open>auto simp: numeral_of_def ParseInt_def ds Let_def\<close>)
  qed
qed

lemma ParseInt_range:
  assumes "0 < bits"
  shows "- (2 ^ (bits - 1)) \<le> fst (ParseInt bits s) \<and> fst (ParseInt bits s) < 2 ^ (bits - 1)"
proof (cases rule: ParseInt_cases [of bits s])
  case (num neg d)
  have "(0 :: int) < 2 ^ (bits - 1)" by simp
  then have "- (2 ^ (bits - 1)) \<le> - d \<and> - d < 2 ^ (bits - 1)" if "d \<le> 2 ^ (bits - 1)" using num(1) that by linarith
  then show ?thesis using num(1) by (auto simp: num(3))
qed simp

lemma ParseInt_numeral:
  "snd (ParseInt bits s) \<longleftrightarrow> (\<exists>i. numeral_of s = Some i \<and> - (2 ^ (bits - 1)) \<le> i \<and> i < 2 ^ (bits - 1) \<and> fst (ParseInt bits s) = i)"
proof (cases rule: ParseInt_cases [of bits s])
  case (num neg d)
  have c: "(0 :: int) < 2 ^ (bits - 1)" by simp
  show ?thesis
  proof (cases neg)
    case True
    have "- d < 2 ^ (bits - 1)" using c num(1) by linarith
    then show ?thesis using True num by auto
  next
    case False
    have "- (2 ^ (bits - 1)) \<le> d" using c num(1) by linarith
    then show ?thesis using False num by auto
  qed
qed simp

lemma ParseUint_range: "fst (ParseUint bits s) < 2 ^ bits"
  by (simp add: ParseUint_def)

lemma ParseInt_show:
  assumes "- (2 ^ (bits - 1)) \<le> i" and "i < 2 ^ (bits - 1)"
  shows "ParseInt bits (show_int i) = (i, True)"
proof (cases "i < 0")
  case True
  then show ?thesis using assms(1) by (simp add: show_int_def ParseInt_def Let_def show_nat_all_digits)
next
  case False
  obtain c t where s: "show_nat (nat i) = c # t" by (cases "show_nat (nat i)") auto
  then have "is_digit c" using show_nat_all_digits [of "nat i"] by simp
  then have "c \<noteq> CHR ''-''" "c \<noteq> CHR ''+''" by auto
  then show ?thesis
    using False assms(2) s show_nat_all_digits [of "nat i"] digits_val_show [of "nat i"]
    by (simp add: show_int_def ParseInt_def Let_def)
qed

lemma ParseUint_show: "n < 2 ^ bits \<Longrightarrow> ParseUint bits (show_nat n) = (n, True)"
  by (simp add: ParseUint_def show_nat_all_digits)

section \<open>Properties\<close>

text \<open>
  C30. A field of one of the signed integer types \<open>int\<close>, \<open>int64\<close>, \<open>int32\<close>, \<open>int16\<close> and \<open>int8\<close>, of 64, 64, 32, 16 and 8 bits,
  that is neither \<open>time.Duration\<close> nor \<open>time.Time\<close> and has no decoder of its own, gets a value of that width, whatever the
  text: the hook does not panic, it reports no error exactly when the text is a decimal numeral whose value fits the
  width, and then the field is that value; the error names the type and the text.
\<close>

theorem decodeHook_int:
  assumes "(ty_kind t, bits, name) \<in>
      {(KInt, 64, ''int''), (KInt64, 64, ''int64''), (KInt32, 32, ''int32''), (KInt16, 16, ''int16''), (KInt8, 8, ''int8'')}"
    and "ty_StringDecoder t = None" and "ty_FromStringer t = None"
    and "\<not> ty_is_duration t" and "\<not> ty_is_time t"
  shows "\<exists>v err. decodeHook sprint parse_float parse_duration parse_time t (GString s) = Some (GInt v, err) \<and>
    - (2 ^ (bits - 1)) \<le> v \<and> v < 2 ^ (bits - 1) \<and>
    (err = None \<longleftrightarrow> (\<exists>i. numeral_of s = Some i \<and> - (2 ^ (bits - 1)) \<le> i \<and> i < 2 ^ (bits - 1) \<and> v = i)) \<and>
    (err \<noteq> None \<longrightarrow> err = Some (''invalid '' @ name @ '' '' @ quote s))"
proof -
  obtain v ok where p: "ParseInt bits s = (v, ok)" by (cases "ParseInt bits s")
  have k: "map_of uint_kinds (ty_kind t) = None" "map_of int_kinds (ty_kind t) = Some (bits, name)" "0 < bits"
    using assms(1) by (auto simp: int_kinds_def uint_kinds_def)
  have "decodeHook sprint parse_float parse_duration parse_time t (GString s) = Some (GInt v, invalidError ok name s)"
    using assms(2-5) k p by (simp add: decodeHook_def is_text_def custom_decode_def decodeOther_def)
  then show ?thesis
    using ParseInt_range [of bits s] ParseInt_numeral [of bits s] k p by (auto simp: invalidError_def)
qed

definition sample_int8 :: "(unit, unit, unit) gtype" where
  "sample_int8 = \<lparr>ty_kind = KInt8, ty_name = ''int8'', ty_is_duration = False, ty_is_time = False, ty_zero = GInt 0,
     ty_StringDecoder = None, ty_FromStringer = None\<rparr>"

theorem decodeHook_int_witness:
  "\<exists>v err. decodeHook (\<lambda>_. []) (\<lambda>_ _. ((), False)) (\<lambda>_. (0, False)) (\<lambda>_ _. ((), False)) sample_int8 (GString ''-129'') =
     Some (GInt v, err) \<and> -128 \<le> v \<and> v < 128 \<and> err = Some ''invalid int8 \"-129\"''"
proof -
  have "(ty_kind sample_int8, 8, ''int8'') \<in>
      {(KInt, 64, ''int''), (KInt64, 64, ''int64''), (KInt32, 32, ''int32''), (KInt16, 16, ''int16''), (KInt8, 8, ''int8'')}"
    "ty_StringDecoder sample_int8 = None" "ty_FromStringer sample_int8 = None" "\<not> ty_is_duration sample_int8" "\<not> ty_is_time sample_int8"
    by (simp_all add: sample_int8_def)
  from decodeHook_int [OF this, of "\<lambda>_. []" "\<lambda>_ _. ((), False)" "\<lambda>_. (0, False)" "\<lambda>_ _. ((), False)" "''-129''"] obtain v err where
    v: "decodeHook (\<lambda>_. []) (\<lambda>_ _. ((), False)) (\<lambda>_. (0, False)) (\<lambda>_ _. ((), False)) sample_int8 (GString ''-129'') = Some (GInt v, err)"
    "- (2 ^ 7) \<le> v" "v < 2 ^ 7"
    "err = None \<longleftrightarrow> (\<exists>i. numeral_of ''-129'' = Some i \<and> - (2 ^ 7) \<le> i \<and> i < 2 ^ 7 \<and> v = i)"
    "err \<noteq> None \<longrightarrow> err = Some (''invalid '' @ ''int8'' @ '' '' @ quote ''-129'')" by auto
  have "numeral_of ''-129'' = Some (-129)"
    by (simp add: numeral_of_def is_digit_def digits_val_def digit_val_def)
  moreover have "''invalid '' @ ''int8'' @ '' '' @ quote ''-129'' = ''invalid int8 \"-129\"''" by code_simp
  ultimately show ?thesis using v by auto
qed

text \<open>
  A number without a unit is a duration in milliseconds; the product with a million nanoseconds wraps
  around without an error, and is right exactly up to 9223372036854 milliseconds.
\<close>

theorem DecodeDuration_millis:
  assumes "min_int64 \<le> v" and "v \<le> max_int64"
  shows "DecodeDuration parse_duration (show_int v) = (wrap64 (v * 1000000), None) \<and>
    (wrap64 (v * 1000000) = v * 1000000 \<longleftrightarrow> \<bar>v\<bar> \<le> 9223372036854)"
proof -
  have "wrap64 (v * 1000000) = v * 1000000 \<longleftrightarrow> min_int64 \<le> v * 1000000 \<and> v * 1000000 \<le> max_int64"
    using wrap64_id wrap64_range [of "v * 1000000"] by metis
  also have "\<dots> \<longleftrightarrow> \<bar>v\<bar> \<le> 9223372036854" by (auto simp: min_int64_def max_int64_def)
  finally show ?thesis using strconv_atoi_show [OF assms] by (simp add: DecodeDuration_def)
qed

theorem DecodeDuration_millis_witness:
  "DecodeDuration (\<lambda>_. (0, False)) (show_int 9223372036855) = (wrap64 9223372036855000000, None) \<and>
   wrap64 9223372036855000000 \<noteq> 9223372036855000000"
  using DecodeDuration_millis [of 9223372036855 "\<lambda>_. (0, False)"] by (simp add: min_int64_def max_int64_def)

text \<open>A type with both decoders gets the value that neither of them has decoded into.\<close>

lemma custom_decode_both:
  assumes "ty_StringDecoder t = Some d" and "ty_FromStringer t = Some f" and "s \<noteq> []" and "fst (d s) = None"
  shows "custom_decode t s = Some (ty_zero t, None)"
  using assms by (simp add: custom_decode_def)

end
