(* ===== verification/Aws.thy ===== *)
theory Aws
  imports Paging Models
begin

text \<open>
  \<open>pkg/providers/aws\<close>: the provider (\<open>provider.go\<close>, \<open>instance_topology.go\<close>), the queries
  of the instance metadata service (\<open>imds.go\<close>) and the simulation (\<open>provider_sim.go\<close>). The EC2 client
  is an argument; the simulated client is modelled with its maps of outputs and tokens as the state. Metrics and
  log messages are left out.
\<close>

section \<open>Instance topology\<close>

record aws_input =
  in_InstanceIds :: "string list"
  in_MaxResults :: "int option"
  in_NextToken :: "string option"

record aws_instance =
  ai_InstanceId :: "string option"
  ai_NetworkNodes :: "string list"
  ai_CapacityBlockId :: "string option"

record aws_output =
  ao_Instances :: "aws_instance list"
  ao_NextToken :: "string option"

record 's aws_client =
  ac_ec2 :: "aws_input \<Rightarrow> ('s, aws_output) service"
  ac_pageSize :: int

type_synonym 's aws_factory = "string \<Rightarrow> int option \<Rightarrow> 's \<Rightarrow> 's aws_client res \<times> 's"

definition wrap32 :: "int \<Rightarrow> int" where
  "wrap32 i = (i + 2 ^ 31) mod 2 ^ 32 - 2 ^ 31"

definition aws_defaultPageSize :: int where
  "aws_defaultPageSize = 100"

definition setPageSize :: "int option \<Rightarrow> int" where
  "setPageSize val = (case val of None \<Rightarrow> aws_defaultPageSize | Some v \<Rightarrow> wrap32 v)"

text \<open>An instance without an ID or with fewer than three network nodes makes the code panic.\<close>

definition aws_convert :: "aws_instance \<Rightarrow> InstanceTopology option" where
  "aws_convert inst =
     (case (ai_InstanceId inst, ai_NetworkNodes inst) of
        (Some i, n0 # n1 # n2 # _) \<Rightarrow>
          Some \<lparr>InstanceID = i, BlockID = n2, BlockName = [], SpineID = n1, SpineName = [],
                DatacenterID = n0, DatacenterName = [],
                AcceleratorID = (case ai_CapacityBlockId inst of Some c \<Rightarrow> c | None \<Rightarrow> [])\<rparr>
      | _ \<Rightarrow> None)"

definition aws_select :: "compute_instances \<Rightarrow> aws_instance \<Rightarrow> cluster option \<Rightarrow> cluster option" where
  "aws_select ci elem topo =
     (case (topo, ai_InstanceId elem) of
        (Some topo, Some i) \<Rightarrow>
          if map_of (Instances ci) i \<noteq> None then map_option (\<lambda>t. Append t topo) (aws_convert elem) else Some topo
      | _ \<Rightarrow> None)"

definition aws_next :: "aws_input \<Rightarrow> aws_output \<Rightarrow> aws_input option" where
  "aws_next input output = map_option (\<lambda>t. input\<lparr>in_NextToken := Some t\<rparr>) (ao_NextToken output)"

definition aws_request :: "'s aws_client \<Rightarrow> compute_instances \<Rightarrow> aws_input" where
  "aws_request client ci =
     (if length (Instances ci) \<le> 100
      then \<lparr>in_InstanceIds = mkeys (Instances ci), in_MaxResults = None, in_NextToken = None\<rparr>
      else \<lparr>in_InstanceIds = [], in_MaxResults = Some (ac_pageSize client), in_NextToken = None\<rparr>)"

definition aws_generateRegionInstanceTopology ::
  "'s aws_factory \<Rightarrow> int option \<Rightarrow> compute_instances \<Rightarrow> cluster \<Rightarrow> ('s, cluster) pcall" where
  "aws_generateRegionInstanceTopology factory pageSize ci topo =
     (if length (Region ci) = 0 then return_pcall (Inl (NewError StatusBadRequest ''must specify region''))
      else then_pcall (call_res StatusBadGateway ''failed to get client: '' (answered (factory (Region ci) pageSize)))
        (\<lambda>client. paged (\<lambda>input. call_res StatusBadGateway ''failed to describe instance topology: '' (ac_ec2 client input))
           (\<lambda>output topo. map_option Inr (fold (aws_select ci) (ao_Instances output) (Some topo))) aws_next (aws_request client ci) topo))"

definition aws_generateInstanceTopology ::
  "'s aws_factory \<Rightarrow> int option \<Rightarrow> compute_instances list \<Rightarrow> ('s, cluster) pcall" where
  "aws_generateInstanceTopology factory pageSize cis =
     all_regions (aws_generateRegionInstanceTopology factory pageSize) cis NewClusterTopology"

definition aws_GenerateTopologyConfig ::
  "'s aws_factory \<Rightarrow> int option \<Rightarrow> compute_instances list \<Rightarrow> ('s, vertex) pcall" where
  "aws_GenerateTopologyConfig factory pageSize instances =
     map_pcall (three_tier ''aws'' instances False) (aws_generateInstanceTopology factory pageSize instances)"

section \<open>Credentials\<close>

record Credentials =
  AccessKeyId :: string
  SecretAccessKey :: string
  Token :: string

text \<open>
  The credentials of the node's role with their expiry: the loop waits while they expire within
  \<open>tokenTimeDelay\<close>. The service, the clock and sleeping act on the state.
\<close>

definition tokenTimeDelay :: int where
  "tokenTimeDelay = 15 * 1000000000"

partial_function (option) getCredentialsFromProvider ::
  "('s \<Rightarrow> (Credentials \<times> int) res \<times> 's) \<Rightarrow> ('s \<Rightarrow> int) \<Rightarrow> (int \<Rightarrow> 's \<Rightarrow> 's) \<Rightarrow> 's \<Rightarrow> (Credentials res \<times> 's) option" where
  "getCredentialsFromProvider retrieve now sleep s =
     (case retrieve s of
        (Inl err, s) \<Rightarrow> Some (Inl err, s)
      | (Inr (creds, expires), s) \<Rightarrow>
          if now s + tokenTimeDelay > expires
          then getCredentialsFromProvider retrieve now sleep (sleep tokenTimeDelay s)
          else Some (Inr creds, s))"

declare getCredentialsFromProvider.simps [code]

definition aws_getCredentials ::
  "('s \<Rightarrow> (Credentials \<times> int) res \<times> 's) \<Rightarrow> ('s \<Rightarrow> int) \<Rightarrow> (int \<Rightarrow> 's \<Rightarrow> 's) \<Rightarrow> (string \<Rightarrow> string) \<Rightarrow> (string, string) gomap \<Rightarrow>
   ('s, Credentials) pcall" where
  "aws_getCredentials retrieve now sleep getenv creds s =
     (if length creds \<noteq> 0
      then let accessKeyID = mget0 [] creds ''accessKeyId''; secretAccessKey = mget0 [] creds ''secretAccessKey''
           in if length accessKeyID = 0
              then (Some (Inl (NewError StatusBadRequest ''credentials error: missing accessKeyId'')), s)
              else if length secretAccessKey = 0
              then (Some (Inl (NewError StatusBadRequest ''credentials error: missing secretAccessKey'')), s)
              else (Some (Inr \<lparr>AccessKeyId = accessKeyID, SecretAccessKey = secretAccessKey,
                               Token = mget0 [] creds ''token''\<rparr>), s)
      else if length (getenv ''AWS_ACCESS_KEY_ID'') \<noteq> 0 \<and> length (getenv ''AWS_SECRET_ACCESS_KEY'') \<noteq> 0
      then (Some (Inr \<lparr>AccessKeyId = getenv ''AWS_ACCESS_KEY_ID'', SecretAccessKey = getenv ''AWS_SECRET_ACCESS_KEY'',
                       Token = getenv ''AWS_SESSION_TOKEN''\<rparr>), s)
      else (case getCredentialsFromProvider retrieve now sleep s of
              None \<Rightarrow> (None, s)
            | Some (Inl err, s) \<Rightarrow> (Some (Inl (NewError StatusUnauthorized err)), s)
            | Some (Inr c, s) \<Rightarrow> (Some (Inr c), s)))"

text \<open>The client factory of the provider; loading the SDK configuration and the client itself are arguments.\<close>

definition aws_clientFactory ::
  "(string \<Rightarrow> Credentials \<Rightarrow> 's \<Rightarrow> (aws_input \<Rightarrow> ('s, aws_output) service) res \<times> 's) \<Rightarrow> Credentials \<Rightarrow> 's aws_factory" where
  "aws_clientFactory load_config creds region pageSize s =
     (case load_config region creds s of
        (Inl err, s) \<Rightarrow> (Inl (''failed to load SDK config: '' @ err), s)
      | (Inr ec2, s) \<Rightarrow> (Inr \<lparr>ac_ec2 = ec2, ac_pageSize = setPageSize pageSize\<rparr>, s))"

section \<open>Instance metadata\<close>

definition aws_IMDSURL :: string where
  "aws_IMDSURL = ''http://169.254.169.254/latest''"

definition makeHeader :: "string \<Rightarrow> string \<Rightarrow> string" where
  "makeHeader name val = name @ '': '' @ val"

definition aws_imdsCmd :: "string \<Rightarrow> string" where
  "aws_imdsCmd url =
     ''TOKEN=$(curl -s -X PUT -H '' @ quote (makeHeader ''X-aws-ec2-metadata-token-ttl-seconds'' ''60'') @ '' '' @
     aws_IMDSURL @ ''/api/token); echo $(curl -s -H '' @ quote (makeHeader ''X-aws-ec2-metadata-token'' ''$TOKEN'') @ '' '' @ url @ '')''"

definition aws_instanceToNodeMap :: "'s exec \<Rightarrow> string list \<Rightarrow> 's \<Rightarrow> (string, string) gomap res \<times> 's" where
  "aws_instanceToNodeMap exec = pdsh_map exec (aws_imdsCmd (aws_IMDSURL @ ''/meta-data/instance-id'')) False"

definition aws_getRegions :: "'s exec \<Rightarrow> string list \<Rightarrow> 's \<Rightarrow> (string, string) gomap res \<times> 's" where
  "aws_getRegions exec = pdsh_map exec (aws_imdsCmd (aws_IMDSURL @ ''/meta-data/placement/region'')) True"

definition aws_GetNodeAnnotations :: "'s http_do \<Rightarrow> 's \<Rightarrow> (string, string) gomap res \<times> 's" where
  "aws_GetNodeAnnotations send =
     then_res (wrap_err ''failed to execute token request: ''
                (HttpReq send ''PUT'' (aws_IMDSURL @ ''/api/token'') [(''X-aws-ec2-metadata-token-ttl-seconds'', ''60'')]))
       (\<lambda>token.
          let header = [(''X-aws-ec2-metadata-token'', token)]
          in then_res (wrap_err ''failed to execute instance-id IMDS request: ''
                        (HttpReq send ''GET'' (aws_IMDSURL @ ''/meta-data/instance-id'') header))
               (\<lambda>inst. then_res (wrap_err ''failed to execute region IMDS request: ''
                           (HttpReq send ''GET'' (aws_IMDSURL @ ''/meta-data/placement/region'') header))
                  (\<lambda>region s. (Inr (node_annotations inst region), s))))"

section \<open>Simulation\<close>

record aws_sim =
  sim_outputs :: "(string, aws_instance list) gomap"
  sim_nextTokens :: "(string, string) gomap"

text \<open>
  The error codes of the simulation count from the position in the constant block. A model node becomes an
  instance; without availability zone or placement group the simulation reports an error, and IDs that the model
  does not know are skipped.
\<close>

definition aws_errClientFactory :: int where "aws_errClientFactory = 5"

definition aws_errDescribeInstanceTopology :: int where "aws_errDescribeInstanceTopology = 6"

definition aws_sim_instance :: "model_node \<Rightarrow> string \<Rightarrow> aws_instance" where
  "aws_sim_instance node instanceId =
     \<lparr>ai_InstanceId = Some instanceId, ai_NetworkNodes = rev (mn_NetLayers node), ai_CapacityBlockId = Some (mn_NVLink node)\<rparr>"

fun aws_sim_page :: "Model \<Rightarrow> string list \<Rightarrow> aws_instance list res" where
  "aws_sim_page model [] = Inr []"
| "aws_sim_page model (i # ids) =
     (case map_of (mod_Nodes model) i of
        None \<Rightarrow> aws_sim_page model ids
      | Some node \<Rightarrow>
          let az = mget0 [] (mn_Metadata node) ''availability_zone''; pg = mget0 [] (mn_Metadata node) ''group''
          in if length az = 0
             then Inl (''availability zone not found for instance '' @ quote i @ '' in AWS simulation'')
             else if length pg = 0
             then Inl (''placement group not found for instance '' @ quote i @ '' in AWS simulation'')
             else map_sum (\<lambda>e. e) (\<lambda>insts. aws_sim_instance node i # insts) (aws_sim_page model ids))"

text \<open>
  All pages are computed when the first is asked for; the token of a page is the index of its first
  instance. A page size below one makes no progress.
\<close>

partial_function (option) aws_fill :: "Model \<Rightarrow> string list \<Rightarrow> int \<Rightarrow> nat \<Rightarrow> aws_sim \<Rightarrow> (unit res \<times> aws_sim) option" where
  "aws_fill model ids maxResults idx st =
     (if idx < length ids
      then (let page = take (nat maxResults) (drop idx ids)
            in case aws_sim_page model page of
                 Inl err \<Rightarrow> Some (Inl err, st)
               | Inr insts \<Rightarrow>
                   let token = show_nat idx;
                       idx' = idx + length page;
                       st = st\<lparr>sim_outputs := mput token insts (sim_outputs st)\<rparr>;
                       st = (if idx' < length ids then st\<lparr>sim_nextTokens := mput token (show_nat idx') (sim_nextTokens st)\<rparr> else st)
                   in aws_fill model ids maxResults idx' st)
      else Some (Inr (), st))"

declare aws_fill.simps [code]

definition aws_sim_output :: "string \<Rightarrow> aws_sim \<Rightarrow> aws_output" where
  "aws_sim_output token st =
     \<lparr>ao_Instances = mget0 [] (sim_outputs st) token, ao_NextToken = map_of (sim_nextTokens st) token\<rparr>"

definition aws_sim_ids :: "string list \<Rightarrow> aws_input \<Rightarrow> string list" where
  "aws_sim_ids instanceIds params = (if length (in_InstanceIds params) \<noteq> 0 then in_InstanceIds params else instanceIds)"

definition aws_sim_max :: "aws_input \<Rightarrow> int" where
  "aws_sim_max params = (case in_MaxResults params of None \<Rightarrow> 20 | Some n \<Rightarrow> n)"

definition aws_DescribeInstanceTopology ::
  "Model \<Rightarrow> string list \<Rightarrow> int \<Rightarrow> aws_input \<Rightarrow> (aws_sim, aws_output) service" where
  "aws_DescribeInstanceTopology model instanceIds apiErr params st =
     (if apiErr = aws_errDescribeInstanceTopology then (Some (Inl ErrAPIError), st)
      else
        let ids = aws_sim_ids instanceIds params
        in case in_NextToken params of
             Some token \<Rightarrow> (Some (Inr (aws_sim_output token st)), st)
           | None \<Rightarrow>
               (case aws_fill model ids (aws_sim_max params) 0 (st\<lparr>sim_outputs := [], sim_nextTokens := []\<rparr>) of
                  None \<Rightarrow> (None, st)
                | Some (Inl err, st) \<Rightarrow> (Some (Inl err), st)
                | Some (Inr _, st) \<Rightarrow>
                    (Some (Inr (aws_sim_output (if length ids = 0 then [] else show_nat 0) st)), st)))"

definition aws_sim_factory :: "Model \<Rightarrow> string list \<Rightarrow> int \<Rightarrow> aws_sim aws_factory" where
  "aws_sim_factory model instanceIds apiErr region pageSize s =
     (if apiErr = aws_errClientFactory then (Inl ErrAPIError, s)
      else (Inr \<lparr>ac_ec2 = aws_DescribeInstanceTopology model instanceIds apiErr, ac_pageSize = setPageSize pageSize\<rparr>, s))"

text \<open>The loader of the simulation: the client factory, and the instances of the model.\<close>

definition aws_LoaderSim ::
  "('v \<Rightarrow> (string \<times> int) res) \<Rightarrow> (string \<Rightarrow> Model res) \<Rightarrow> 'v \<Rightarrow> (aws_sim aws_factory \<times> compute_instances list) http_res" where
  "aws_LoaderSim decode load params =
     bind_sum (load_simulation decode load params)
       (\<lambda>(model, apiErr). Inr (aws_sim_factory model (node_names model) apiErr, mod_Instances model))"

definition aws_sim_GetComputeInstances :: "Model \<Rightarrow> int \<Rightarrow> (aws_sim, compute_instances list) pcall" where
  "aws_sim_GetComputeInstances model apiErr = sim_instances (aws_sim_factory model (node_names model) apiErr [] None) model"

lemma aws_sim_GetComputeInstances_spec:
  "aws_sim_GetComputeInstances model apiErr s = (if apiErr = aws_errClientFactory then None else Some (Inr (mod_Instances model)), s)"
  by (simp add: aws_sim_GetComputeInstances_def sim_instances_def aws_sim_factory_def Let_def)

section \<open>The simulation is a paged source\<close>

definition aws_node_ok :: "Model \<Rightarrow> string \<Rightarrow> bool" where
  "aws_node_ok model i \<longleftrightarrow>
     (case map_of (mod_Nodes model) i of
        None \<Rightarrow> True
      | Some node \<Rightarrow> mget0 [] (mn_Metadata node) ''availability_zone'' \<noteq> [] \<and> mget0 [] (mn_Metadata node) ''group'' \<noteq> [] \<and>
          3 \<le> length (mn_NetLayers node))"

definition aws_insts :: "Model \<Rightarrow> string list \<Rightarrow> aws_instance list" where
  "aws_insts model ids =
     concat (map (\<lambda>i. case map_of (mod_Nodes model) i of Some node \<Rightarrow> [aws_sim_instance node i] | None \<Rightarrow> []) ids)"

lemma aws_sim_page_ok: "\<forall>i \<in> set ids. aws_node_ok model i \<Longrightarrow> aws_sim_page model ids = Inr (aws_insts model ids)"
  by (induction ids) (auto simp: aws_insts_def aws_node_ok_def Let_def split: option.splits)

function positions :: "nat \<Rightarrow> nat \<Rightarrow> nat \<Rightarrow> nat list" where
  "positions n idx len = (if idx < len then idx # positions n (idx + Suc n) len else [])"
  by pat_completeness auto
termination by (relation "measure (\<lambda>(n, idx, len). len - idx)") auto

declare positions.simps [simp del]

lemma positions_from: "p \<in> set (positions n idx len) \<longleftrightarrow> (\<exists>k. p = idx + k * Suc n \<and> p < len)"
proof (induction n idx len rule: positions.induct)
  case (1 n idx len)
  show ?case
  proof (cases "idx < len")
    case True
    have "(\<exists>k. p = idx + k * Suc n \<and> p < len) \<longleftrightarrow> p = idx \<or> (\<exists>k. p = idx + Suc n + k * Suc n \<and> p < len)"
    proof
      assume "\<exists>k. p = idx + k * Suc n \<and> p < len"
      then obtain k where "p = idx + k * Suc n" "p < len" by (elim exE conjE)
      then show "p = idx \<or> (\<exists>k. p = idx + Suc n + k * Suc n \<and> p < len)" by (cases k) auto
    next
      assume "p = idx \<or> (\<exists>k. p = idx + Suc n + k * Suc n \<and> p < len)"
      then show "\<exists>k. p = idx + k * Suc n \<and> p < len"
      proof
        assume "p = idx"
        then show ?thesis using True by (intro exI [of _ 0]) simp
      next
        assume "\<exists>k. p = idx + Suc n + k * Suc n \<and> p < len"
        then obtain k where "p = idx + Suc n + k * Suc n" "p < len" by (elim exE conjE)
        then show ?thesis by (intro exI [of _ "Suc k"]) simp
      qed
    qed
    then show ?thesis using 1 True by (subst positions.simps) auto
  qed (subst positions.simps, auto)
qed

text \<open>The page that starts at a position, and the token of the one after it.\<close>

definition page_at :: "nat \<Rightarrow> 'a list \<Rightarrow> nat \<Rightarrow> 'a list" where
  "page_at n xs p = take (Suc n) (drop p xs)"

lemma aws_fill_positions:
  assumes "\<forall>i \<in> set ids. aws_node_ok model i" and "nat maxResults = Suc n"
  shows "aws_fill model ids maxResults idx st = Some (Inr (),
    st\<lparr>sim_outputs := fold (\<lambda>p. mput (show_nat p) (aws_insts model (page_at n ids p))) (positions n idx (length ids)) (sim_outputs st),
       sim_nextTokens := fold (\<lambda>p. mput (show_nat p) (show_nat (p + Suc n)))
         (filter (\<lambda>p. p + Suc n < length ids) (positions n idx (length ids))) (sim_nextTokens st)\<rparr>)"
proof (induction "length ids - idx" arbitrary: idx st rule: less_induct)
  case less
  show ?case
  proof (cases "idx < length ids")
    case True
    let ?page = "page_at n ids idx"
    have pos: "positions n idx (length ids) = idx # positions n (idx + Suc n) (length ids)"
      using True by (subst positions.simps) simp
    have "set ?page \<subseteq> set ids" unfolding page_at_def by (meson set_drop_subset set_take_subset subset_trans)
    then have page: "aws_sim_page model ?page = Inr (aws_insts model ?page)" using assms(1) by (intro aws_sim_page_ok) blast
    have fill: "aws_fill model ids maxResults idx st =
        aws_fill model ids maxResults (idx + length ?page)
          (let st = st\<lparr>sim_outputs := mput (show_nat idx) (aws_insts model ?page) (sim_outputs st)\<rparr>
           in if idx + length ?page < length ids
              then st\<lparr>sim_nextTokens := mput (show_nat idx) (show_nat (idx + length ?page)) (sim_nextTokens st)\<rparr> else st)"
      using True page assms(2) by (subst aws_fill.simps) (simp add: Let_def page_at_def del: take_Suc_Cons)
    show ?thesis
    proof (cases "idx + Suc n < length ids")
      case more: True
      then have len: "length ?page = Suc n" by (simp add: page_at_def)
      have "length ids - (idx + Suc n) < length ids - idx" using True by simp
      from less [OF this] show ?thesis using more by (simp add: fill len pos Let_def)
    next
      case last: False
      then have end': "\<not> idx + length ?page < length ids" by (simp add: page_at_def min_def)
      have none: "positions n (idx + Suc n) (length ids) = []" using last by (subst positions.simps) simp
      have "aws_fill model ids maxResults (idx + length ?page) st' = Some (Inr (), st')" for st'
        using end' by (subst aws_fill.simps) simp
      then show ?thesis using last end' none by (simp add: fill pos Let_def)
    qed
  next
    case False
    then have "positions n idx (length ids) = []" by (subst positions.simps) simp
    then show ?thesis using False by (subst aws_fill.simps) simp
  qed
qed

text \<open>What the maps hold after the first request, and the parameters of the listing.\<close>

definition aws_filled :: "Model \<Rightarrow> string list \<Rightarrow> nat \<Rightarrow> aws_sim \<Rightarrow> bool" where
  "aws_filled model ids n st \<longleftrightarrow>
     (\<forall>k. k * Suc n < length ids \<longrightarrow>
        map_of (sim_outputs st) (show_nat (k * Suc n)) = Some (aws_insts model (page_at n ids (k * Suc n))) \<and>
        map_of (sim_nextTokens st) (show_nat (k * Suc n)) =
          (if Suc k * Suc n < length ids then Some (show_nat (Suc k * Suc n)) else None))"

lemma aws_fill_filled:
  assumes "\<forall>i \<in> set ids. aws_node_ok model i" and "nat maxResults = Suc n"
    and "aws_fill model ids maxResults 0 (st\<lparr>sim_outputs := [], sim_nextTokens := []\<rparr>) = Some (r, st')"
  shows "r = Inr () \<and> aws_filled model ids n st' \<and>
    (ids = [] \<longrightarrow> sim_outputs st' = [] \<and> sim_nextTokens st' = [])"
proof -
  let ?ps = "positions n 0 (length ids)"
  have st': "r = Inr ()"
    "sim_outputs st' = fold (\<lambda>p. mput (show_nat p) (aws_insts model (page_at n ids p))) ?ps []"
    "sim_nextTokens st' = fold (\<lambda>p. mput (show_nat p) (show_nat (p + Suc n))) (filter (\<lambda>p. p + Suc n < length ids) ?ps) []"
    using assms(3) unfolding aws_fill_positions [OF assms(1,2)] by auto
  have inj: "inj_on show_nat A" for A by (intro inj_onI show_nat_inj)
  have "map_of (sim_outputs st') (show_nat p) = Some (aws_insts model (page_at n ids p))" if "p \<in> set ?ps" for p
    unfolding st'(2) by (rule alm.put_all_inj [OF inj that])
  moreover have "map_of (sim_nextTokens st') (show_nat p) = (if p + Suc n < length ids then Some (show_nat (p + Suc n)) else None)"
    if "p \<in> set ?ps" for p
  proof (cases "p + Suc n < length ids")
    case True
    then have "p \<in> set (filter (\<lambda>p. p + Suc n < length ids) ?ps)" using that by simp
    from alm.put_all_inj [OF inj this, of "\<lambda>p. show_nat (p + Suc n)" "[]"] show ?thesis using True by (simp add: st'(3))
  next
    case False
    then have "show_nat p \<notin> show_nat ` set (filter (\<lambda>p. p + Suc n < length ids) ?ps)" using show_nat_inj by auto
    from alm.put_all_other [OF this, of "\<lambda>p. show_nat (p + Suc n)" "[]"] show ?thesis using False by (simp add: st'(3))
  qed
  moreover have "k * Suc n \<in> set ?ps" if "k * Suc n < length ids" for k
    using that unfolding positions_from by (intro exI [of _ k]) simp
  ultimately have "aws_filled model ids n st'"
    unfolding aws_filled_def by (intro allI impI conjI) (simp_all add: ac_simps)
  moreover have "?ps = []" if "ids = []" using that by (subst positions.simps) simp
  ultimately show ?thesis using st' by simp
qed

type_synonym aws_listing = "Model \<times> string list \<times> aws_input"

definition aws_fetch :: "aws_listing \<Rightarrow> aws_input \<Rightarrow> (aws_sim, aws_output) pcall" where
  "aws_fetch e input = call_res StatusBadGateway ''failed to describe instance topology: ''
     (aws_DescribeInstanceTopology (fst e) (fst (snd e)) 0 input)"

definition listing_ids :: "aws_listing \<Rightarrow> string list" where
  "listing_ids e = aws_sim_ids (fst (snd e)) (snd (snd e))"

definition listing_size :: "aws_listing \<Rightarrow> nat" where
  "listing_size e = nat (aws_sim_max (snd (snd e))) - 1"

definition aws_pages :: "aws_listing \<Rightarrow> aws_output list" where
  "aws_pages e =
     (let ids = listing_ids e; n = listing_size e; cs = chunks n ids
      in map (\<lambda>i. \<lparr>ao_Instances = aws_insts (fst e) (cs ! i),
                    ao_NextToken = (if Suc i < length cs then Some (show_nat (Suc i * Suc n)) else None)\<rparr>) [0..<length cs])"

definition aws_nth_request :: "aws_listing \<Rightarrow> nat \<Rightarrow> aws_input" where
  "aws_nth_request e i = (snd (snd e))\<lparr>in_NextToken := (if i = 0 then None else Some (show_nat (i * Suc (listing_size e))))\<rparr>"

definition aws_ready :: "aws_listing \<Rightarrow> nat \<Rightarrow> aws_sim \<Rightarrow> bool" where
  "aws_ready e i st \<longleftrightarrow>
     1 \<le> aws_sim_max (snd (snd e)) \<and> (\<forall>i \<in> set (listing_ids e). aws_node_ok (fst e) i) \<and>
     (i = 0 \<or> aws_filled (fst e) (listing_ids e) (listing_size e) st)"

lemma aws_filled_output:
  assumes "aws_filled model ids n st" and "k < length (chunks n ids)" and "ids \<noteq> []"
  shows "aws_sim_output (show_nat (k * Suc n)) st =
    \<lparr>ao_Instances = aws_insts model (chunks n ids ! k),
     ao_NextToken = (if Suc k < length (chunks n ids) then Some (show_nat (Suc k * Suc n)) else None)\<rparr>"
proof -
  have "k * Suc n < length ids"
  proof (cases k)
    case 0
    then show ?thesis using assms(3) by simp
  next
    case (Suc j)
    then show ?thesis using assms(2) length_chunks_Suc [of j n ids] by simp
  qed
  then show ?thesis
    using assms(1) unfolding aws_filled_def length_chunks_Suc nth_chunks [OF assms(2)]
    by (simp add: aws_sim_output_def mget0_def page_at_def)
qed

interpretation aws_sim: paged_source aws_fetch aws_next aws_pages aws_nth_request aws_ready
proof
  fix e :: aws_listing and i :: nat and st
  let ?ids = "listing_ids e" and ?n = "listing_size e"
  assume ready: "aws_ready e i st" and i: "i < length (aws_pages e)"
  have page: "aws_pages e ! i = \<lparr>ao_Instances = aws_insts (fst e) (chunks ?n ?ids ! i),
      ao_NextToken = (if Suc i < length (chunks ?n ?ids) then Some (show_nat (Suc i * Suc ?n)) else None)\<rparr>"
    and i': "i < length (chunks ?n ?ids)" using i by (simp_all add: aws_pages_def Let_def)
  have ok: "\<forall>i \<in> set ?ids. aws_node_ok (fst e) i" "nat (aws_sim_max (snd (snd e))) = Suc ?n"
    using ready by (auto simp: aws_ready_def listing_size_def)
  show "\<exists>st'. aws_fetch e (aws_nth_request e i) st = (Some (Inr (aws_pages e ! i)), st') \<and> aws_ready e (Suc i) st'"
  proof (cases "i = 0")
    case True
    obtain r st' where fill: "aws_fill (fst e) ?ids (aws_sim_max (snd (snd e))) 0 (st\<lparr>sim_outputs := [], sim_nextTokens := []\<rparr>) = Some (r, st')"
      using aws_fill_positions [OF ok] by blast
    note filled = aws_fill_filled [OF ok fill]
    have "aws_sim_output (if length ?ids = 0 then [] else show_nat 0) st' = aws_pages e ! i"
    proof (cases "?ids = []")
      case nil: True
      have "chunks ?n [] = [[] :: string list]" by (subst chunks.simps) simp
      then show ?thesis using True nil filled unfolding page by (simp add: aws_sim_output_def mget0_def aws_insts_def)
    next
      case False
      then show ?thesis using True aws_filled_output [of "fst e" ?ids ?n st' 0] filled i' unfolding page by simp
    qed
    moreover have "aws_sim_ids (fst (snd e)) (aws_nth_request e i) = ?ids"
      "aws_sim_max (aws_nth_request e i) = aws_sim_max (snd (snd e))" "in_NextToken (aws_nth_request e i) = None"
      using True by (simp_all add: aws_nth_request_def aws_sim_ids_def listing_ids_def aws_sim_max_def)
    ultimately have "aws_fetch e (aws_nth_request e i) st = (Some (Inr (aws_pages e ! i)), st')"
      using fill filled by (simp add: aws_fetch_def call_res_def aws_DescribeInstanceTopology_def aws_errDescribeInstanceTopology_def)
    then show ?thesis using filled ready by (auto simp: aws_ready_def)
  next
    case False
    then have filled: "aws_filled (fst e) ?ids ?n st" using ready by (simp add: aws_ready_def)
    have "chunks ?n [] = [[] :: string list]" by (subst chunks.simps) simp
    then have "?ids \<noteq> []" using i' False by (auto simp: less_Suc_eq)
    then have "aws_sim_output (show_nat (i * Suc ?n)) st = aws_pages e ! i"
      using aws_filled_output [OF filled i'] unfolding page by simp
    then have "aws_fetch e (aws_nth_request e i) st = (Some (Inr (aws_pages e ! i)), st)"
      using False by (simp add: aws_fetch_def call_res_def aws_DescribeInstanceTopology_def aws_errDescribeInstanceTopology_def
          aws_nth_request_def)
    then show ?thesis using filled ready by (auto simp: aws_ready_def)
  qed
next
  fix e :: aws_listing and i :: nat
  assume "i < length (aws_pages e)"
  then show "aws_next (aws_nth_request e i) (aws_pages e ! i) =
      (if Suc i < length (aws_pages e) then Some (aws_nth_request e (Suc i)) else None)"
    by (simp add: aws_next_def aws_pages_def aws_nth_request_def Let_def)
qed

section \<open>Properties\<close>

text \<open>The topology of a node of the model.\<close>

definition aws_topology :: "Model \<Rightarrow> string \<Rightarrow> InstanceTopology list" where
  "aws_topology model i =
     (case map_of (mod_Nodes model) i of
        None \<Rightarrow> []
      | Some node \<Rightarrow>
          let tiers = rev (mn_NetLayers node)
          in [\<lparr>InstanceID = i, BlockID = tiers ! 2, BlockName = [], SpineID = tiers ! 1, SpineName = [],
               DatacenterID = tiers ! 0, DatacenterName = [], AcceleratorID = mn_NVLink node\<rparr>])"

lemma aws_select_none: "fold (aws_select ci) insts None = None"
  by (induction insts) (simp_all add: aws_select_def)

lemma aws_select_insts:
  assumes "\<forall>i \<in> set ids. aws_node_ok model i"
  shows "fold (aws_select ci) (aws_insts model ids) (Some topo) =
    Some (topo @ concat (map (aws_topology model) (filter (\<lambda>i. map_of (Instances ci) i \<noteq> None) ids)))"
  using assms
proof (induction ids arbitrary: topo)
  case Nil
  then show ?case by (simp add: aws_insts_def)
next
  case (Cons i ids)
  have cons: "aws_insts model (i # ids) =
      (case map_of (mod_Nodes model) i of Some node \<Rightarrow> [aws_sim_instance node i] | None \<Rightarrow> []) @ aws_insts model ids"
    by (simp add: aws_insts_def)
  show ?case
  proof (cases "map_of (mod_Nodes model) i")
    case None
    then show ?thesis using Cons by (simp add: cons aws_topology_def)
  next
    case (Some node)
    then have three: "3 \<le> length (rev (mn_NetLayers node))" using Cons.prems by (simp add: aws_node_ok_def)
    then obtain n0 n1 n2 ns where tiers: "rev (mn_NetLayers node) = n0 # n1 # n2 # ns"
      by (cases "rev (mn_NetLayers node)" rule: list.exhaust [case_names Nil Cons]; auto simp: numeral_3_eq_3 Suc_le_length_iff)
    then have conv: "aws_convert (aws_sim_instance node i) = Some (hd (aws_topology model i))" "aws_topology model i \<noteq> []"
      "tl (aws_topology model i) = []"
      using Some by (simp_all add: aws_convert_def aws_sim_instance_def aws_topology_def Let_def)
    then have one: "aws_topology model i = [hd (aws_topology model i)]" by (cases "aws_topology model i") auto
    have id: "ai_InstanceId (aws_sim_instance node i) = Some i" by (simp add: aws_sim_instance_def)
    show ?thesis
    proof (cases "map_of (Instances ci) i = None")
      case True
      then show ?thesis using Cons Some by (simp add: cons aws_select_def id)
    next
      case False
      then have "aws_select ci (aws_sim_instance node i) (Some topo) = Some (topo @ aws_topology model i)"
        using conv(1) one by (simp add: aws_select_def id Append_def del: not_None_eq)
      then show ?thesis using Cons Some False by (simp add: cons del: not_None_eq)
    qed
  qed
qed

lemma fold_bind_concat:
  assumes "\<And>p t. add p t = fold f (items p) (Some t)" and "\<And>xs. fold f xs None = None"
  shows "fold (\<lambda>p t. Option.bind t (add p)) ps (Some t) = fold f (concat (map items ps)) (Some t)"
proof (induction ps arbitrary: t)
  case (Cons p ps)
  have none: "fold (\<lambda>p t. Option.bind t (\<lambda>t. fold f (items p) (Some t))) ps None = None" by (induction ps) simp_all
  show ?case using Cons none assms by (cases "fold f (items p) (Some t)") simp_all
qed simp

lemma aws_pages_items:
  "concat (map (\<lambda>p. ao_Instances p) (aws_pages e)) = aws_insts (fst e) (listing_ids e)"
proof -
  let ?cs = "chunks (listing_size e) (listing_ids e)"
  have "concat (map (\<lambda>p. ao_Instances p) (aws_pages e)) = concat (map (aws_insts (fst e)) (map (\<lambda>i. ?cs ! i) [0..<length ?cs]))"
    by (simp add: aws_pages_def Let_def comp_def)
  also have "\<dots> = concat (map (aws_insts (fst e)) ?cs)" by (simp only: map_nth)
  also have "concat (map (aws_insts (fst e)) css) = aws_insts (fst e) (concat css)" for css
    by (induction css) (simp_all add: aws_insts_def)
  finally show ?thesis by (simp add: concat_chunks)
qed

text \<open>
  C29. Paging is transparent: against the simulation, the topology of a region is that of the requested
  instances the model knows, in the order of the listing, whatever the page size is as long as it is positive.
\<close>

theorem aws_paging_transparent:
  assumes "Region ci \<noteq> []" and "1 \<le> setPageSize pageSize" and "\<forall>i \<in> set simIds \<union> set (mkeys (Instances ci)). aws_node_ok model i"
  shows "fst (aws_generateRegionInstanceTopology (aws_sim_factory model simIds 0) pageSize ci topo st) =
    Some (Inr (topo @ concat (map (aws_topology model) (filter (\<lambda>i. map_of (Instances ci) i \<noteq> None)
      (if Instances ci = [] \<or> 100 < length (Instances ci) then simIds else mkeys (Instances ci))))))"
proof -
  define client where "client = \<lparr>ac_ec2 = aws_DescribeInstanceTopology model simIds 0, ac_pageSize = setPageSize pageSize\<rparr>"
  define e where "e = (model, simIds, aws_request client ci)"
  have ids: "listing_ids e = (if Instances ci = [] \<or> 100 < length (Instances ci) then simIds else mkeys (Instances ci))"
    by (auto simp: e_def listing_ids_def aws_sim_ids_def aws_request_def)
  have ready: "aws_ready e 0 st"
    using assms(2,3) ids by (auto simp: aws_ready_def e_def aws_sim_max_def aws_request_def client_def split: if_splits)
  have req: "aws_nth_request e 0 = aws_request client ci" by (simp add: aws_nth_request_def e_def aws_request_def)
  have fetch: "(\<lambda>input. call_res StatusBadGateway ''failed to describe instance topology: '' (ac_ec2 client input)) = aws_fetch e"
    by (simp add: aws_fetch_def e_def client_def fun_eq_iff)
  have pages: "aws_pages e \<noteq> []" by (simp add: aws_pages_def Let_def)
  have "fold (\<lambda>p t. Option.bind t (\<lambda>t. fold (aws_select ci) (ao_Instances p) (Some t))) (aws_pages e) (Some topo) =
      fold (aws_select ci) (concat (map (\<lambda>p. ao_Instances p) (aws_pages e))) (Some topo)"
    by (rule fold_bind_concat) (simp_all add: aws_select_none)
  also have "\<dots> = Some (topo @ concat (map (aws_topology model) (filter (\<lambda>i. map_of (Instances ci) i \<noteq> None) (listing_ids e))))"
    unfolding aws_pages_items using ready by (simp add: aws_select_insts aws_ready_def e_def)
  finally have "fold (\<lambda>p t. Option.bind t (\<lambda>t. fold (aws_select ci) (ao_Instances p) (Some t))) (aws_pages e) (Some topo) = \<dots>" .
  note run = aws_sim.paged_all [OF ready pages this]
  have "aws_generateRegionInstanceTopology (aws_sim_factory model simIds 0) pageSize ci topo st =
      paged (aws_fetch e) (\<lambda>output topo. map_option Inr (fold (aws_select ci) (ao_Instances output) (Some topo))) aws_next (aws_request client ci) topo st"
    using assms(1)
    by (simp add: aws_generateRegionInstanceTopology_def then_pcall_def call_res_Inr answered_def aws_sim_factory_def
        aws_errClientFactory_def client_def [symmetric] fetch)
  then show ?thesis using run unfolding req ids by simp
qed

definition sample_aws_node :: "string \<Rightarrow> string \<times> model_node" where
  "sample_aws_node i = (i, \<lparr>mn_Name = i, mn_Metadata = [(''availability_zone'', ''az1''), (''group'', ''pg1'')], mn_Type = ''H100'',
     mn_NVLink = ''nvl1'', mn_NetLayers = [''leaf'', ''spine'', ''core''], mn_CapacityBlock = ''cb1''\<rparr>)"

definition sample_aws_model :: Model where
  "sample_aws_model = \<lparr>mod_Switches = [], mod_CapacityBlocks = [], mod_Nodes = map sample_aws_node [''i1'', ''i2'', ''i3''], mod_Instances = []\<rparr>"

theorem aws_paging_transparent_witness:
  "map_option (map_sum (\<lambda>e. e) (map (\<lambda>t. (InstanceID t, BlockID t, DatacenterID t))))
     (fst (aws_generateRegionInstanceTopology (aws_sim_factory sample_aws_model [''i1'', ''i2'', ''i3''] 0) (Some 2)
       \<lparr>Region = ''r'', Instances = [(''i1'', ''n1''), (''i3'', ''n3''), (''i9'', ''n9'')]\<rparr> [] \<lparr>sim_outputs = [], sim_nextTokens = []\<rparr>)) =
   Some (Inr [(''i1'', ''leaf'', ''core''), (''i3'', ''leaf'', ''core'')])"
proof -
  have "setPageSize (Some 2) = 2" by (simp add: setPageSize_def wrap32_def)
  moreover have "\<forall>i \<in> set [''i1'', ''i2'', ''i3''] \<union> set (mkeys [(''i1'', ''n1''), (''i3'', ''n3''), (''i9'', ''n9'')]).
      aws_node_ok sample_aws_model i"
    by (simp add: aws_node_ok_def sample_aws_model_def sample_aws_node_def mget0_def)
  ultimately show ?thesis
    by (subst aws_paging_transparent)
      (simp_all add: aws_topology_def sample_aws_model_def sample_aws_node_def Let_def)
qed

text \<open>A page size of zero makes the simulation loop for ever.\<close>

lemma aws_fill_no_progress:
  assumes "maxResults \<le> 0" and "ids \<noteq> []"
  shows "aws_fill model ids maxResults 0 st = None"
proof -
  have "ids \<noteq> [] \<longrightarrow> maxResults \<le> 0 \<longrightarrow> idx = 0 \<longrightarrow> False" if run: "aws_fill model ids maxResults idx st = Some r" for idx r
  proof (rule aws_fill.raw_induct [where P = "\<lambda>m i x k s r. i \<noteq> [] \<longrightarrow> x \<le> 0 \<longrightarrow> k = 0 \<longrightarrow> False", OF _ run], intro impI)
    fix f :: "Model \<Rightarrow> string list \<Rightarrow> int \<Rightarrow> nat \<Rightarrow> aws_sim \<Rightarrow> (unit res \<times> aws_sim) option"
      and m i x k s r
    assume IH: "\<And>m i x k s r. f m i x k s = Some r \<Longrightarrow> i \<noteq> [] \<longrightarrow> x \<le> 0 \<longrightarrow> k = 0 \<longrightarrow> False"
      and body: "(if k < length i
        then (let page = take (nat x) (drop k i)
              in case aws_sim_page m page of Inl err \<Rightarrow> Some (Inl err, s)
                 | Inr insts \<Rightarrow>
                     let token = show_nat k; idx' = k + length page;
                         st = s\<lparr>sim_outputs := mput token insts (sim_outputs s)\<rparr>;
                         st = (if idx' < length i then st\<lparr>sim_nextTokens := mput token (show_nat idx') (sim_nextTokens st)\<rparr> else st)
                     in f m i x idx' st)
        else Some (Inr (), s)) = Some r"
      and "i \<noteq> []" "x \<le> 0" "k = 0"
    then have "\<exists>s'. f m i x 0 s' = Some r" by (auto simp: Let_def split: if_splits)
    then show False using IH \<open>i \<noteq> []\<close> \<open>x \<le> 0\<close> by blast
  qed
  then show ?thesis using assms by (cases "aws_fill model ids maxResults 0 st") auto
qed

end
