(* ===== verification/Nebius.thy ===== *)
theory Nebius
  imports Paging Decode
begin

text \<open>
  \<open>pkg/providers/nebius\<close>: the provider (\<open>provider.go\<close>, \<open>instance_topology.go\<close>), the queries
  on the nodes (\<open>imds.go\<close>) and the simulation (\<open>provider_sim.go\<close>). The SDK, its client, files and commands
  are arguments.
\<close>

section \<open>Instance topology\<close>

record nebius_request =
  nr_ParentId :: string
  nr_PageSize :: int
  nr_PageToken :: string

text \<open>An instance: the MAC addresses of its interfaces, and its topology path if it has one.\<close>

record nebius_instance =
  ni_macs :: "string list"
  ni_path :: "string list option"

record nebius_response =
  nb_Items :: "nebius_instance list"
  nb_NextPageToken :: string

record 's nebius_client =
  nc_ProjectID :: string
  nc_PageSize :: int
  nc_list :: "nebius_request \<Rightarrow> ('s, nebius_response) service"

type_synonym 's nebius_factory = "int option \<Rightarrow> 's \<Rightarrow> 's nebius_client res \<times> 's"

definition nebius_getPageSize :: "int option \<Rightarrow> int" where
  "nebius_getPageSize sz = (case sz of None \<Rightarrow> 200 | Some n \<Rightarrow> n)"

definition to_upper :: "string \<Rightarrow> string" where
  "to_upper s = map (\<lambda>c. let n = (of_char c :: nat) in if 97 \<le> n \<and> n \<le> 122 then char_of (n - 32) else c) s"

fun hasNetIntf :: "compute_instances \<Rightarrow> string list \<Rightarrow> (string \<times> string) option" where
  "hasNetIntf ci [] = None"
| "hasNetIntf ci (mac # macs) =
     (case map_of (Instances ci) (to_upper mac) of
        Some hostname \<Rightarrow> Some (hostname, mac)
      | None \<Rightarrow> hasNetIntf ci macs)"

definition nebius_add :: "compute_instances \<Rightarrow> nebius_instance \<Rightarrow> cluster \<Rightarrow> cluster" where
  "nebius_add ci inst topo =
     (case hasNetIntf ci (ni_macs inst) of
        None \<Rightarrow> topo
      | Some (hostname, intf) \<Rightarrow>
          (case ni_path inst of
             Some [p0, p1, p2] \<Rightarrow>
               Append \<lparr>InstanceID = intf, BlockID = p2, BlockName = [], SpineID = p1, SpineName = [],
                        DatacenterID = p0, DatacenterName = [], AcceleratorID = []\<rparr> topo
           | _ \<Rightarrow> topo))"

definition nebius_next :: "nebius_request \<Rightarrow> nebius_response \<Rightarrow> nebius_request option" where
  "nebius_next req resp =
     (if length (nb_NextPageToken resp) = 0 then None else Some (req\<lparr>nr_PageToken := nb_NextPageToken resp\<rparr>))"

definition nebius_generateRegionInstanceTopology ::
  "'s nebius_client \<Rightarrow> compute_instances \<Rightarrow> cluster \<Rightarrow> ('s, cluster) pcall" where
  "nebius_generateRegionInstanceTopology client ci topo =
     (if length (Region ci) = 0 then return_pcall (Inl (NewError StatusBadRequest ''must specify region''))
      else paged (\<lambda>req. call_res StatusBadGateway ''failed to get instance list: '' (nc_list client req))
        (\<lambda>resp topo. Some (Inr (fold (nebius_add ci) (nb_Items resp) topo))) nebius_next
        \<lparr>nr_ParentId = nc_ProjectID client, nr_PageSize = nc_PageSize client, nr_PageToken = []\<rparr> topo)"

definition nebius_generateInstanceTopology ::
  "'s nebius_factory \<Rightarrow> int option \<Rightarrow> compute_instances list \<Rightarrow> ('s, cluster) pcall" where
  "nebius_generateInstanceTopology factory pageSize cis =
     then_pcall (call_res StatusBadGateway ''failed to create API client: '' (answered (factory pageSize)))
       (\<lambda>client. all_regions (nebius_generateRegionInstanceTopology client) cis NewClusterTopology)"

definition nebius_GenerateTopologyConfig ::
  "'s nebius_factory \<Rightarrow> int option \<Rightarrow> compute_instances list \<Rightarrow> ('s, vertex) pcall" where
  "nebius_GenerateTopologyConfig factory pageSize instances =
     map_pcall (three_tier ''nebius'' instances False) (nebius_generateInstanceTopology factory pageSize instances)"

section \<open>Authentication\<close>

text \<open>What the SDK is given: a service account's key, or a token.\<close>

datatype nebius_option = ServiceAccount string string string | IAMToken string

text \<open>
  The environment is \<open>getenv\<close>; \<open>stat\<close> is the error of the token file's status with whether it says that
  the file does not exist, and \<open>read_file\<close> reads a file.
\<close>

definition nebius_getAuthOption ::
  "(string \<Rightarrow> string) \<Rightarrow> (string \<Rightarrow> bool option) \<Rightarrow> (string \<Rightarrow> string res) \<Rightarrow> (string, string) gomap \<Rightarrow> nebius_option http_res" where
  "nebius_getAuthOption getenv stat read_file creds =
     (if length creds \<noteq> 0
      then let missing = (\<lambda>k. Inl (NewError StatusBadRequest (''credentials error: missing '' @ k)))
           in if length (mget0 [] creds ''serviceAccountId'') = 0 then missing ''serviceAccountId''
              else if length (mget0 [] creds ''publicKeyId'') = 0 then missing ''publicKeyId''
              else if length (mget0 [] creds ''privateKey'') = 0 then missing ''privateKey''
              else Inr (ServiceAccount (mget0 [] creds ''privateKey'') (mget0 [] creds ''publicKeyId'')
                     (mget0 [] creds ''serviceAccountId''))
      else if length (getenv ''IAM_TOKEN'') \<noteq> 0 then Inr (IAMToken (getenv ''IAM_TOKEN''))
      else if stat ''/mnt/cloud-metadata/token'' \<noteq> Some True
      then (case ReadFile read_file ''/mnt/cloud-metadata/token'' of
              Inl err \<Rightarrow> Inl (NewError StatusInternalServerError err)
            | Inr token \<Rightarrow> Inr (IAMToken token))
      else Inl (NewError StatusBadRequest ''missing authentication credentials''))"

definition nebius_getSDK :: "(nebius_option \<Rightarrow> 'd res) \<Rightarrow> nebius_option http_res \<Rightarrow> 'd http_res" where
  "nebius_getSDK new opt =
     bind_sum opt (\<lambda>opt.
       case new opt of
         Inl err \<Rightarrow> Inl (NewError StatusUnauthorized (''failed to create gosdk: '' @ err))
       | Inr sdk \<Rightarrow> Inr sdk)"

definition nebius_getParentID :: "(string \<Rightarrow> string res) \<Rightarrow> string res" where
  "nebius_getParentID read_file = ReadFile read_file ''/mnt/cloud-metadata/parent-id''"

text \<open>The loader; the instance service of the SDK is an argument.\<close>

definition nebius_Loader ::
  "'d http_res \<Rightarrow> ('d \<Rightarrow> nebius_request \<Rightarrow> ('s, nebius_response) service) \<Rightarrow> (string \<Rightarrow> string res) \<Rightarrow> (string, string) gomap \<Rightarrow>
   's nebius_factory http_res" where
  "nebius_Loader sdk instance_service read_file creds =
     bind_sum sdk (\<lambda>sdk.
       let factory = (\<lambda>projectID pageSize s.
             (Inr \<lparr>nc_ProjectID = projectID, nc_PageSize = nebius_getPageSize pageSize, nc_list = instance_service sdk\<rparr>, s))
       in case map_of creds ''projectId'' of
            Some projectID \<Rightarrow> Inr (factory projectID)
          | None \<Rightarrow>
              (case nebius_getParentID read_file of
                 Inl err \<Rightarrow> Inl (NewError StatusInternalServerError (''failed to get project ID: '' @ err))
               | Inr projectID \<Rightarrow> Inr (factory projectID)))"

section \<open>Queries on the nodes\<close>

definition MACCmd :: string where
  "MACCmd = ''iface=$(awk '' @ [CHR 0x27] @ ''$2=='' @ [CHR 0x27] @ ''00000000'' @ [CHR 0x27] @ '' {print $1, $8}'' @ [CHR 0x27] @
     '' /proc/net/route | sort -k2n | head -n1 | cut -d'' @ [CHR 0x27] @ '' '' @ [CHR 0x27] @
     '' -f1); cat /sys/class/net/$iface/address | tr '' @ [CHR 0x27] @ ''[:lower:]'' @ [CHR 0x27] @ '' '' @
     [CHR 0x27] @ ''[:upper:]'' @ [CHR 0x27]"

definition nebius_instanceToNodeMap :: "'s exec \<Rightarrow> string list \<Rightarrow> 's \<Rightarrow> (string, string) gomap res \<times> 's" where
  "nebius_instanceToNodeMap exec = pdsh_map exec MACCmd False"

definition nebius_getRegions :: "'s exec \<Rightarrow> string list \<Rightarrow> 's \<Rightarrow> (string, string) gomap res \<times> 's" where
  "nebius_getRegions exec = pdsh_map exec (''echo $(cat '' @ ''/mnt/cloud-metadata/region-name'' @ '')'') True"

definition nebius_GetNodeAnnotations :: "'s exec \<Rightarrow> (string \<Rightarrow> string res) \<Rightarrow> 's \<Rightarrow> (string, string) gomap res \<times> 's" where
  "nebius_GetNodeAnnotations exec read_file =
     then_res (exec ''sh'' [''-c'', MACCmd])
       (\<lambda>mac s. (map_sum (\<lambda>e. e) (\<lambda>region. node_annotations (trim_space mac) (trim_space region))
                    (ReadFile read_file ''/mnt/cloud-metadata/region-name''), s))"

section \<open>Simulation\<close>

definition nebius_errClientFactory :: int where "nebius_errClientFactory = 2"
definition nebius_errInstances :: int where "nebius_errInstances = 3"
definition nebius_errTopologyPath :: int where "nebius_errTopologyPath = 4"
definition nebius_errNetworkIntf :: int where "nebius_errNetworkIntf = 5"

definition getStartIndex :: "string \<Rightarrow> int" where
  "getStartIndex token = (if length token = 0 then 0 else fst (ParseInt 32 token))"

text \<open>A node that is missing or has fewer than three layers makes the simulation panic.\<close>

definition nebius_sim_instance :: "Model \<Rightarrow> int \<Rightarrow> string \<Rightarrow> nebius_instance option" where
  "nebius_sim_instance model apiErr i =
     (case map_of (mod_Nodes model) i of
        None \<Rightarrow> None
      | Some node \<Rightarrow>
          (case mn_NetLayers node of
             l0 # l1 # l2 # _ \<Rightarrow>
               Some \<lparr>ni_macs = (if apiErr \<noteq> nebius_errNetworkIntf then [mn_Name node] else []),
                      ni_path = Some (if apiErr = nebius_errTopologyPath then [] else [l2, l1, l0])\<rparr>
           | _ \<Rightarrow> if apiErr = nebius_errTopologyPath
                  then Some \<lparr>ni_macs = [mn_Name node], ni_path = Some []\<rparr> else None))"

fun all_present :: "'a option list \<Rightarrow> 'a list option" where
  "all_present [] = Some []"
| "all_present (x # xs) = (case x of None \<Rightarrow> None | Some y \<Rightarrow> map_option (Cons y) (all_present xs))"

text \<open>A negative start index is out of range unless the page ends before zero.\<close>

definition nebius_GetComputeInstanceList ::
  "Model \<Rightarrow> string list \<Rightarrow> int \<Rightarrow> int \<Rightarrow> nebius_request \<Rightarrow> (unit, nebius_response) service" where
  "nebius_GetComputeInstanceList model instanceIDs pageSize apiErr req s =
     (if apiErr = nebius_errInstances then (Some (Inl ErrAPIError), s)
      else
        let from = getStartIndex (nr_PageToken req);
            len = int (length instanceIDs);
            end' = max from (min len (from + pageSize))
        in if from < 0 \<and> from < end' then (None, s)
           else (case all_present (map (nebius_sim_instance model apiErr) (take (nat (end' - from)) (drop (nat from) instanceIDs))) of
                   None \<Rightarrow> (None, s)
                 | Some items \<Rightarrow>
                     (Some (Inr \<lparr>nb_Items = items, nb_NextPageToken = (if end' < len then show_int end' else [])\<rparr>), s)))"

definition nebius_sim_factory :: "Model \<Rightarrow> string list \<Rightarrow> int \<Rightarrow> unit nebius_factory" where
  "nebius_sim_factory model instanceIDs apiErr pageSize s =
     (if apiErr = nebius_errClientFactory then (Inl ErrAPIError, s)
      else (Inr \<lparr>nc_ProjectID = [], nc_PageSize = nebius_getPageSize pageSize,
                  nc_list = nebius_GetComputeInstanceList model instanceIDs (nebius_getPageSize pageSize) apiErr\<rparr>, s))"

definition nebius_LoaderSim ::
  "('v \<Rightarrow> (string \<times> int) res) \<Rightarrow> (string \<Rightarrow> Model res) \<Rightarrow> 'v \<Rightarrow> (unit nebius_factory \<times> compute_instances list) http_res" where
  "nebius_LoaderSim decode load params =
     bind_sum (load_simulation decode load params)
       (\<lambda>(model, apiErr). Inr (nebius_sim_factory model (node_names model) apiErr, mod_Instances model))"

definition nebius_sim_GetComputeInstances :: "Model \<Rightarrow> int \<Rightarrow> (unit, compute_instances list) pcall" where
  "nebius_sim_GetComputeInstances model apiErr = sim_instances (nebius_sim_factory model (node_names model) apiErr None) model"

lemma nebius_sim_GetComputeInstances_spec:
  "nebius_sim_GetComputeInstances model apiErr s = (if apiErr = nebius_errClientFactory then None else Some (Inr (mod_Instances model)), s)"
  by (simp add: nebius_sim_GetComputeInstances_def sim_instances_def nebius_sim_factory_def Let_def)

text \<open>
  An interface is looked up by its address in upper case, but the instance is added under the address as it was
  reported: one in lower case matches no instance of the request afterwards.
\<close>

lemma nebius_lower_case:
  assumes "map_of (Instances ci) mac = None" and "map_of (Instances ci) (to_upper mac) = Some host"
    and "ni_macs inst = [mac]" and "ni_path inst = Some [p0, p1, p2]"
  shows "\<exists>t. nebius_add ci inst topo = Append t topo \<and> map_of (Instances ci) (InstanceID t) = None"
  using assms by (simp add: nebius_add_def) (metis InstanceTopology.select_convs(1))

end
