(* ===== verification/Gcp.thy ===== *)
theory Gcp
  imports Paging Decode "HOL-Library.Word"
begin

text \<open>
  \<open>pkg/providers/gcp\<close>: the provider (\<open>provider.go\<close>, \<open>instance_topology.go\<close>), the queries of the
  metadata service (\<open>imds.go\<close>) and the simulation (\<open>provider_sim.go\<close>). The instances client is an
  argument: a call gives an iterator, which is the list of what \<open>Next\<close> returns before \<open>Done\<close> or an error,
  and the token of the next page.
\<close>

section \<open>Instance topology\<close>

record gcp_request =
  gr_Project :: string
  gr_Zone :: string
  gr_MaxResults :: "32 word option"
  gr_PageToken :: "string option"

record gcp_host =
  gh_Cluster :: "string option"
  gh_Block :: "string option"
  gh_Subblock :: "string option"

text \<open>An instance: its ID, and its resource status with the topology of its host.\<close>

record gcp_instance =
  gi_Id :: "64 word option"
  gi_ResourceStatus :: "gcp_host option option"

record gcp_page =
  gp_items :: "gcp_instance list"
  gp_err :: "string option"
  gp_token :: string

record 's gcp_client =
  gc_PageSize :: "32 word option"
  gc_ProjectID :: "'s \<Rightarrow> string res \<times> 's"
  gc_Instances :: "gcp_request \<Rightarrow> 's \<Rightarrow> gcp_page option \<times> 's"

type_synonym 's gcp_factory = "int option \<Rightarrow> 's \<Rightarrow> 's gcp_client res \<times> 's"

definition castPageSize :: "int option \<Rightarrow> 32 word option" where
  "castPageSize val = map_option word_of_int val"

definition gcp_topology :: "string \<Rightarrow> gcp_instance \<Rightarrow> InstanceTopology option" where
  "gcp_topology instanceId inst =
     (case gi_ResourceStatus inst of
        Some (Some host) \<Rightarrow>
          (case (gh_Cluster host, gh_Block host, gh_Subblock host) of
             (Some cl, Some bl, Some sb) \<Rightarrow>
               Some \<lparr>InstanceID = instanceId, BlockID = sb, BlockName = [], SpineID = bl, SpineName = [],
                     DatacenterID = cl, DatacenterName = [], AcceleratorID = sb\<rparr>
           | _ \<Rightarrow> None)
      | _ \<Rightarrow> None)"

text \<open>The loop over the iterator: an instance without an ID is a nil pointer; then Done or the error.\<close>

fun gcp_items :: "compute_instances \<Rightarrow> string option \<Rightarrow> gcp_instance list \<Rightarrow> cluster \<Rightarrow> cluster http_res option" where
  "gcp_items ci err [] topo =
     (case err of None \<Rightarrow> Some (Inr topo) | Some msg \<Rightarrow> Some (Inl (NewError StatusBadGateway msg)))"
| "gcp_items ci err (inst # insts) topo =
     (case gi_Id inst of
        None \<Rightarrow> None
      | Some i \<Rightarrow>
          let instanceId = show_nat (unat i)
          in gcp_items ci err insts
               (if map_of (Instances ci) instanceId \<noteq> None
                then (case gcp_topology instanceId inst of Some t \<Rightarrow> Append t topo | None \<Rightarrow> topo)
                else topo))"

definition gcp_next :: "gcp_request \<Rightarrow> gcp_page \<Rightarrow> gcp_request option" where
  "gcp_next req page = (if length (gp_token page) = 0 then None else Some (req\<lparr>gr_PageToken := Some (gp_token page)\<rparr>))"

definition gcp_fetch :: "(gcp_request \<Rightarrow> 's \<Rightarrow> gcp_page option \<times> 's) \<Rightarrow> gcp_request \<Rightarrow> ('s, gcp_page) pcall" where
  "gcp_fetch instances req s = (case instances req s of (page, s) \<Rightarrow> (map_option Inr page, s))"

definition gcp_generateRegionInstanceTopology ::
  "'s gcp_client \<Rightarrow> string \<Rightarrow> compute_instances \<Rightarrow> cluster \<Rightarrow> ('s, cluster) pcall" where
  "gcp_generateRegionInstanceTopology client projectID ci topo =
     (if length (Region ci) = 0 then return_pcall (Inl (NewError StatusBadRequest ''must specify region''))
      else paged (gcp_fetch (gc_Instances client)) (\<lambda>page topo. gcp_items ci (gp_err page) (gp_items page) topo) gcp_next
        \<lparr>gr_Project = projectID, gr_Zone = Region ci, gr_MaxResults = gc_PageSize client, gr_PageToken = None\<rparr> topo)"

definition gcp_generateInstanceTopology ::
  "'s gcp_factory \<Rightarrow> int option \<Rightarrow> compute_instances list \<Rightarrow> ('s, cluster) pcall" where
  "gcp_generateInstanceTopology factory pageSize cis =
     then_pcall (call_res StatusBadGateway ''failed to get client: '' (answered (factory pageSize)))
       (\<lambda>client. then_pcall (call_res StatusBadGateway ''failed to get project ID: '' (answered (gc_ProjectID client)))
          (\<lambda>projectID. all_regions (gcp_generateRegionInstanceTopology client projectID) cis NewClusterTopology))"

definition gcp_GenerateTopologyConfig ::
  "'s gcp_factory \<Rightarrow> int option \<Rightarrow> compute_instances list \<Rightarrow> ('s, vertex) pcall" where
  "gcp_GenerateTopologyConfig factory pageSize instances =
     map_pcall (three_tier ''gcp'' instances False) (gcp_generateInstanceTopology factory pageSize instances)"

text \<open>The client factory of the provider, from the client of the SDK with its calls.\<close>

definition gcp_clientFactory ::
  "('s \<Rightarrow> (('s \<Rightarrow> string res \<times> 's) \<times> (gcp_request \<Rightarrow> 's \<Rightarrow> gcp_page option \<times> 's)) res \<times> 's) \<Rightarrow> 's gcp_factory" where
  "gcp_clientFactory new_client pageSize s =
     (case new_client s of
        (Inl err, s) \<Rightarrow> (Inl (''failed to get instances client: '' @ err), s)
      | (Inr (project, list), s) \<Rightarrow>
          (Inr \<lparr>gc_PageSize = castPageSize pageSize, gc_ProjectID = project, gc_Instances = list\<rparr>, s))"

section \<open>Instance metadata\<close>

definition gcp_IMDSURL :: string where
  "gcp_IMDSURL = ''http://metadata.google.internal/computeMetadata/v1''"

definition gcp_pdshCmd :: "string \<Rightarrow> string" where
  "gcp_pdshCmd url = ''echo $(curl -s -H '' @ quote ''Metadata-Flavor: Google'' @ '' '' @ url @ '')''"

text \<open>What follows the last slash.\<close>

definition convertRegion :: "string \<Rightarrow> string" where
  "convertRegion region = rev (takeWhile (\<lambda>c. c \<noteq> CHR ''/'') (rev region))"

definition gcp_instanceToNodeMap :: "'s exec \<Rightarrow> string list \<Rightarrow> 's \<Rightarrow> (string, string) gomap res \<times> 's" where
  "gcp_instanceToNodeMap exec = pdsh_map exec (gcp_pdshCmd (gcp_IMDSURL @ ''/instance/id'')) False"

definition gcp_getRegions :: "'s exec \<Rightarrow> string list \<Rightarrow> 's \<Rightarrow> (string, string) gomap res \<times> 's" where
  "gcp_getRegions exec nodes =
     then_res (pdsh_map exec (gcp_pdshCmd (gcp_IMDSURL @ ''/instance/zone'')) True nodes)
       (\<lambda>res s. (Inr (map (\<lambda>(key, val). (key, convertRegion (trim_space val))) res), s))"

definition gcp_GetNodeAnnotations :: "'s http_do \<Rightarrow> 's \<Rightarrow> (string, string) gomap res \<times> 's" where
  "gcp_GetNodeAnnotations send =
     (let header = [(''Metadata-Flavor'', ''Google'')]
      in then_res (wrap_err ''failed to execute instance-id IMDS request: ''
                    (HttpReq send ''GET'' (gcp_IMDSURL @ ''/instance/id'') header))
           (\<lambda>inst. then_res (wrap_err ''failed to execute region IMDS request: ''
                       (HttpReq send ''GET'' (gcp_IMDSURL @ ''/instance/zone'') header))
              (\<lambda>region s. (Inr (node_annotations inst (convertRegion region)), s))))"

section \<open>Simulation\<close>

definition gcp_errClientFactory :: int where "gcp_errClientFactory = 2"
definition gcp_errProjectID :: int where "gcp_errProjectID = 3"
definition gcp_errInstances :: int where "gcp_errInstances = 4"

definition gcp_getPage :: "string option \<Rightarrow> int" where
  "gcp_getPage page = (case page of None \<Rightarrow> 0 | Some t \<Rightarrow> fst (ParseInt 32 t))"

text \<open>
  The instances from an index on, as many as the page size: there is no check against the number of
  instances, so a page that reaches beyond the last makes the simulation panic. A node whose name is no number ends
  the listing with an error.
\<close>

fun gcp_sim_items :: "Model \<Rightarrow> string list \<Rightarrow> nat \<Rightarrow> (string option \<times> gcp_instance list) option" where
  "gcp_sim_items model ids 0 = Some (None, [])"
| "gcp_sim_items model [] (Suc n) = None"
| "gcp_sim_items model (i # ids) (Suc n) =
     (case map_of (mod_Nodes model) i of
        None \<Rightarrow> None
      | Some node \<Rightarrow>
          (case ParseUint 64 (mn_Name node) of
             (_, False) \<Rightarrow> Some (Some (''invalid instance ID '' @ quote (mn_Name node) @ ''; must be numerical''), [])
           | (val, True) \<Rightarrow>
               (case mn_NetLayers node of
                  l0 # l1 # l2 # _ \<Rightarrow>
                    (case gcp_sim_items model ids n of
                       None \<Rightarrow> None
                     | Some (Some err, _) \<Rightarrow> Some (Some err, [])
                     | Some (None, items) \<Rightarrow>
                         Some (None, \<lparr>gi_Id = Some (of_nat val),
                           gi_ResourceStatus = Some (Some \<lparr>gh_Cluster = Some l2, gh_Block = Some l1, gh_Subblock = Some l0\<rparr>)\<rparr> # items))
                | _ \<Rightarrow> None)))"

definition gcp_sim_Instances ::
  "Model \<Rightarrow> string list \<Rightarrow> 32 word \<Rightarrow> int \<Rightarrow> gcp_request \<Rightarrow> unit \<Rightarrow> gcp_page option \<times> unit" where
  "gcp_sim_Instances model instanceIDs pageSize apiErr req s =
     (if apiErr = gcp_errInstances then (Some \<lparr>gp_items = [], gp_err = Some ErrAPIError, gp_token = []\<rparr>, s)
      else
        let from = gcp_getPage (gr_PageToken req); to = from + uint pageSize
        in if from < 0 \<and> from < to then (None, s)
           else (case gcp_sim_items model (drop (nat from) instanceIDs) (unat pageSize) of
                   None \<Rightarrow> (None, s)
                 | Some (Some err, _) \<Rightarrow> (Some \<lparr>gp_items = [], gp_err = Some err, gp_token = []\<rparr>, s)
                 | Some (None, items) \<Rightarrow>
                     (Some \<lparr>gp_items = items, gp_err = None,
                            gp_token = (if to < int (length instanceIDs) then show_int to else [])\<rparr>, s)))"

definition gcp_sim_factory :: "Model \<Rightarrow> string list \<Rightarrow> int \<Rightarrow> unit gcp_factory" where
  "gcp_sim_factory model instanceIDs apiErr pageSize s =
     (if apiErr = gcp_errClientFactory then (Inl ErrAPIError, s)
      else
        let limit = (case castPageSize pageSize of Some l \<Rightarrow> l | None \<Rightarrow> of_nat (length instanceIDs))
        in (Inr \<lparr>gc_PageSize = Some limit,
                  gc_ProjectID = (\<lambda>s. (if apiErr = gcp_errProjectID then Inl ErrAPIError else Inr [], s)),
                  gc_Instances = gcp_sim_Instances model instanceIDs limit apiErr\<rparr>, s))"

definition gcp_LoaderSim ::
  "('v \<Rightarrow> (string \<times> int) res) \<Rightarrow> (string \<Rightarrow> Model res) \<Rightarrow> 'v \<Rightarrow> (unit gcp_factory \<times> compute_instances list) http_res" where
  "gcp_LoaderSim decode load params =
     bind_sum (load_simulation decode load params)
       (\<lambda>(model, apiErr). Inr (gcp_sim_factory model (node_names model) apiErr, mod_Instances model))"

definition gcp_sim_GetComputeInstances :: "Model \<Rightarrow> int \<Rightarrow> (unit, compute_instances list) pcall" where
  "gcp_sim_GetComputeInstances model apiErr = sim_instances (gcp_sim_factory model (node_names model) apiErr None) model"

lemma gcp_sim_GetComputeInstances_spec:
  "gcp_sim_GetComputeInstances model apiErr s = (if apiErr = gcp_errClientFactory then None else Some (Inr (mod_Instances model)), s)"
  by (simp add: gcp_sim_GetComputeInstances_def sim_instances_def gcp_sim_factory_def Let_def)

section \<open>Page sizes of the simulation\<close>

definition gcp_node_ok :: "Model \<Rightarrow> string \<Rightarrow> bool" where
  "gcp_node_ok model i \<longleftrightarrow>
     (case map_of (mod_Nodes model) i of
        None \<Rightarrow> False
      | Some node \<Rightarrow> snd (ParseUint 64 (mn_Name node)) \<and> 3 \<le> length (mn_NetLayers node))"

definition gcp_sim_instance :: "Model \<Rightarrow> string \<Rightarrow> gcp_instance" where
  "gcp_sim_instance model i =
     (let node = the (map_of (mod_Nodes model) i); layers = mn_NetLayers node
      in \<lparr>gi_Id = Some (of_nat (fst (ParseUint 64 (mn_Name node)))),
          gi_ResourceStatus = Some (Some \<lparr>gh_Cluster = Some (layers ! 2), gh_Block = Some (layers ! 1), gh_Subblock = Some (layers ! 0)\<rparr>)\<rparr>)"

definition gcp_selected :: "compute_instances \<Rightarrow> gcp_instance list \<Rightarrow> cluster \<Rightarrow> cluster" where
  "gcp_selected ci insts topo =
     fold (\<lambda>inst topo.
         case gi_Id inst of
           None \<Rightarrow> topo
         | Some i \<Rightarrow>
             if map_of (Instances ci) (show_nat (unat i)) \<noteq> None
             then (case gcp_topology (show_nat (unat i)) inst of Some t \<Rightarrow> Append t topo | None \<Rightarrow> topo) else topo) insts topo"

lemma gcp_selected_cut:
  "gcp_selected ci (map f xs) topo = gcp_selected ci (map f (drop n xs)) (gcp_selected ci (map f (take n xs)) topo)"
proof -
  have "gcp_selected ci (map f (take n xs @ drop n xs)) topo =
      gcp_selected ci (map f (drop n xs)) (gcp_selected ci (map f (take n xs)) topo)"
    by (simp only: map_append gcp_selected_def fold_append comp_apply)
  then show ?thesis by simp
qed

lemma gcp_items_selected:
  "\<forall>inst \<in> set insts. gi_Id inst \<noteq> None \<Longrightarrow> gcp_items ci None insts topo = Some (Inr (gcp_selected ci insts topo))"
  by (induction insts arbitrary: topo) (auto simp: gcp_selected_def Let_def)

lemma gcp_sim_items_full:
  assumes "\<forall>i \<in> set ids. gcp_node_ok model i"
  shows "gcp_sim_items model ids n = (if n \<le> length ids then Some (None, map (gcp_sim_instance model) (take n ids)) else None)"
  using assms
proof (induction model ids n rule: gcp_sim_items.induct)
  case (3 model i ids n)
  then obtain node where node: "map_of (mod_Nodes model) i = Some node" "snd (ParseUint 64 (mn_Name node))" "3 \<le> length (mn_NetLayers node)"
    by (auto simp: gcp_node_ok_def split: option.splits)
  then obtain val where val: "ParseUint 64 (mn_Name node) = (val, True)" by (cases "ParseUint 64 (mn_Name node)") simp
  obtain l0 l1 l2 ls where layers: "mn_NetLayers node = l0 # l1 # l2 # ls"
    using node(3) by (auto simp: numeral_3_eq_3 Suc_le_length_iff)
  have "gcp_sim_items model ids n = (if n \<le> length ids then Some (None, map (gcp_sim_instance model) (take n ids)) else None)"
    using 3(1) [OF node(1) val [symmetric] refl layers] 3(2) by simp
  then show ?case by (simp add: node(1) val layers gcp_sim_instance_def Let_def)
qed simp_all

definition page_token :: "nat \<Rightarrow> string option" where
  "page_token from = (if from = 0 then None else Some (show_nat from))"

lemma show_int_of_nat: "show_int (int n) = show_nat n"
  by (simp add: show_int_def)

lemma gcp_getPage_token: "from < 2 ^ 31 \<Longrightarrow> gcp_getPage (page_token from) = int from"
  using ParseInt_show [of 32 "int from"] by (simp add: gcp_getPage_def page_token_def show_int_def)

lemma gcp_sim_loop:
  assumes "\<forall>i \<in> set ids. gcp_node_ok model i" and "0 < unat ps" and "length ids < 2 ^ 31" and "pos < length ids"
    and "gr_PageToken req = page_token pos"
  shows "page_loop (gcp_fetch (gcp_sim_Instances model ids ps 0)) (\<lambda>page topo. gcp_items ci (gp_err page) (gp_items page) topo) gcp_next req topo () =
    Some (if unat ps dvd length ids - pos
          then Some (Inr (gcp_selected ci (map (gcp_sim_instance model) (drop pos ids)) topo)) else None, ())"
  using assms(4,5)
proof (induction "length ids - pos" arbitrary: pos req topo rule: less_induct)
  case less
  let ?n = "unat ps"
  have page_pos: "gcp_getPage (gr_PageToken req) = int pos" using less.prems assms(3) by (simp add: gcp_getPage_token)
  have "\<forall>i \<in> set (drop pos ids). gcp_node_ok model i" using assms(1) set_drop_subset by fast
  from gcp_sim_items_full [OF this, of ?n] have items: "gcp_sim_items model (drop pos ids) ?n =
      (if pos + ?n \<le> length ids then Some (None, map (gcp_sim_instance model) (take ?n (drop pos ids))) else None)"
    using less.prems(1) by auto
  show ?case
  proof (cases "pos + ?n \<le> length ids")
    case False
    then have "\<not> ?n dvd length ids - pos" using less.prems(1) by (auto dest: dvd_imp_le)
    then show ?thesis using False items page_pos
      by (subst page_loop.simps) (simp add: gcp_fetch_def gcp_sim_Instances_def gcp_errInstances_def Let_def)
  next
    case True
    let ?page = "\<lparr>gp_items = map (gcp_sim_instance model) (take ?n (drop pos ids)), gp_err = None,
        gp_token = (if pos + ?n < length ids then show_nat (pos + ?n) else [])\<rparr>"
    have fetch: "gcp_fetch (gcp_sim_Instances model ids ps 0) req () = (Some (Inr ?page), ())"
    proof -
      have to: "int pos + uint ps = int (pos + ?n)" by simp
      have "show_int (int (pos + ?n)) = show_nat (pos + ?n)" by (simp only: show_int_of_nat)
      then show ?thesis
        using True items
        unfolding gcp_fetch_def gcp_sim_Instances_def Let_def page_pos to of_nat_less_iff by (simp add: gcp_errInstances_def)
    qed
    have ids: "\<forall>inst \<in> set (gp_items ?page). gi_Id inst \<noteq> None" by (auto simp: gcp_sim_instance_def Let_def)
    note added = gcp_items_selected [OF ids, of ci topo]
    have dd: "drop (pos + ?n) ids = drop ?n (drop pos ids)" by (simp add: add.commute)
    have split: "gcp_selected ci (map (gcp_sim_instance model) (drop pos ids)) topo =
        gcp_selected ci (map (gcp_sim_instance model) (drop (pos + ?n) ids)) (gcp_selected ci (gp_items ?page) topo)"
      unfolding dd gcp_page.select_convs(1) by (rule gcp_selected_cut)
    show ?thesis
    proof (cases "pos + ?n < length ids")
      case more: True
      have "length ids - pos = (length ids - (pos + ?n)) + ?n" using True by simp
      then have dvd: "?n dvd length ids - pos \<longleftrightarrow> ?n dvd length ids - (pos + ?n)" by (metis dvd_add_left_iff dvd_refl)
      have "length ids - (pos + ?n) < length ids - pos" using assms(2) less.prems(1) by simp
      moreover have "gr_PageToken (req\<lparr>gr_PageToken := Some (show_nat (pos + ?n))\<rparr>) = page_token (pos + ?n)"
        using assms(2) by (simp add: page_token_def)
      ultimately show ?thesis
        using less.hyps [of "pos + ?n"] more fetch added split dvd
        by (subst page_loop.simps) (simp add: gcp_next_def)
    next
      case False
      then have "length ids = pos + ?n" using True by simp
      moreover from this have "gcp_selected ci (map (gcp_sim_instance model) (drop pos ids)) topo = gcp_selected ci (gp_items ?page) topo"
        using split by (simp add: gcp_selected_def)
      ultimately show ?thesis
        using False fetch added by (subst page_loop.simps) (simp add: gcp_next_def)
    qed
  qed
qed

section \<open>Properties\<close>

text \<open>
  The GCP simulation serves a region only when the page size divides the number of its nodes: then the
  topology is that of all listed instances that are asked for, and with any other page size the request panics
  on the last page.
\<close>

theorem gcp_sim_page_size:
  assumes "Region ci \<noteq> []" and "ids \<noteq> []" and "length ids < 2 ^ 31" and "\<forall>i \<in> set ids. gcp_node_ok model i"
    and "0 < n" and "n < 2 ^ 31" and "gcp_sim_factory model ids 0 (Some (int n)) () = (Inr client, ())"
  shows "fst (gcp_generateRegionInstanceTopology client project ci topo ()) =
    (if n dvd length ids then Some (Inr (gcp_selected ci (map (gcp_sim_instance model) ids) topo)) else None)"
proof -
  define ps :: "32 word" where "ps = word_of_int (int n)"
  have ps: "unat ps = n" using assms(6) by (simp add: ps_def unat_of_nat take_bit_nat_eq_self)
  have client: "gc_Instances client = gcp_sim_Instances model ids ps 0"
    using assms(7) by (auto simp: gcp_sim_factory_def gcp_errClientFactory_def castPageSize_def ps_def Let_def)
  let ?req = "\<lparr>gr_Project = project, gr_Zone = Region ci, gr_MaxResults = gc_PageSize client, gr_PageToken = None\<rparr>"
  have "gr_PageToken ?req = page_token 0" by (simp add: page_token_def)
  from gcp_sim_loop [OF assms(4) _ assms(3) _ this, of ps ci topo] show ?thesis
    using assms(1,2,5) ps by (simp add: gcp_generateRegionInstanceTopology_def paged_def client)
qed

definition sample_gcp_model :: Model where
  "sample_gcp_model =
     \<lparr>mod_Switches = [], mod_CapacityBlocks = [],
      mod_Nodes = map (\<lambda>i. (i, \<lparr>mn_Name = i, mn_Metadata = [], mn_Type = ''H100'', mn_NVLink = [],
        mn_NetLayers = [''leaf'', ''spine'', ''core''], mn_CapacityBlock = ''cb''\<rparr>)) [''1'', ''2'', ''3''],
      mod_Instances = []\<rparr>"

theorem gcp_sim_page_size_witness:
  "\<exists>client. gcp_sim_factory sample_gcp_model [''1'', ''2'', ''3''] 0 (Some 2) () = (Inr client, ()) \<and>
     fst (gcp_generateRegionInstanceTopology client [] \<lparr>Region = ''r'', Instances = [(''1'', ''n1'')]\<rparr> [] ()) = None"
proof -
  obtain client where client: "gcp_sim_factory sample_gcp_model [''1'', ''2'', ''3''] 0 (Some (int 2)) () = (Inr client, ())"
    by (simp add: gcp_sim_factory_def gcp_errClientFactory_def Let_def)
  have ok: "\<forall>i \<in> set [''1'', ''2'', ''3'']. gcp_node_ok sample_gcp_model i"
    by (simp add: gcp_node_ok_def sample_gcp_model_def ParseUint_def is_digit_def digits_val_def digit_val_def)
  have "fst (gcp_generateRegionInstanceTopology client [] \<lparr>Region = ''r'', Instances = [(''1'', ''n1'')]\<rparr> [] ()) = None"
    by (subst gcp_sim_page_size [OF _ _ _ ok _ _ client]) simp_all
  then show ?thesis using client by (intro exI [of _ client]) simp
qed

end
