(* ===== verification/Oci.thy ===== *)
theory Oci
  imports Paging Decode
begin

text \<open>
  \<open>pkg/providers/oci\<close>: the provider that asks the compute API (\<open>provider_api.go\<close>,
  \<open>instance_topology.go\<close>), the one that asks the nodes (\<open>provider_imds.go\<close>, \<open>imds.go\<close>) and the
  simulation (\<open>provider_sim.go\<close>). The clients, the SDK's configuration providers and \<open>json.Unmarshal\<close> are
  arguments; latencies and counters are left out.
\<close>

section \<open>Instance topology\<close>

record oci_request =
  or_CompartmentId :: string
  or_AvailabilityDomain :: "string option"
  or_Limit :: "int option"
  or_Page :: "string option"

record oci_host =
  oh_InstanceId :: "string option"
  oh_LocalBlockId :: "string option"
  oh_NetworkBlockId :: "string option"
  oh_HpcIslandId :: "string option"
  oh_GpuMemoryFabricId :: "string option"

record oci_response =
  ob_Items :: "oci_host list"
  ob_OpcNextPage :: "string option"

record 's oci_client =
  oc_TenantID :: string
  oc_Limit :: "int option"
  oc_ListAvailabilityDomains :: "string \<Rightarrow> ('s, string option list) service"
  oc_ListComputeHosts :: "oci_request \<Rightarrow> ('s, oci_response) service"

type_synonym 's oci_factory = "string \<Rightarrow> int option \<Rightarrow> 's \<Rightarrow> 's oci_client res \<times> 's"

definition oci_convert :: "oci_host \<Rightarrow> InstanceTopology res" where
  "oci_convert host =
     (case oh_InstanceId host of
        None \<Rightarrow> Inl ''missing InstanceId in ComputeHostSummary''
      | Some i \<Rightarrow>
          (case oh_LocalBlockId host of
             None \<Rightarrow> Inl (''missing LocalBlockId for instance '' @ quote i)
           | Some local_block \<Rightarrow>
               (case oh_NetworkBlockId host of
                  None \<Rightarrow> Inl (''missing NetworkBlockId for instance '' @ quote i)
                | Some network_block \<Rightarrow>
                    (case oh_HpcIslandId host of
                       None \<Rightarrow> Inl (''missing HpcIslandId for instance '' @ quote i)
                     | Some island \<Rightarrow>
                         Inr \<lparr>InstanceID = i, BlockID = local_block, BlockName = [], SpineID = network_block, SpineName = [],
                              DatacenterID = island, DatacenterName = [],
                              AcceleratorID = (case oh_GpuMemoryFabricId host of Some f \<Rightarrow> f | None \<Rightarrow> [])\<rparr>))))"

definition oci_add :: "(string, string) gomap \<Rightarrow> oci_host \<Rightarrow> cluster \<Rightarrow> cluster" where
  "oci_add instMap host topo =
     (case oci_convert host of
        Inl _ \<Rightarrow> topo
      | Inr inst \<Rightarrow> if map_of instMap (InstanceID inst) \<noteq> None then Append inst topo else topo)"

definition oci_next :: "oci_request \<Rightarrow> oci_response \<Rightarrow> oci_request option" where
  "oci_next req resp = map_option (\<lambda>p. req\<lparr>or_Page := Some p\<rparr>) (ob_OpcNextPage resp)"

definition getComputeHostSummary ::
  "'s oci_client \<Rightarrow> string option \<Rightarrow> (string, string) gomap \<Rightarrow> cluster \<Rightarrow> ('s, cluster) pcall" where
  "getComputeHostSummary client availabilityDomain instMap topo =
     paged (\<lambda>req. call_res StatusBadGateway ''failed to get hosts info: '' (oc_ListComputeHosts client req))
       (\<lambda>resp topo. Some (Inr (fold (oci_add instMap) (ob_Items resp) topo))) oci_next
       \<lparr>or_CompartmentId = oc_TenantID client, or_AvailabilityDomain = availabilityDomain, or_Limit = oc_Limit client, or_Page = None\<rparr> topo"

fun oci_all_domains ::
  "'s oci_client \<Rightarrow> (string, string) gomap \<Rightarrow> string option list \<Rightarrow> cluster \<Rightarrow> ('s, cluster) pcall" where
  "oci_all_domains client instMap [] topo s = (Some (Inr topo), s)"
| "oci_all_domains client instMap (ad # ads) topo s =
     then_pcall (getComputeHostSummary client ad instMap topo) (oci_all_domains client instMap ads) s"

definition oci_getComputeHostInfo ::
  "'s oci_factory \<Rightarrow> int option \<Rightarrow> compute_instances \<Rightarrow> cluster \<Rightarrow> ('s, cluster) pcall" where
  "oci_getComputeHostInfo factory pageSize ci topo =
     (if length (Region ci) = 0 then return_pcall (Inl (NewError StatusBadRequest ''must specify region''))
      else then_pcall (call_res StatusBadGateway ''failed to create API client: '' (answered (factory (Region ci) pageSize)))
        (\<lambda>client. then_pcall (call_res StatusBadGateway ''failed to get availability domains: ''
                     (oc_ListAvailabilityDomains client (oc_TenantID client)))
           (\<lambda>ads. oci_all_domains client (Instances ci) ads topo)))"

definition oci_generateInstanceTopology ::
  "'s oci_factory \<Rightarrow> int option \<Rightarrow> compute_instances list \<Rightarrow> ('s, cluster) pcall" where
  "oci_generateInstanceTopology factory pageSize cis =
     all_regions (oci_getComputeHostInfo factory pageSize) cis NewClusterTopology"

definition oci_GenerateTopologyConfig ::
  "'s oci_factory \<Rightarrow> int option \<Rightarrow> compute_instances list \<Rightarrow> ('s, vertex) pcall" where
  "oci_GenerateTopologyConfig factory pageSize instances =
     map_pcall (three_tier ''oci'' instances True) (oci_generateInstanceTopology factory pageSize instances)"

section \<open>Credentials\<close>

text \<open>
  The configuration is one from given credentials, the default one if it is usable, or that of the
  instance principal; the last two are arguments.
\<close>

datatype 'p oci_config = RawConfig string string string string string string | SdkConfig 'p

definition getConfigurationProvider ::
  "'p res \<Rightarrow> 'p res \<Rightarrow> (string, string) gomap \<Rightarrow> 'p oci_config http_res" where
  "getConfigurationProvider default_provider instance_principal creds =
     (if length creds \<noteq> 0
      then let missing = (\<lambda>k. Inl (NewError StatusBadRequest (''credentials error: missing '' @ k))); get = mget0 [] creds
           in if length (get ''tenancyId'') = 0 then missing ''tenancyId''
              else if length (get ''userId'') = 0 then missing ''userId''
              else if length (get ''region'') = 0 then missing ''region''
              else if length (get ''fingerprint'') = 0 then missing ''fingerprint''
              else if length (get ''privateKey'') = 0 then missing ''privateKey''
              else Inr (RawConfig (get ''tenancyId'') (get ''userId'') (get ''region'') (get ''fingerprint'') (get ''privateKey'')
                     (get ''passphrase''))
      else (case default_provider of
              Inr p \<Rightarrow> Inr (SdkConfig p)
            | Inl _ \<Rightarrow>
                (case instance_principal of
                   Inl err \<Rightarrow> Inl (NewError StatusUnauthorized (''unable to authenticate API: '' @ err))
                 | Inr p \<Rightarrow> Inr (SdkConfig p))))"

text \<open>The loader: the tenancy of the configuration, and a factory from the two clients of the SDK, set to a region if given.\<close>

definition oci_LoaderAPI ::
  "('p oci_config \<Rightarrow> string res) \<Rightarrow> ('p oci_config \<Rightarrow> string option \<Rightarrow> (string \<Rightarrow> ('s, string option list) service) res) \<Rightarrow>
   ('p oci_config \<Rightarrow> string option \<Rightarrow> (oci_request \<Rightarrow> ('s, oci_response) service) res) \<Rightarrow>
   'p oci_config http_res \<Rightarrow> 's oci_factory http_res" where
  "oci_LoaderAPI tenancy identity_client compute_client provider =
     bind_sum provider (\<lambda>provider.
       case tenancy provider of
         Inl err \<Rightarrow> Inl (NewError StatusBadGateway (''unable to get tenancy OCID from config: '' @ err))
       | Inr tenantID \<Rightarrow>
           Inr (\<lambda>region pageSize s.
             let reg = (if length region \<noteq> 0 then Some region else None)
             in case identity_client provider reg of
                  Inl err \<Rightarrow> (Inl (''unable to create identity client: '' @ err), s)
                | Inr list_domains \<Rightarrow>
                    (case compute_client provider reg of
                       Inl err \<Rightarrow> (Inl (''unable to get compute client: '' @ err), s)
                     | Inr hosts \<Rightarrow>
                         (Inr \<lparr>oc_TenantID = tenantID, oc_Limit = pageSize, oc_ListAvailabilityDomains = list_domains,
                               oc_ListComputeHosts = hosts\<rparr>, s))))"

section \<open>Instance metadata\<close>

record topologyData =
  td_GpuMemoryFabric :: string
  td_HPCIslandId :: string
  td_LocalBlock :: string
  td_NetworkBlock :: string

definition oci_IMDSURL :: string where
  "oci_IMDSURL = ''http://169.254.169.254/opc/v2''"

definition oci_pdshCmd :: "string \<Rightarrow> string" where
  "oci_pdshCmd url = ''echo $(curl -s -H '' @ quote ''Authorization: Bearer Oracle'' @ '' -L '' @ url @ '')''"

definition topology_line :: "(string \<Rightarrow> topologyData res) \<Rightarrow> string \<Rightarrow> (string, topologyData) gomap \<Rightarrow> (string, topologyData) gomap" where
  "topology_line unmarshal str topoMap =
     (case cut '': '' str of
        None \<Rightarrow> topoMap
      | Some (node, data) \<Rightarrow> (case unmarshal data of Inl _ \<Rightarrow> topoMap | Inr nodeTopology \<Rightarrow> mput node nodeTopology topoMap))"

definition parseTopologyOutput :: "(string \<Rightarrow> topologyData res) \<Rightarrow> string \<Rightarrow> (string, topologyData) gomap res" where
  "parseTopologyOutput unmarshal buff =
     (if \<exists>l \<in> set (split_on (CHR 0x0A) buff). max_token \<le> length l then Inl ''bufio.Scanner: token too long''
      else Inr (fold (topology_line unmarshal) (scan_lines buff) []))"

definition getHostTopology ::
  "'s exec \<Rightarrow> (string \<Rightarrow> topologyData res) \<Rightarrow> string list \<Rightarrow> 's \<Rightarrow> (string, topologyData) gomap res \<times> 's" where
  "getHostTopology exec unmarshal nodes =
     then_res (Pdsh exec (oci_pdshCmd (oci_IMDSURL @ ''/host/rdmaTopologyData'')) nodes [])
       (\<lambda>out s. (parseTopologyOutput unmarshal out, s))"

definition oci_instanceToNodeMap :: "'s exec \<Rightarrow> string list \<Rightarrow> 's \<Rightarrow> (string, string) gomap res \<times> 's" where
  "oci_instanceToNodeMap exec = pdsh_map exec (oci_pdshCmd (oci_IMDSURL @ ''/instance/id'')) False"

definition oci_getRegions :: "'s exec \<Rightarrow> string list \<Rightarrow> 's \<Rightarrow> (string, string) gomap res \<times> 's" where
  "oci_getRegions exec = pdsh_map exec (oci_pdshCmd (oci_IMDSURL @ ''/instance/region'')) True"

definition oci_GetNodeAnnotations :: "'s http_do \<Rightarrow> 's \<Rightarrow> (string, string) gomap res \<times> 's" where
  "oci_GetNodeAnnotations send =
     (let header = [(''Authorization'', ''Bearer Oracle'')]
      in then_res (wrap_err ''failed to execute instance/id IMDS request: ''
                    (HttpReq send ''GET'' (oci_IMDSURL @ ''/instance/id'') header))
           (\<lambda>inst. then_res (wrap_err ''failed to execute instance/region IMDS request: ''
                       (HttpReq send ''GET'' (oci_IMDSURL @ ''/instance/region'') header))
              (\<lambda>region s. (Inr (node_annotations inst region), s))))"

section \<open>The provider that asks the nodes\<close>

definition imds_instance :: "string \<Rightarrow> topologyData \<Rightarrow> InstanceTopology" where
  "imds_instance instanceID t =
     \<lparr>InstanceID = instanceID, BlockID = td_LocalBlock t, BlockName = [], SpineID = td_NetworkBlock t, SpineName = [],
      DatacenterID = td_HPCIslandId t, DatacenterName = [], AcceleratorID = td_GpuMemoryFabric t\<rparr>"

definition imds_getComputeHostInfo ::
  "'s exec \<Rightarrow> (string \<Rightarrow> topologyData res) \<Rightarrow> compute_instances \<Rightarrow> cluster \<Rightarrow> ('s, cluster) pcall" where
  "imds_getComputeHostInfo exec unmarshal ci topo =
     then_pcall (call_res StatusInternalServerError ''failed to get node topology: ''
         (answered (getHostTopology exec unmarshal (mvals (Instances ci)))))
       (\<lambda>topoMap. return_pcall (Inr (fold (\<lambda>(instanceID, node) topo.
           case map_of topoMap node of Some t \<Rightarrow> topo @ [imds_instance instanceID t] | None \<Rightarrow> topo) (Instances ci) topo)))"

definition imds_generateInstanceTopology ::
  "'s exec \<Rightarrow> (string \<Rightarrow> topologyData res) \<Rightarrow> compute_instances list \<Rightarrow> ('s, cluster) pcall" where
  "imds_generateInstanceTopology exec unmarshal cis =
     all_regions (imds_getComputeHostInfo exec unmarshal) cis NewClusterTopology"

definition imds_GenerateTopologyConfig ::
  "'s exec \<Rightarrow> (string \<Rightarrow> topologyData res) \<Rightarrow> compute_instances list \<Rightarrow> ('s, vertex) pcall" where
  "imds_GenerateTopologyConfig exec unmarshal instances =
     map_pcall (three_tier ''oci'' instances True) (imds_generateInstanceTopology exec unmarshal instances)"

definition imds_Instances2NodeMap :: "string list \<Rightarrow> (string, string) gomap" where
  "imds_Instances2NodeMap nodes = const_map (\<lambda>node. node) nodes"

section \<open>Simulation\<close>

definition oci_errClientFactory :: int where "oci_errClientFactory = 2"
definition oci_errListAvailabilityDomains :: int where "oci_errListAvailabilityDomains = 3"
definition oci_errListComputeHosts :: int where "oci_errListComputeHosts = 4"

definition oci_getPage :: "string option \<Rightarrow> int" where
  "oci_getPage page = (case page of None \<Rightarrow> 0 | Some t \<Rightarrow> fst (ParseInt 32 t))"

definition layer_at :: "string list \<Rightarrow> nat \<Rightarrow> string option" where
  "layer_at layers i = (if i < length layers then Some (layers ! i) else None)"

definition oci_sim_host :: "model_node \<Rightarrow> oci_host" where
  "oci_sim_host node =
     \<lparr>oh_InstanceId = Some (mn_Name node), oh_LocalBlockId = layer_at (mn_NetLayers node) 0,
      oh_NetworkBlockId = layer_at (mn_NetLayers node) 1, oh_HpcIslandId = layer_at (mn_NetLayers node) 2,
      oh_GpuMemoryFabricId = (if length (mn_NVLink node) \<noteq> 0 then Some (mn_NVLink node) else None)\<rparr>"

text \<open>As many hosts as the page size from an index on; there is no check against the number of instances.\<close>

fun oci_sim_items :: "Model \<Rightarrow> string list \<Rightarrow> nat \<Rightarrow> oci_host list option" where
  "oci_sim_items model ids 0 = Some []"
| "oci_sim_items model [] (Suc n) = None"
| "oci_sim_items model (i # ids) (Suc n) =
     (case map_of (mod_Nodes model) i of
        None \<Rightarrow> None
      | Some node \<Rightarrow> map_option (Cons (oci_sim_host node)) (oci_sim_items model ids n))"

definition oci_sim_ListComputeHosts ::
  "Model \<Rightarrow> string list \<Rightarrow> int \<Rightarrow> int \<Rightarrow> oci_request \<Rightarrow> (unit, oci_response) service" where
  "oci_sim_ListComputeHosts model instanceIDs pageSize apiErr req s =
     (if apiErr = oci_errListComputeHosts then (Some (Inl ErrAPIError), s)
      else
        let from = oci_getPage (or_Page req); to = max from (from + pageSize)
        in if from < 0 \<and> from < to then (None, s)
           else (case oci_sim_items model (drop (nat from) instanceIDs) (nat (to - from)) of
                   None \<Rightarrow> (None, s)
                 | Some items \<Rightarrow>
                     (Some (Inr \<lparr>ob_Items = items,
                        ob_OpcNextPage = (if to < int (length instanceIDs) then Some (show_int to) else None)\<rparr>), s)))"

definition oci_sim_ListAvailabilityDomains :: "int \<Rightarrow> string \<Rightarrow> (unit, string option list) service" where
  "oci_sim_ListAvailabilityDomains apiErr tenant s =
     (Some (if apiErr = oci_errListAvailabilityDomains then Inl ErrAPIError else Inr [Some ''ad'']), s)"

definition oci_sim_factory :: "Model \<Rightarrow> string list \<Rightarrow> int \<Rightarrow> unit oci_factory" where
  "oci_sim_factory model instanceIDs apiErr region pageSize s =
     (if apiErr = oci_errClientFactory then (Inl ErrAPIError, s)
      else
        let limit = (case pageSize of Some l \<Rightarrow> l | None \<Rightarrow> int (length instanceIDs))
        in (Inr \<lparr>oc_TenantID = ''simulation'', oc_Limit = Some limit,
                  oc_ListAvailabilityDomains = oci_sim_ListAvailabilityDomains apiErr,
                  oc_ListComputeHosts = oci_sim_ListComputeHosts model instanceIDs limit apiErr\<rparr>, s))"

definition oci_LoaderSim ::
  "('v \<Rightarrow> (string \<times> int) res) \<Rightarrow> (string \<Rightarrow> Model res) \<Rightarrow> 'v \<Rightarrow> (unit oci_factory \<times> compute_instances list) http_res" where
  "oci_LoaderSim decode load params =
     bind_sum (load_simulation decode load params)
       (\<lambda>(model, apiErr). Inr (oci_sim_factory model (node_names model) apiErr, mod_Instances model))"

definition oci_sim_GetComputeInstances :: "Model \<Rightarrow> int \<Rightarrow> (unit, compute_instances list) pcall" where
  "oci_sim_GetComputeInstances model apiErr = sim_instances (oci_sim_factory model (node_names model) apiErr [] None) model"

lemma oci_sim_GetComputeInstances_spec:
  "oci_sim_GetComputeInstances model apiErr s = (if apiErr = oci_errClientFactory then None else Some (Inr (mod_Instances model)), s)"
  by (simp add: oci_sim_GetComputeInstances_def sim_instances_def oci_sim_factory_def Let_def)

end
