(* ===== verification/Pods.thy ===== *)
theory Pods
  imports K8s Exec
begin

text \<open>
  The pod operations of \<open>internal/k8s/utils.go\<close>: listing pods by labels or of a daemon set, and running
  a command in a pod. The API server is reached through calls on the state \<open>'s\<close>; printing a set of
  labels as a selector is an argument.
\<close>

record pod =
  pod_Name :: string
  pod_Namespace :: string
  pod_Labels :: "(string, string) gomap"
  pod_NodeName :: string
  pod_Hostname :: string
  pod_Phase :: string
  pod_Conditions :: "(string \<times> string) list"

text \<open>A list call has a namespace, a label selector and a field selector.\<close>

type_synonym 's list_pods = "string \<Rightarrow> string \<Rightarrow> string \<Rightarrow> 's \<Rightarrow> pod list res \<times> 's"
type_synonym 's exec_pod = "string \<Rightarrow> string \<Rightarrow> string list \<Rightarrow> 's \<Rightarrow> string res \<times> 's"

definition GetPodsByLabels ::
  "'s list_pods \<Rightarrow> ((string, string) gomap \<Rightarrow> string) \<Rightarrow> string \<Rightarrow> (string, string) gomap \<Rightarrow> 's \<Rightarrow> pod list res \<times> 's" where
  "GetPodsByLabels list_pods selector namespace l = list_pods namespace (selector l) []"

text \<open>\<open>get_ds\<close> gives the labels that a daemon set selects its pods with.\<close>

definition GetDaemonSetPods ::
  "(string \<Rightarrow> string \<Rightarrow> 's \<Rightarrow> (string, string) gomap res \<times> 's) \<Rightarrow> 's list_pods \<Rightarrow> ((string, string) gomap \<Rightarrow> string) \<Rightarrow>
   string \<Rightarrow> string \<Rightarrow> string \<Rightarrow> 's \<Rightarrow> pod list res \<times> 's" where
  "GetDaemonSetPods get_ds list_pods selector name namespace nodename =
     then_res (get_ds namespace name)
       (\<lambda>l. list_pods namespace (selector l) (if length nodename \<noteq> 0 then ''spec.nodeName='' @ nodename else []))"

text \<open>A slice of strings as \<open>%v\<close> prints it.\<close>

definition show_list :: "string list \<Rightarrow> string" where
  "show_list xs = ''['' @ join '' '' xs @ '']''"

text \<open>
  \<open>new_executor\<close> prepares the call; running it gives the output, or what was written to the standard error
  and an error.
\<close>

definition ExecInPod ::
  "(string \<Rightarrow> string \<Rightarrow> string list \<Rightarrow> 'e res) \<Rightarrow> ('e \<Rightarrow> 's \<Rightarrow> ((string \<times> string) + string) \<times> 's) \<Rightarrow> 's exec_pod" where
  "ExecInPod new_executor stream name namespace cmd s =
     (let failed = ''failed to execute command '' @ show_list cmd @ '' in pod '' @ namespace @ ''/'' @ name @ '': ''
      in case new_executor name namespace cmd of
           Inl err \<Rightarrow> (Inl (failed @ err), s)
         | Inr executor \<Rightarrow>
             (case stream executor s of
                (Inl (stderr, err), s) \<Rightarrow> (Inl (failed @ stderr @ '': '' @ err), s)
              | (Inr stdout, s) \<Rightarrow> (Inr stdout, s)))"

end
