(* ===== verification/Slinky.thy ===== *)
theory Slinky
  imports Pods Slurm
begin

text \<open>
  \<open>pkg/engines/slinky/engine.go\<close>: the engine for SLURM on Kubernetes. It names the nodes by their SLURM
  hosts, generates the same configuration as the SLURM engine and writes it into a config map. The API server, the
  clock, decoding the parameters and printing selectors are arguments.
\<close>

section \<open>Parameters\<close>

record slinky_params = BaseParams +
  sk_Namespace :: string
  sk_PodSelector :: "(string, string) gomap"
  sk_NodeSelector :: "(string, string) gomap"
  sk_ConfigMapName :: string
  sk_ConfigPath :: string
  sk_podListOpt :: string
  sk_nodeListOpt :: "string option"

text \<open>The parameters that must be given; the code visits them in any order.\<close>

definition slinky_required :: "slinky_params \<Rightarrow> (string \<times> string) list" where
  "slinky_required p =
     [(KeyNamespace, sk_Namespace p), (KeyPodSelector, sk_podListOpt p),
      (KeyTopoConfigPath, sk_ConfigPath p), (KeyTopoConfigmapName, sk_ConfigMapName p)]"

definition slinky_getParameters ::
  "((string \<times> string) list \<Rightarrow> (string \<times> string) list) \<Rightarrow> ('p \<Rightarrow> slinky_params res) \<Rightarrow> ((string, string) gomap \<Rightarrow> string res) \<Rightarrow>
   ((string, string) gomap \<Rightarrow> string) \<Rightarrow> 'p \<Rightarrow> slinky_params res" where
  "slinky_getParameters order decode pod_selector node_selector params =
     bind_sum (decode params) (\<lambda>p.
     bind_sum (pod_selector (sk_PodSelector p)) (\<lambda>sel.
     let p = p\<lparr>sk_podListOpt := sel,
               sk_nodeListOpt := (if length (sk_NodeSelector p) \<noteq> 0 then Some (node_selector (sk_NodeSelector p)) else None)\<rparr>
     in case find (\<lambda>(key, val). length val = 0) (order (slinky_required p)) of
          Some (key, _) \<Rightarrow> Inl (''must specify engine parameter '' @ quote key)
        | None \<Rightarrow> Inr p))"

definition Slinky_Loader ::
  "('p \<Rightarrow> slinky_params res) \<Rightarrow> (unit \<Rightarrow> 'g res) \<Rightarrow> ('g \<Rightarrow> 'k res) \<Rightarrow> 'p \<Rightarrow> ('g \<times> 'k \<times> slinky_params) http_res" where
  "Slinky_Loader get_parameters in_cluster new_client params =
     bind_sum (with_code StatusBadRequest (get_parameters params)) (\<lambda>p.
     bind_sum (with_code StatusBadGateway (in_cluster ())) (\<lambda>cfg.
     bind_sum (with_code StatusBadGateway (new_client cfg)) (\<lambda>cl.
     Inr (cfg, cl, p))))"

section \<open>Compute instances\<close>

definition slinky_add_pod :: "pod \<Rightarrow> (string, string) gomap \<Rightarrow> (string, string) gomap" where
  "slinky_add_pod p nodeMap =
     (if \<not> IsPodReady (pod_Conditions p) then nodeMap
      else mput (pod_NodeName p)
             (case map_of (pod_Labels p) ''slurm.node.name'' of Some host \<Rightarrow> host | None \<Rightarrow> pod_Hostname p) nodeMap)"

definition slinky_node ::
  "(string, string) gomap \<Rightarrow> k8s_node \<Rightarrow> (string, (string, string) gomap) gomap \<times> string list \<Rightarrow>
   ((string, (string, string) gomap) gomap \<times> string list) http_res" where
  "slinky_node nodeMap node st =
     (case st of (regions, regionNames) \<Rightarrow>
        case map_of nodeMap (kn_Name node) of
          None \<Rightarrow> Inr st
        | Some hostName \<Rightarrow>
            (case map_of (kn_Annotations node) KeyNodeInstance of
               None \<Rightarrow> Inl (NewError StatusBadGateway
                         (''missing '' @ quote KeyNodeInstance @ '' annotation in node '' @ kn_Name node))
             | Some inst \<Rightarrow>
                 (case map_of (kn_Annotations node) KeyNodeRegion of
                    None \<Rightarrow> Inl (NewError StatusBadGateway
                              (''missing '' @ quote KeyNodeRegion @ '' annotation in node '' @ kn_Name node))
                  | Some region \<Rightarrow>
                      Inr (mput region (mput inst hostName (mget0 [] regions region)) regions,
                           if map_of regions region = None then regionNames @ [region] else regionNames))))"

definition slinky_getComputeInstances :: "k8s_node list \<Rightarrow> (string, string) gomap \<Rightarrow> compute_instances list http_res" where
  "slinky_getComputeInstances nodes nodeMap =
     bind_sum (fold_sum (slinky_node nodeMap) nodes ([], []))
       (\<lambda>(regions, regionNames). Inr (map (\<lambda>region. \<lparr>Region = region, Instances = mget0 [] regions region\<rparr>) regionNames))"

definition Slinky_GetComputeInstances ::
  "(string \<Rightarrow> 's \<Rightarrow> k8s_node list res \<times> 's) \<Rightarrow> 's list_pods \<Rightarrow> slinky_params \<Rightarrow> ('s, compute_instances list) call" where
  "Slinky_GetComputeInstances list_nodes list_pods p s =
     (case GetNodes list_nodes [] (sk_nodeListOpt p) s of
        (Inl err, s) \<Rightarrow> (Inl (NewError StatusBadGateway err), s)
      | (Inr nodes, s) \<Rightarrow>
          (case list_pods (sk_Namespace p) (sk_podListOpt p) [] s of
             (Inl err, s) \<Rightarrow> (Inl (NewError StatusBadGateway (''failed to list SLURM pods in the cluster: '' @ err)), s)
           | (Inr pods, s) \<Rightarrow>
               let nodeMap = fold slinky_add_pod pods []
               in if length nodeMap = 0
                  then (Inr [\<lparr>Region = ''bootstrap'', Instances = [(''ALL'', ''bootstrap-node'')]\<rparr>], s)
                  else (slinky_getComputeInstances nodes nodeMap, s)))"

subsection \<open>The instances are those of the Kubernetes engine with other names\<close>

text \<open>The nodes that run a ready pod, under their SLURM names.\<close>

definition slinky_hosts :: "(string, string) gomap \<Rightarrow> k8s_node list \<Rightarrow> k8s_node list" where
  "slinky_hosts nodeMap nodes =
     concat (map (\<lambda>node. case map_of nodeMap (kn_Name node) of None \<Rightarrow> [] | Some host \<Rightarrow> [node\<lparr>kn_Name := host\<rparr>]) nodes)"

definition annotated :: "k8s_node \<Rightarrow> bool" where
  "annotated node \<longleftrightarrow> map_of (kn_Annotations node) KeyNodeInstance \<noteq> None \<and> map_of (kn_Annotations node) KeyNodeRegion \<noteq> None"

lemma slinky_nodes:
  "fold_sum (slinky_node nodeMap) nodes st = Inr st' \<longleftrightarrow>
    list_all annotated (slinky_hosts nodeMap nodes) \<and> st' = fold node_step (slinky_hosts nodeMap nodes) st"
proof (induction nodes arbitrary: st)
  case (Cons node nodes)
  show ?case
  proof (cases "map_of nodeMap (kn_Name node)")
    case (Some host)
    show ?thesis
    proof (cases "annotated node")
      case True
      then obtain inst region where "map_of (kn_Annotations node) KeyNodeInstance = Some inst"
        "map_of (kn_Annotations node) KeyNodeRegion = Some region" by (auto simp: annotated_def)
      then have "slinky_node nodeMap node st = Inr (node_step (node\<lparr>kn_Name := host\<rparr>) st)"
        using Some by (cases st) (simp add: slinky_node_def node_step_def)
      then show ?thesis using Cons [of "node_step (node\<lparr>kn_Name := host\<rparr>) st"] Some True
        by (simp add: slinky_hosts_def annotated_def)
    next
      case False
      then have "\<exists>err. slinky_node nodeMap node st = Inl err"
        using Some by (cases st) (auto simp: slinky_node_def annotated_def split: option.splits)
      then obtain err where "slinky_node nodeMap node st = Inl err" ..
      then show ?thesis using Some False by (auto simp: slinky_hosts_def annotated_def)
    qed
  qed (use Cons in \<open>cases st, auto simp: slinky_node_def slinky_hosts_def\<close>)
qed (auto simp: slinky_hosts_def)

lemma slinky_getComputeInstances_k8s:
  "slinky_getComputeInstances nodes nodeMap = Inr cis \<longleftrightarrow>
    list_all annotated (slinky_hosts nodeMap nodes) \<and> cis = getComputeInstances (slinky_hosts nodeMap nodes)"
proof (cases "fold_sum (slinky_node nodeMap) nodes ([], [])")
  case (Inl err)
  then have "\<not> list_all annotated (slinky_hosts nodeMap nodes)" using slinky_nodes by (metis Inl_Inr_False)
  then show ?thesis using Inl by (simp add: slinky_getComputeInstances_def bind_sum_def)
next
  case (Inr st)
  then show ?thesis using slinky_nodes [of nodeMap nodes "([], [])" st]
    by (cases st) (auto simp: slinky_getComputeInstances_def getComputeInstances_def bind_sum_def split: prod.splits)
qed

section \<open>The config map\<close>











section \<open>Output\<close>





section \<open>Writing the config map\<close>






subsection \<open>A store in memory\<close>










section \<open>From the graph to the config map\<close>













end
