(* ===== verification/Observer.thy ===== *)
theory Observer
  imports Httpreq Pods
begin

text \<open>
  \<open>pkg/node_observer\<close>: the controller that watches nodes and pods and asks the server for a new topology when
  something has changed. Informers, the work queue and the network are arguments; the work queue with the laws of
  its documentation (locale \<open>work_queue\<close>). The handlers of the informers and the worker run at the same time;
  the relation \<open>obs_step\<close> interleaves them.
\<close>

section \<open>Configuration\<close>

record 'l trigger =
  tr_NodeSelector :: "(string, string) gomap"
  tr_PodSelector :: "'l option"

record ('l, 'v) observer_config =
  oc_GenerateTopologyURL :: string
  oc_Trigger :: "'l trigger"
  oc_Provider :: "'v provider"
  oc_Engine :: "'v engine"
  oc_Params :: "(string, 'v) gomap"

definition NewConfigFromFile ::
  "(string \<Rightarrow> string res) \<Rightarrow> (string \<Rightarrow> ('l, 'v) observer_config res) \<Rightarrow> string \<Rightarrow> ('l, 'v) observer_config res" where
  "NewConfigFromFile read_file unmarshal fname =
     bind_sum (read_file fname) (\<lambda>data.
       case unmarshal data of
         Inl err \<Rightarrow> Inl (''failed to parse '' @ fname @ '': '' @ err)
       | Inr cfg \<Rightarrow>
           if length (oc_GenerateTopologyURL cfg) = 0 then Inl ''must specify generateTopologyUrl''
           else if length (tr_NodeSelector (oc_Trigger cfg)) = 0 \<and> tr_PodSelector (oc_Trigger cfg) = None
           then Inl ''must specify nodeSelector and/or podSelector in trigger''
           else Inr cfg)"

section \<open>Events\<close>

text \<open>What an informer hands to its handlers: an object, or a tombstone with the last object known.\<close>

datatype watched = NodeObject k8s_node | PodObject pod | DeletedFinalStateUnknown watched | OtherObject

datatype watch_event = Added watched | Updated watched watched | Deleted watched

text \<open>\<open>maps.Equal\<close>.\<close>

definition maps_Equal :: "('k, 'v) gomap \<Rightarrow> ('k, 'v) gomap \<Rightarrow> bool" where
  "maps_Equal m n \<longleftrightarrow> length m = length n \<and> list_all (\<lambda>(k, v). map_of n k = Some v) m"

definition nodeUpdateAffectsTopology :: "k8s_node \<Rightarrow> k8s_node \<Rightarrow> bool" where
  "nodeUpdateAffectsTopology oldNode newNode \<longleftrightarrow> \<not> maps_Equal (kn_Labels oldNode) (kn_Labels newNode)"

definition pod_ready :: "pod \<Rightarrow> bool" where
  "pod_ready p = IsPodReady (pod_Conditions p)"

fun node_handler :: "watch_event \<Rightarrow> bool" where
  "node_handler (Added (NodeObject node)) = True"
| "node_handler (Updated (NodeObject oldNode) (NodeObject newNode)) = nodeUpdateAffectsTopology oldNode newNode"
| "node_handler (Deleted (NodeObject node)) = True"
| "node_handler (Deleted (DeletedFinalStateUnknown (NodeObject node))) = True"
| "node_handler _ = False"

fun pod_handler :: "watch_event \<Rightarrow> bool" where
  "pod_handler (Added (PodObject p)) = pod_ready p"
| "pod_handler (Updated (PodObject oldPod) (PodObject newPod)) = (pod_ready oldPod \<noteq> pod_ready newPod)"
| "pod_handler (Deleted (PodObject p)) = True"
| "pod_handler (Deleted (DeletedFinalStateUnknown (PodObject p))) = True"
| "pod_handler _ = False"

text \<open>An update of a node counts exactly when some label has another value.\<close>

lemma maps_Equal_iff:
  assumes "distinct (mkeys m)" and "distinct (mkeys n)"
  shows "maps_Equal m n \<longleftrightarrow> map_of m = map_of n"
proof
  assume eq: "maps_Equal m n"
  then have sub: "set m \<subseteq> set n" using assms by (auto simp: maps_Equal_def list_all_iff dest: map_of_SomeD)
  have "card (set m) = card (set n)" using eq assms by (simp add: maps_Equal_def distinct_card distinct_map)
  then have "set m = set n" using sub by (intro card_subset_eq) simp_all
  then show "map_of m = map_of n" using assms by (simp add: map_of_inject_set)
next
  assume eq: "map_of m = map_of n"
  then have "set m = set n" using assms by (simp add: map_of_inject_set)
  moreover from this have "length m = length n" using assms by (metis distinct_card distinct_map)
  ultimately show "maps_Equal m n" using assms by (auto simp: maps_Equal_def list_all_iff)
qed

section \<open>The informer\<close>

text \<open>
  A factory is represented by the label selector that it lists objects with. The queue is created when the
  informer starts.
\<close>

record 'q status_informer =
  si_nodeFactory :: "string option"
  si_podFactory :: "string option"
  si_queue :: "'q option"

definition NewStatusInformer ::
  "((string, string) gomap \<Rightarrow> string) \<Rightarrow> ('l \<Rightarrow> string res) \<Rightarrow> 'l trigger \<Rightarrow> 'q status_informer res" where
  "NewStatusInformer node_selector pod_selector trigger =
     (let si = \<lparr>si_nodeFactory = None, si_podFactory = None, si_queue = None\<rparr>;
          si = (if length (tr_NodeSelector trigger) \<noteq> 0
                then si\<lparr>si_nodeFactory := Some (node_selector (tr_NodeSelector trigger))\<rparr> else si)
      in case tr_PodSelector trigger of
           None \<Rightarrow> Inr si
         | Some l \<Rightarrow> bind_sum (pod_selector l) (\<lambda>selector. Inr (si\<lparr>si_podFactory := Some selector\<rparr>)))"

text \<open>
  What the informer does with a factory: register its handlers, start it and wait for its cache, and shut it down.
  A shutdown that waits for ever has no result.
\<close>

record 's factory_ops =
  AddEventHandler :: "string \<Rightarrow> 's \<Rightarrow> string option \<times> 's"
  StartAndSync :: "string \<Rightarrow> 's \<Rightarrow> 's"
  ShutdownFactory :: "string \<Rightarrow> 's \<Rightarrow> unit option \<times> 's"

definition start_factory :: "'s factory_ops \<Rightarrow> string option \<Rightarrow> 's \<Rightarrow> string option \<times> 's" where
  "start_factory ops factory s =
     (case factory of
        None \<Rightarrow> (None, s)
      | Some selector \<Rightarrow>
          (case AddEventHandler ops selector s of
             (Some err, s) \<Rightarrow> (Some err, s)
           | (None, s) \<Rightarrow> (None, StartAndSync ops selector s)))"

definition startNodeInformer :: "'s factory_ops \<Rightarrow> 'q status_informer \<Rightarrow> 's \<Rightarrow> string option \<times> 's" where
  "startNodeInformer ops si = start_factory ops (si_nodeFactory si)"

definition startPodInformer :: "'s factory_ops \<Rightarrow> 'q status_informer \<Rightarrow> 's \<Rightarrow> string option \<times> 's" where
  "startPodInformer ops si = start_factory ops (si_podFactory si)"

datatype 'q got = Blocks | Item 'q | ShutDown

record 'q queue_ops =
  wq_new :: 'q
  wq_Add :: "'q \<Rightarrow> 'q"
  wq_Get :: "'q \<Rightarrow> 'q got"
  wq_Done :: "'q \<Rightarrow> 'q"
  wq_Forget :: "'q \<Rightarrow> 'q"
  wq_ShutDown :: "'q \<Rightarrow> 'q"

text \<open>The worker: its goroutine waits for an item, or handles one, or has ended, or was never started.\<close>

datatype worker = NotStarted | Waiting | Sending | Ended

record ('q, 's) observer =
  ob_si :: "'q status_informer"
  ob_worker :: worker
  ob_world :: 's

definition Start :: "'q queue_ops \<Rightarrow> 's factory_ops \<Rightarrow> 's factory_ops \<Rightarrow> ('q, 's) observer \<Rightarrow> string option \<times> ('q, 's) observer" where
  "Start qs nodes pods ob =
     (let si = (ob_si ob)\<lparr>si_queue := Some (wq_new qs)\<rparr>
      in case startNodeInformer nodes si (ob_world ob) of
           (Some err, s) \<Rightarrow> (Some err, ob\<lparr>ob_si := si, ob_world := s\<rparr>)
         | (None, s) \<Rightarrow>
             (case startPodInformer pods si s of
                (Some err, s) \<Rightarrow> (Some err, ob\<lparr>ob_si := si, ob_world := s\<rparr>)
              | (None, s) \<Rightarrow> (None, ob\<lparr>ob_si := si, ob_worker := Waiting, ob_world := s\<rparr>)))"

definition shut_factory :: "'s factory_ops \<Rightarrow> string option \<Rightarrow> 's \<Rightarrow> unit option \<times> 's" where
  "shut_factory ops factory s =
     (case factory of None \<Rightarrow> (Some (), s) | Some selector \<Rightarrow> ShutdownFactory ops selector s)"

text \<open>The nodes' factory, the pods' factory, the queue, in turn; no result when a factory keeps \<open>Stop\<close> waiting.\<close>

definition Stop ::
  "'q queue_ops \<Rightarrow> 's factory_ops \<Rightarrow> 's factory_ops \<Rightarrow> ('q, 's) observer \<Rightarrow> unit option \<times> ('q, 's) observer" where
  "Stop qs nodes pods ob =
     (case shut_factory nodes (si_nodeFactory (ob_si ob)) (ob_world ob) of
        (None, s) \<Rightarrow> (None, ob\<lparr>ob_world := s\<rparr>)
      | (Some _, s) \<Rightarrow>
          (case shut_factory pods (si_podFactory (ob_si ob)) s of
             (None, s) \<Rightarrow> (None, ob\<lparr>ob_world := s\<rparr>)
           | (Some _, s) \<Rightarrow>
               (Some (), ob\<lparr>ob_world := s,
                            ob_si := (ob_si ob)\<lparr>si_queue := map_option (wq_ShutDown qs) (si_queue (ob_si ob))\<rparr>\<rparr>)))"

definition set_queue :: "'q \<Rightarrow> ('q, 's) observer \<Rightarrow> ('q, 's) observer" where
  "set_queue q ob = ob\<lparr>ob_si := (ob_si ob)\<lparr>si_queue := Some q\<rparr>\<rparr>"

text \<open>An event of one of the factories, if it has been configured.\<close>

datatype source_event = NodeEvent watch_event | PodEvent watch_event

fun triggers :: "'q status_informer \<Rightarrow> source_event \<Rightarrow> bool" where
  "triggers si (NodeEvent e) = (si_nodeFactory si \<noteq> None \<and> node_handler e)"
| "triggers si (PodEvent e) = (si_podFactory si \<noteq> None \<and> pod_handler e)"

text \<open>\<open>processEvent\<close> in two parts: getting an item, and the request with what is deferred.\<close>

definition take_event :: "'q queue_ops \<Rightarrow> ('q, 's) observer \<Rightarrow> ('q, 's) observer got" where
  "take_event qs ob =
     (case si_queue (ob_si ob) of
        None \<Rightarrow> Blocks
      | Some q \<Rightarrow>
          (case wq_Get qs q of
             Blocks \<Rightarrow> Blocks
           | ShutDown \<Rightarrow> ShutDown
           | Item q \<Rightarrow> Item ((set_queue q ob)\<lparr>ob_worker := Sending\<rparr>)))"

definition send_request ::
  "'q queue_ops \<Rightarrow> ('s \<Rightarrow> ((string \<times> http_error option) \<times> int list \<times> 's) option) \<Rightarrow> ('q, 's) observer \<Rightarrow>
   ((string \<times> http_error option) \<times> ('q, 's) observer) option" where
  "send_request qs request ob =
     (case request (ob_world ob) of
        None \<Rightarrow> None
      | Some (r, sleeps, s) \<Rightarrow>
          Some (r, ob\<lparr>ob_si := (ob_si ob)\<lparr>si_queue := map_option (\<lambda>q. wq_Done qs (wq_Forget qs q)) (si_queue (ob_si ob))\<rparr>,
                      ob_worker := Waiting, ob_world := s\<rparr>))"

text \<open>The steps of handlers, worker and \<open>Stop\<close>, as far as it comes; the outside world may change whenever something is seen.\<close>

datatype obs_label = Seen source_event | Took | Sent "string \<times> http_error option" | Stopping | Left

inductive obs_step ::
  "'q queue_ops \<Rightarrow> 's factory_ops \<Rightarrow> 's factory_ops \<Rightarrow> ('s \<Rightarrow> ((string \<times> http_error option) \<times> int list \<times> 's) option) \<Rightarrow>
   ('q, 's) observer \<Rightarrow> obs_label \<Rightarrow> ('q, 's) observer \<Rightarrow> bool" for qs nodes pods request where
  seen: "si_queue (ob_si ob) = Some q \<Longrightarrow> q' = (if triggers (ob_si ob) e then wq_Add qs q else q) \<Longrightarrow>
    obs_step qs nodes pods request ob (Seen e) ((set_queue q' ob)\<lparr>ob_world := s\<rparr>)"
| took: "ob_worker ob = Waiting \<Longrightarrow> take_event qs ob = Item ob' \<Longrightarrow> obs_step qs nodes pods request ob Took ob'"
| sent: "ob_worker ob = Sending \<Longrightarrow> send_request qs request ob = Some (r, ob') \<Longrightarrow>
    obs_step qs nodes pods request ob (Sent r) ob'"
| stopping: "obs_step qs nodes pods request ob Stopping (snd (Stop qs nodes pods ob))"
| left: "ob_worker ob = Waiting \<Longrightarrow> take_event qs ob = ShutDown \<Longrightarrow>
    obs_step qs nodes pods request ob Left (ob\<lparr>ob_worker := Ended\<rparr>)"

inductive_cases obs_stepE: "obs_step qs nodes pods request ob l ob'"

inductive obs_run ::
  "'q queue_ops \<Rightarrow> 's factory_ops \<Rightarrow> 's factory_ops \<Rightarrow> ('s \<Rightarrow> ((string \<times> http_error option) \<times> int list \<times> 's) option) \<Rightarrow>
   ('q, 's) observer \<Rightarrow> obs_label list \<Rightarrow> ('q, 's) observer \<Rightarrow> bool" for qs nodes pods request ob0 where
  start: "obs_run qs nodes pods request ob0 [] ob0"
| step: "obs_run qs nodes pods request ob0 ls ob \<Longrightarrow> obs_step qs nodes pods request ob l ob' \<Longrightarrow>
    obs_run qs nodes pods request ob0 (ls @ [l]) ob'"

section \<open>The controller\<close>

record ('q, 's) controller =
  co_observer :: "('q, 's) observer"
  co_reqFunc :: "'s \<Rightarrow> http_request http_res \<times> 's"

definition NewController ::
  "('v request \<Rightarrow> string res) \<Rightarrow> (string \<Rightarrow> string http_res) \<Rightarrow> (string \<Rightarrow> string \<Rightarrow> string res) \<Rightarrow> (string \<Rightarrow> string) \<Rightarrow>
   ((string, string) gomap \<Rightarrow> string) \<Rightarrow> ('l \<Rightarrow> string res) \<Rightarrow> 's \<Rightarrow> ('l, 'v) observer_config \<Rightarrow> ('q, 's) controller res" where
  "NewController marshal get_url new_request canonical node_selector pod_selector s cfg =
     (case marshal (NewRequest (oc_Provider cfg) (oc_Engine cfg)) of
        Inl err \<Rightarrow> Inl (''failed to marshal payload: '' @ err)
      | Inr data \<Rightarrow>
          bind_sum (NewStatusInformer node_selector pod_selector (oc_Trigger cfg)) (\<lambda>si.
            Inr \<lparr>co_observer = \<lparr>ob_si = si, ob_worker = NotStarted, ob_world = s\<rparr>,
                 co_reqFunc = (\<lambda>s. (GetRequestFunc get_url new_request canonical ''POST''
                    [(''Content-Type'', ''application/json'')] data (oc_GenerateTopologyURL cfg), s))\<rparr>))"

definition controller_Start ::
  "'q queue_ops \<Rightarrow> 's factory_ops \<Rightarrow> 's factory_ops \<Rightarrow> ('q, 's) controller \<Rightarrow> string option \<times> ('q, 's) controller" where
  "controller_Start qs nodes pods c =
     (case Start qs nodes pods (co_observer c) of (err, ob) \<Rightarrow> (err, c\<lparr>co_observer := ob\<rparr>))"

definition controller_Stop ::
  "'q queue_ops \<Rightarrow> 's factory_ops \<Rightarrow> 's factory_ops \<Rightarrow> ('q, 's) controller \<Rightarrow> unit option \<times> ('q, 's) controller" where
  "controller_Stop qs nodes pods c =
     (case Stop qs nodes pods (co_observer c) of (r, ob) \<Rightarrow> (r, c\<lparr>co_observer := ob\<rparr>))"

lemma Start_fresh:
  "Start qs nodes pods ob = (None, ob0) \<Longrightarrow> ob_worker ob0 = Waiting \<and> si_queue (ob_si ob0) = Some (wq_new qs)"
  by (auto simp: Start_def Let_def split: prod.splits option.splits)

text \<open>An informer watches nodes or pods when its trigger says so.\<close>

lemma NewStatusInformer_watches:
  assumes "NewStatusInformer node_selector pod_selector trigger = Inr si"
  shows "si_nodeFactory si \<noteq> None \<longleftrightarrow> tr_NodeSelector trigger \<noteq> []" and "si_podFactory si \<noteq> None \<longleftrightarrow> tr_PodSelector trigger \<noteq> None"
  using assms by (auto simp: NewStatusInformer_def Let_def split: option.splits if_splits elim!: bind_sum_InrE)

section \<open>Stopping while the informers run\<close>

text \<open>
  The promise of a factory: its informers run from the start until the context that they were started with is
  cancelled, and a shutdown waits for them.
\<close>

locale informer_factory =
  fixes ops :: "'s factory_ops" and running cancelled :: "'s \<Rightarrow> bool"
  assumes handler: "running (snd (AddEventHandler ops sel s)) = running s \<and> cancelled (snd (AddEventHandler ops sel s)) = cancelled s"
    and starts: "\<not> cancelled s \<Longrightarrow> running (StartAndSync ops sel s) \<and> \<not> cancelled (StartAndSync ops sel s)"
    and waits: "running s \<Longrightarrow> \<not> cancelled s \<Longrightarrow> fst (ShutdownFactory ops sel s) = None"
    and returns: "cancelled s \<or> \<not> running s \<Longrightarrow> fst (ShutdownFactory ops sel s) = Some () \<and> \<not> running (snd (ShutdownFactory ops sel s))"
begin

lemma started:
  assumes "start_factory ops factory s = (None, s')" and "\<not> cancelled s"
  shows "(factory \<noteq> None \<longrightarrow> running s') \<and> \<not> cancelled s'"
proof (cases factory)
  case None
  then show ?thesis using assms by (simp add: start_factory_def)
next
  case (Some selector)
  obtain err s1 where h: "AddEventHandler ops selector s = (err, s1)" by (cases "AddEventHandler ops selector s")
  then have "\<not> cancelled s1" "s' = StartAndSync ops selector s1"
    using handler [of selector s] assms Some by (auto simp: start_factory_def split: option.splits)
  then show ?thesis using starts [of s1 selector] by simp
qed

end

text \<open>Two factories with the same context; the start of the second leaves the informers of the first running.\<close>

locale informer_factories =
  nodes: informer_factory nf nodes_run cancelled + pods: informer_factory pf pods_run cancelled
  for nf pf :: "'s factory_ops" and nodes_run pods_run cancelled :: "'s \<Rightarrow> bool" +
  assumes apart: "nodes_run (snd (AddEventHandler pf sel s)) = nodes_run s" "nodes_run (StartAndSync pf sel s) = nodes_run s"
begin

lemma started_apart:
  assumes "start_factory pf factory s = (None, s')"
  shows "nodes_run s' = nodes_run s"
proof (cases factory)
  case None
  then show ?thesis using assms by (simp add: start_factory_def)
next
  case (Some selector)
  obtain err s1 where "AddEventHandler pf selector s = (err, s1)" by (cases "AddEventHandler pf selector s")
  then show ?thesis using apart(1) [of selector s] apart(2) [of selector s1] assms Some
    by (auto simp: start_factory_def split: option.splits)
qed

lemma Stop_waits:
  assumes start: "Start qs nf pf ob = (None, ob0)" and ctx: "\<not> cancelled (ob_world ob)"
    and watched: "si_nodeFactory (ob_si ob) \<noteq> None \<or> si_podFactory (ob_si ob) \<noteq> None"
  shows "\<exists>s. Stop qs nf pf ob0 = (None, ob0\<lparr>ob_world := s\<rparr>)"
proof -
  let ?nf = "si_nodeFactory (ob_si ob)" and ?pf = "si_podFactory (ob_si ob)"
  obtain s1 s2 where n: "start_factory nf ?nf (ob_world ob) = (None, s1)" and p: "start_factory pf ?pf s1 = (None, s2)"
    and ob0: "ob0 = ob\<lparr>ob_si := (ob_si ob)\<lparr>si_queue := Some (wq_new qs)\<rparr>, ob_worker := Waiting, ob_world := s2\<rparr>"
    using start by (auto simp: Start_def startNodeInformer_def startPodInformer_def Let_def split: prod.splits option.splits)
  note n1 = nodes.started [OF n ctx] and p1 = pods.started [OF p]
  show ?thesis
  proof (cases ?nf)
    case (Some sel)
    then have "fst (ShutdownFactory nf sel s2) = None"
      using n1 p1 started_apart [OF p] by (intro nodes.waits) simp_all
    then show ?thesis using Some by (auto simp: Stop_def shut_factory_def ob0 split: prod.split)
  next
    case None
    then obtain sel where pod: "?pf = Some sel" using watched by blast
    then have "fst (ShutdownFactory pf sel s2) = None" using n1 p1 by (intro pods.waits) simp_all
    then show ?thesis using None pod by (auto simp: Stop_def shut_factory_def ob0 split: prod.split)
  qed
qed

end

text \<open>Factories that record what runs.\<close>

record informer_world =
  iw_nodes :: bool
  iw_pods :: bool
  iw_cancelled :: bool

definition tracked_nodes :: "informer_world factory_ops" where
  "tracked_nodes =
     \<lparr>AddEventHandler = \<lambda>_ s. (None, s), StartAndSync = \<lambda>_ s. s\<lparr>iw_nodes := True\<rparr>,
      ShutdownFactory = \<lambda>_ s. if iw_nodes s \<and> \<not> iw_cancelled s then (None, s) else (Some (), s\<lparr>iw_nodes := False\<rparr>)\<rparr>"

definition tracked_pods :: "informer_world factory_ops" where
  "tracked_pods =
     \<lparr>AddEventHandler = \<lambda>_ s. (None, s), StartAndSync = \<lambda>_ s. s\<lparr>iw_pods := True\<rparr>,
      ShutdownFactory = \<lambda>_ s. if iw_pods s \<and> \<not> iw_cancelled s then (None, s) else (Some (), s\<lparr>iw_pods := False\<rparr>)\<rparr>"

interpretation tracked: informer_factories tracked_nodes tracked_pods iw_nodes iw_pods iw_cancelled
  by unfold_locales (auto simp: tracked_nodes_def tracked_pods_def)

section \<open>No change goes unnoticed\<close>

text \<open>
  The promises of the work queue for its only item: an addition makes it pending, also while it is being
  processed, until it is handed out again, and it is handed out only when it is pending and not being processed.
\<close>

locale work_queue =
  fixes qs :: "'q queue_ops" and pending processing closed :: "'q \<Rightarrow> bool"
  assumes new: "\<not> pending (wq_new qs) \<and> \<not> processing (wq_new qs) \<and> \<not> closed (wq_new qs)"
    and add: "\<not> closed q \<Longrightarrow> pending (wq_Add qs q) \<and> processing (wq_Add qs q) = processing q \<and> \<not> closed (wq_Add qs q)"
    and get_item: "wq_Get qs q = Item q' \<Longrightarrow> pending q \<and> \<not> processing q \<and> \<not> pending q' \<and> processing q' \<and> closed q' = closed q"
    and get_ready: "pending q \<Longrightarrow> \<not> processing q \<Longrightarrow> \<exists>q'. wq_Get qs q = Item q'"
    and get_open: "\<not> closed q \<Longrightarrow> wq_Get qs q \<noteq> ShutDown"
    and finish: "pending (wq_Done qs q) = pending q \<and> \<not> processing (wq_Done qs q) \<and> closed (wq_Done qs q) = closed q"
    and forget: "pending (wq_Forget qs q) = pending q \<and> processing (wq_Forget qs q) = processing q \<and> closed (wq_Forget qs q) = closed q"

text \<open>The changes seen, and whether there was one after the last item was taken.\<close>

fun relevant :: "'q status_informer \<Rightarrow> obs_label \<Rightarrow> bool" where
  "relevant si (Seen e) = triggers si e"
| "relevant si _ = False"

definition unserved :: "'q status_informer \<Rightarrow> obs_label list \<Rightarrow> bool" where
  "unserved si ls = list_ex (relevant si) (takeWhile (\<lambda>l. l \<noteq> Took) (rev ls))"

lemma unserved_snoc: "unserved si (ls @ [l]) \<longleftrightarrow> (if l = Took then False else relevant si l \<or> unserved si ls)"
  by (simp add: unserved_def)

definition same_factories :: "'q status_informer \<Rightarrow> 'q status_informer \<Rightarrow> bool" where
  "same_factories si si' \<longleftrightarrow> si_nodeFactory si = si_nodeFactory si' \<and> si_podFactory si = si_podFactory si'"

lemma same_factories_triggers: "same_factories si si' \<Longrightarrow> triggers si e = triggers si' e"
  by (cases e) (auto simp: same_factories_def)

context work_queue begin

definition obs_inv :: "'q status_informer \<Rightarrow> obs_label list \<Rightarrow> ('q, 's) observer \<Rightarrow> bool" where
  "obs_inv si ls ob \<longleftrightarrow> same_factories (ob_si ob) si \<and> ob_worker ob \<in> {Waiting, Sending} \<and>
     (\<exists>q. si_queue (ob_si ob) = Some q \<and> \<not> closed q \<and> pending q = unserved si ls \<and> processing q = (ob_worker ob = Sending) \<and>
        length (filter (\<lambda>l. l = Took) ls) + (if pending q then 1 else 0) \<le> length (filter (relevant si) ls))"

lemma obs_inv_start:
  assumes "Start qs nodes pods ob = (None, ob0)"
  shows "obs_inv (ob_si ob0) [] ob0"
  using assms new by (auto simp: Start_def obs_inv_def unserved_def same_factories_def Let_def split: prod.splits option.splits)

lemma obs_inv_step:
  assumes inv: "obs_inv si ls ob" and step: "obs_step qs nodes pods request ob l ob'" and l: "l \<noteq> Stopping"
  shows "obs_inv si (ls @ [l]) ob'"
proof -
  obtain q where q: "si_queue (ob_si ob) = Some q" "\<not> closed q" "pending q = unserved si ls" "processing q = (ob_worker ob = Sending)"
    "length (filter (\<lambda>l. l = Took) ls) + (if pending q then 1 else 0) \<le> length (filter (relevant si) ls)"
    and si: "same_factories (ob_si ob) si" and w: "ob_worker ob \<in> {Waiting, Sending}"
    using inv unfolding obs_inv_def by blast
  from step show ?thesis
  proof (cases rule: obs_step.cases)
    case (seen q1 q' e s)
    have t: "triggers (ob_si ob) e = triggers si e" by (rule same_factories_triggers [OF si])
    show ?thesis
      using seen q si w t add [of q] by (auto simp: obs_inv_def set_queue_def unserved_snoc same_factories_def)
  next
    case took
    then obtain q' where g: "wq_Get qs q = Item q'" "ob' = (set_queue q' ob)\<lparr>ob_worker := Sending\<rparr>"
      using q by (auto simp: take_event_def split: got.splits)
    show ?thesis using took g q si get_item [OF g(1)] by (auto simp: obs_inv_def set_queue_def unserved_snoc same_factories_def)
  next
    case (sent r)
    then obtain s where "ob' = ob\<lparr>ob_si := (ob_si ob)\<lparr>si_queue := Some (wq_Done qs (wq_Forget qs q))\<rparr>, ob_worker := Waiting, ob_world := s\<rparr>"
      using q by (auto simp: send_request_def split: option.splits)
    then show ?thesis
      using sent q si finish [of "wq_Forget qs q"] forget [of q] by (auto simp: obs_inv_def unserved_snoc same_factories_def)
  next
    case left
    then have "wq_Get qs q = ShutDown" using q by (auto simp: take_event_def split: got.splits)
    then show ?thesis using q left get_open [OF q(2)] by simp
  qed (use l in simp)
qed

lemma obs_inv_run:
  "obs_run qs nodes pods request ob0 ls ob \<Longrightarrow> Stopping \<notin> set ls \<Longrightarrow> obs_inv (ob_si ob0) [] ob0 \<Longrightarrow> obs_inv (ob_si ob0) ls ob"
  by (induction rule: obs_run.induct) (auto intro: obs_inv_step)

lemma obs_take:
  assumes "obs_inv si ls ob" and "ob_worker ob = Waiting"
  shows "(\<exists>ob'. obs_step qs nodes pods request ob Took ob') \<longleftrightarrow> unserved si ls"
proof -
  obtain q where q: "si_queue (ob_si ob) = Some q" "pending q = unserved si ls" "\<not> processing q"
    using assms unfolding obs_inv_def by auto
  have "(\<exists>ob'. take_event qs ob = Item ob') \<longleftrightarrow> (\<exists>q'. wq_Get qs q = Item q')"
    using q(1) by (auto simp: take_event_def split: got.splits)
  also have "\<dots> \<longleftrightarrow> unserved si ls" using q(2,3) get_item get_ready by blast
  finally show ?thesis using assms(2) by (auto intro: obs_step.took elim: obs_stepE)
qed

lemma obs_serves:
  assumes inv: "obs_inv si ls ob" and requests: "\<And>s. \<exists>r. request s = Some r"
  shows "ob_worker ob \<in> {Waiting, Sending} \<and>
    (ob_worker ob = Waiting \<longrightarrow> ((\<exists>ob'. obs_step qs nodes pods request ob Took ob') \<longleftrightarrow> unserved si ls)) \<and>
    (ob_worker ob = Sending \<longrightarrow> (\<exists>r ob'. obs_step qs nodes pods request ob (Sent r) ob' \<and> ob_worker ob' = Waiting)) \<and>
    length (filter (\<lambda>l. l = Took) ls) \<le> length (filter (relevant si) ls)"
proof (intro conjI impI)
  show "ob_worker ob \<in> {Waiting, Sending}" "length (filter (\<lambda>l. l = Took) ls) \<le> length (filter (relevant si) ls)"
    using inv unfolding obs_inv_def by auto
  show "(\<exists>ob'. obs_step qs nodes pods request ob Took ob') \<longleftrightarrow> unserved si ls" if "ob_worker ob = Waiting"
    by (rule obs_take [OF inv that])
  show "\<exists>r ob'. obs_step qs nodes pods request ob (Sent r) ob' \<and> ob_worker ob' = Waiting" if w: "ob_worker ob = Sending"
  proof -
    obtain r sleeps s where "request (ob_world ob) = Some (r, sleeps, s)" using requests [of "ob_world ob"] by auto
    then have "\<exists>ob'. send_request qs request ob = Some (r, ob') \<and> ob_worker ob' = Waiting" by (simp add: send_request_def)
    then show ?thesis using obs_step.sent [OF w] by blast
  qed
qed

end

text \<open>A queue with flags for its only item.\<close>

definition flag_queue :: "(bool \<times> bool \<times> bool) queue_ops" where
  "flag_queue =
     \<lparr>wq_new = (False, False, False),
      wq_Add = (\<lambda>(pending, processing, closed). (if closed then pending else True, processing, closed)),
      wq_Get = (\<lambda>(pending, processing, closed).
         if pending \<and> \<not> processing then Item (False, True, closed) else if closed then ShutDown else Blocks),
      wq_Done = (\<lambda>(pending, processing, closed). (pending, False, closed)),
      wq_Forget = (\<lambda>q. q),
      wq_ShutDown = (\<lambda>(pending, processing, closed). (pending, processing, True))\<rparr>"

interpretation flags: work_queue flag_queue fst "\<lambda>q. fst (snd q)" "\<lambda>q. snd (snd q)"
  by unfold_locales (auto simp: flag_queue_def split: prod.splits if_splits)

lemma requests_return: "\<exists>r. DoRequestWithRetries send f parse_time clock s = Some r"
proof -
  have "0 < maxRetries" by (simp add: maxRetries_def)
  from http.loop_returns [OF this, of send f s parse_time clock "[]"]
  have "\<exists>r. request_loop send f parse_time clock 0 [] s = Some r" by blast
  then obtain r where "request_loop send f parse_time clock 0 [] s = Some r" ..
  then show ?thesis by (simp only: DoRequestWithRetries_def option.map(2)) (rule exI, rule refl)
qed

text \<open>
  C33. No change goes unnoticed and no request is idle: until the observer is stopped, its worker either waits
  or has a request under way, which returns; when it waits, it takes up work exactly when a relevant change was
  seen after it last did so, even one that came while a request was under way; and it never makes more requests
  than there were relevant changes.
\<close>

theorem observer_serves_changes:
  assumes queue: "work_queue qs pending processing closed"
    and start: "Start qs nodes pods ob = (None, ob0)"
    and run: "obs_run qs nodes pods (DoRequestWithRetries send f parse_time clock) ob0 ls ob'"
    and stop: "Stopping \<notin> set ls"
  shows "ob_worker ob' \<in> {Waiting, Sending} \<and>
    (ob_worker ob' = Waiting \<longrightarrow>
      ((\<exists>ob''. obs_step qs nodes pods (DoRequestWithRetries send f parse_time clock) ob' Took ob'') \<longleftrightarrow> unserved (ob_si ob0) ls)) \<and>
    (ob_worker ob' = Sending \<longrightarrow>
      (\<exists>r ob''. obs_step qs nodes pods (DoRequestWithRetries send f parse_time clock) ob' (Sent r) ob'' \<and> ob_worker ob'' = Waiting)) \<and>
    length (filter (\<lambda>l. l = Took) ls) \<le> length (filter (relevant (ob_si ob0)) ls)"
proof -
  have "work_queue.obs_inv pending processing closed (ob_si ob0) ls ob'"
    by (rule work_queue.obs_inv_run [OF queue run stop work_queue.obs_inv_start [OF queue start]])
  from work_queue.obs_serves [OF queue this requests_return] show ?thesis .
qed

definition sample_observer :: "(bool \<times> bool \<times> bool, unit) observer" where
  "sample_observer = \<lparr>ob_si = \<lparr>si_nodeFactory = Some ''gpu=true'', si_podFactory = None, si_queue = None\<rparr>,
     ob_worker = NotStarted, ob_world = ()\<rparr>"

definition sample_factory :: "unit factory_ops" where
  "sample_factory = \<lparr>AddEventHandler = \<lambda>_ s. (None, s), StartAndSync = \<lambda>_ s. s, ShutdownFactory = \<lambda>_ s. (Some (), s)\<rparr>"

definition sample_watched :: "string \<Rightarrow> watched" where
  "sample_watched clique = NodeObject \<lparr>kn_Name = ''n1'', kn_Annotations = [], kn_Labels = [(''clique'', clique)]\<rparr>"

theorem observer_serves_changes_witness:
  "\<exists>ob0 ob' ob'' r. Start flag_queue sample_factory sample_factory sample_observer = (None, ob0) \<and>
     obs_run flag_queue sample_factory sample_factory (DoRequestWithRetries (\<lambda>(_::unit) s. (Inl ([], None), s)) (\<lambda>s. (Inl (NewError 400 []), s)) (\<lambda>_. None) (\<lambda>_. 0))
       ob0 [Seen (NodeEvent (Added (sample_watched ''a''))), Took, Seen (NodeEvent (Updated (sample_watched ''a'') (sample_watched ''b'')))] ob' \<and>
     obs_step flag_queue sample_factory sample_factory
       (DoRequestWithRetries (\<lambda>(_::unit) s. (Inl ([], None), s)) (\<lambda>s. (Inl (NewError 400 []), s)) (\<lambda>_. None) (\<lambda>_. 0)) ob' (Sent r) ob''"
proof -
  let ?req = "DoRequestWithRetries (\<lambda>(_::unit) s. (Inl ([], None), s)) (\<lambda>s. (Inl (NewError 400 []), s)) (\<lambda>_. None) (\<lambda>_. 0) :: unit \<Rightarrow> _"
  let ?step = "obs_step flag_queue sample_factory sample_factory ?req"
    and ?run = "obs_run flag_queue sample_factory sample_factory ?req"
  let ?e1 = "NodeEvent (Added (sample_watched ''a''))"
    and ?e2 = "NodeEvent (Updated (sample_watched ''a'') (sample_watched ''b''))"
  let ?ob = "\<lambda>q w. \<lparr>ob_si = \<lparr>si_nodeFactory = Some ''gpu=true'', si_podFactory = None, si_queue = Some q\<rparr>, ob_worker = w, ob_world = ()\<rparr>"
  let ?ob0 = "?ob (False, False, False) Waiting" and ?ob1 = "?ob (True, False, False) Waiting"
    and ?ob2 = "?ob (False, True, False) Sending" and ?ob3 = "?ob (True, True, False) Sending"
  have start: "Start flag_queue sample_factory sample_factory sample_observer = (None, ?ob0)"
    by (simp add: Start_def sample_observer_def startNodeInformer_def startPodInformer_def start_factory_def sample_factory_def
      flag_queue_def Let_def)
  have "triggers (ob_si ?ob0) ?e1" by (simp add: sample_watched_def)
  then have s1: "?step ?ob0 (Seen ?e1) ?ob1"
    using obs_step.seen [of ?ob0 "(False, False, False)" "(True, False, False)" ?e1 flag_queue sample_factory sample_factory ?req "()"]
    by (simp add: set_queue_def flag_queue_def)
  have s2: "?step ?ob1 Took ?ob2"
    by (rule obs_step.took) (simp_all add: take_event_def flag_queue_def set_queue_def)
  have "triggers (ob_si ?ob2) ?e2"
    by (simp add: sample_watched_def nodeUpdateAffectsTopology_def maps_Equal_def)
  then have s3: "?step ?ob2 (Seen ?e2) ?ob3"
    using obs_step.seen [of ?ob2 "(False, True, False)" "(True, True, False)" ?e2 flag_queue sample_factory sample_factory ?req "()"]
    by (simp add: set_queue_def flag_queue_def)
  have run: "?run ?ob0 [Seen ?e1, Took, Seen ?e2] ?ob3"
    using obs_run.step [OF obs_run.step [OF obs_run.step [OF obs_run.start s1] s2] s3] by simp
  have "Stopping \<notin> set [Seen ?e1, Took, Seen ?e2]" by simp
  from observer_serves_changes [OF flags.work_queue_axioms start run this]
  have "\<exists>r ob''. ?step ?ob3 (Sent r) ob'' \<and> ob_worker ob'' = Waiting" by simp
  then show ?thesis using start run by blast
qed

end
