(* ===== verification/Crusoe.thy ===== *)
theory Crusoe
  imports Paging K8s
begin

text \<open>
  \<open>pkg/providers/crusoe\<close>: the provider that reads the topology out of the labels of the Kubernetes nodes
  (\<open>k8s.go\<close>, \<open>instance_topology.go\<close>, \<open>provider.go\<close>) and its simulation on a model
  (\<open>provider_sim.go\<close>). The API server, the decoder of the parameters and the clock are arguments; metrics
  and log messages are left out.
\<close>

section \<open>Labels\<close>

definition labelPartitionID :: string where "labelPartitionID = ''crusoe.ai/ib.partition.id''"
definition labelPartitionName :: string where "labelPartitionName = ''crusoe.ai/ib.partition.name''"
definition labelSwitchID :: string where "labelSwitchID = ''crusoe.ai/pod.id''"
definition labelGPUClique :: string where "labelGPUClique = ''nvidia.com/gpu.clique''"
definition nvlDomainPrefix :: string where "nvlDomainPrefix = ''nvl-''"
definition DefaultDatacenter :: string where "DefaultDatacenter = ''crusoe''"
definition DefaultCPUPartition :: string where "DefaultCPUPartition = ''cpu-partition''"
definition DefaultCPUPod :: string where "DefaultCPUPod = ''cpu-pod''"

record TopologyLabels =
  tl_PartitionID :: string
  tl_PartitionName :: string
  tl_PodID :: string

definition extractTopologyLabels :: "(string, string) gomap \<Rightarrow> TopologyLabels option" where
  "extractTopologyLabels labels =
     (let partitionID = mget0 [] labels labelPartitionID;
          partitionName = mget0 [] labels labelPartitionName;
          podID = mget0 [] labels labelSwitchID
      in if partitionID = [] \<or> podID = [] then None
         else Some \<lparr>tl_PartitionID = partitionID,
                    tl_PartitionName = (if partitionName = [] then partitionID else partitionName), tl_PodID = podID\<rparr>)"

definition extractNVLinkDomain :: "(string, string) gomap \<Rightarrow> string" where
  "extractNVLinkDomain labels =
     (let clique = mget0 [] labels labelGPUClique in if clique = [] then [] else nvlDomainPrefix @ clique)"

section \<open>Instance topology\<close>

record extractionStats =
  es_success :: nat
  es_skipped :: nat
  es_badLabels :: nat

definition getRequestedNodeIDs :: "compute_instances list \<Rightarrow> string list option http_res" where
  "getRequestedNodeIDs instances =
     (if length instances > 1 then Inl (NewError StatusBadRequest ''Crusoe does not support multi-region topology requests'')
      else case instances of
             [] \<Rightarrow> Inr None
           | ci # _ \<Rightarrow> if length (Instances ci) = 0 then Inr None else Inr (Some (mkeys (Instances ci))))"

definition shouldSkipNode :: "string \<Rightarrow> string list option \<Rightarrow> bool" where
  "shouldSkipNode nodeName requestedIDs =
     (case requestedIDs of None \<Rightarrow> False | Some ids \<Rightarrow> nodeName \<notin> set ids)"

definition buildInstanceTopology :: "k8s_node \<Rightarrow> InstanceTopology" where
  "buildInstanceTopology node =
     (let nvlDomain = extractNVLinkDomain (kn_Labels node)
      in case extractTopologyLabels (kn_Labels node) of
           None \<Rightarrow>
             \<lparr>InstanceID = kn_Name node, BlockID = DefaultCPUPod, BlockName = DefaultCPUPod, SpineID = DefaultCPUPartition,
              SpineName = DefaultCPUPartition, DatacenterID = DefaultDatacenter, DatacenterName = DefaultDatacenter,
              AcceleratorID = nvlDomain\<rparr>
         | Some labels \<Rightarrow>
             \<lparr>InstanceID = kn_Name node, BlockID = tl_PodID labels, BlockName = ''pod-'' @ tl_PodID labels,
              SpineID = tl_PartitionID labels, SpineName = ''partition-'' @ tl_PartitionName labels,
              DatacenterID = DefaultDatacenter, DatacenterName = DefaultDatacenter,
              AcceleratorID = (if nvlDomain \<noteq> [] then nvlDomain else tl_PartitionID labels)\<rparr>)"

definition resolveEmptyTopologyError :: "extractionStats \<Rightarrow> http_error" where
  "resolveEmptyTopologyError stats =
     (if es_badLabels stats > 0
      then NewError StatusInternalServerError
             (''found matching nodes but '' @ show_nat (es_badLabels stats) @ '' were missing topology labels'')
      else NewError StatusNotFound ''no requested nodes found in cluster'')"

definition crusoe_node :: "string list option \<Rightarrow> k8s_node \<Rightarrow> cluster \<times> extractionStats \<Rightarrow> cluster \<times> extractionStats" where
  "crusoe_node requestedIDs node st =
     (case st of (topo, stats) \<Rightarrow>
        if shouldSkipNode (kn_Name node) requestedIDs then (topo, stats\<lparr>es_skipped := es_skipped stats + 1\<rparr>)
        else (Append (buildInstanceTopology node) topo, stats\<lparr>es_success := es_success stats + 1\<rparr>))"

definition finish_topology :: "cluster \<times> extractionStats \<Rightarrow> cluster http_res" where
  "finish_topology st =
     (case st of (topo, stats) \<Rightarrow> if es_success stats = 0 then Inl (resolveEmptyTopologyError stats) else Inr topo)"

definition no_stats :: extractionStats where
  "no_stats = \<lparr>es_success = 0, es_skipped = 0, es_badLabels = 0\<rparr>"

definition crusoe_generateInstanceTopology ::
  "(string \<Rightarrow> 's \<Rightarrow> k8s_node list res \<times> 's) \<Rightarrow> string option \<Rightarrow> compute_instances list \<Rightarrow> ('s, cluster) call" where
  "crusoe_generateInstanceTopology list_nodes nodeListOpt instances s =
     (case getRequestedNodeIDs instances of
        Inl err \<Rightarrow> (Inl err, s)
      | Inr requestedIDs \<Rightarrow>
          (case GetNodes list_nodes [] nodeListOpt s of
             (Inl err, s) \<Rightarrow> (Inl (NewError StatusBadGateway (''failed to list nodes: '' @ err)), s)
           | (Inr nodes, s) \<Rightarrow> (finish_topology (fold (crusoe_node requestedIDs) nodes (NewClusterTopology, no_stats)), s)))"

section \<open>Provider\<close>

definition defaultNodeSelector :: "(string, string) gomap" where
  "defaultNodeSelector = [(''slurm.crusoe.ai/compute-node-type'', ''true'')]"

text \<open>The decoder gives the node selector of the parameters; the result is the selector as text.\<close>

definition crusoe_getParameters :: "('p \<Rightarrow> (string, string) gomap res) \<Rightarrow> ((string, string) gomap \<Rightarrow> string) \<Rightarrow> 'p \<Rightarrow> string option res" where
  "crusoe_getParameters decode selector params =
     bind_sum (decode params) (\<lambda>nodeSelector.
       Inr (Some (selector (if length nodeSelector = 0 then defaultNodeSelector else nodeSelector))))"

definition crusoe_Loader ::
  "('p \<Rightarrow> (string, string) gomap res) \<Rightarrow> ((string, string) gomap \<Rightarrow> string) \<Rightarrow> (unit \<Rightarrow> 'g res) \<Rightarrow> ('g \<Rightarrow> 'k res) \<Rightarrow> 'p \<Rightarrow>
   ('g \<times> 'k \<times> string option) http_res" where
  "crusoe_Loader decode selector in_cluster new_client params =
     bind_sum (with_code StatusBadRequest (crusoe_getParameters decode selector params)) (\<lambda>p.
     case in_cluster () of
       Inl err \<Rightarrow> Inl (NewError StatusBadGateway (''failed to get in-cluster config: '' @ err))
     | Inr cfg \<Rightarrow>
         (case new_client cfg of
            Inl err \<Rightarrow> Inl (NewError StatusBadGateway (''failed to create kubernetes client: '' @ err))
          | Inr cl \<Rightarrow> Inr (cfg, cl, p)))"

definition setGeneratedAt :: "string \<Rightarrow> vertex \<Rightarrow> vertex" where
  "setGeneratedAt now root =
     Vertex (Name root) (ID root) (Vertices root) (mput ''generated_at'' now (Metadata root))"

definition crusoe_GenerateTopologyConfig ::
  "(string \<Rightarrow> 's \<Rightarrow> k8s_node list res \<times> 's) \<Rightarrow> ('s \<Rightarrow> string) \<Rightarrow> string option \<Rightarrow> compute_instances list \<Rightarrow> ('s, vertex) pcall" where
  "crusoe_GenerateTopologyConfig list_nodes now nodeListOpt instances s =
     (case crusoe_generateInstanceTopology list_nodes nodeListOpt instances s of
        (Inl err, s) \<Rightarrow> (Some (Inl err), s)
      | (Inr topo, s) \<Rightarrow>
          (map_option (\<lambda>root. Inr (setGeneratedAt (now s) root)) (three_tier ''crusoe'' instances False topo), s))"

definition crusoe_Instances2NodeMap :: "string list \<Rightarrow> (string, string) gomap" where
  "crusoe_Instances2NodeMap nodes = const_map (\<lambda>node. node) nodes"

definition crusoe_GetInstancesRegions :: "string list \<Rightarrow> (string, string) gomap" where
  "crusoe_GetInstancesRegions nodes = const_map (\<lambda>node. ''local'') nodes"

definition crusoe_GetNodeAnnotations :: "string \<Rightarrow> (string, string) gomap" where
  "crusoe_GetNodeAnnotations nodeName = node_annotations nodeName ''local''"

section \<open>Simulation\<close>

definition crusoe_LoaderSim :: "('v \<Rightarrow> (string \<times> int) res) \<Rightarrow> (string \<Rightarrow> Model res) \<Rightarrow> 'v \<Rightarrow> Model http_res" where
  "crusoe_LoaderSim decode load params =
     bind_sum (with_code StatusBadRequest (GetSimulationParams decode params)) (\<lambda>(path, _).
       case load path of
         Inl err \<Rightarrow> Inl (NewError StatusBadRequest (''failed to load model: '' @ err))
       | Inr model \<Rightarrow> Inr model)"

definition findPodForCapacityBlock :: "Model \<Rightarrow> string \<Rightarrow> model_switch option" where
  "findPodForCapacityBlock model cbName = find (\<lambda>sw. cbName \<in> set (ms_CapacityBlocks sw)) (mod_Switches model)"

definition extractSimTopologyLabels :: "(string, string) gomap \<Rightarrow> TopologyLabels res" where
  "extractSimTopologyLabels metadata =
     (let partitionID = mget0 [] metadata ''partition_id''; podID = mget0 [] metadata ''pod_id'';
          partitionName = mget0 [] metadata ''partition_name''
      in if length partitionID = 0 then Inl (''missing or empty metadata key '' @ [CHR 0x27] @ ''partition_id'' @ [CHR 0x27])
         else if length podID = 0 then Inl (''missing or empty metadata key '' @ [CHR 0x27] @ ''pod_id'' @ [CHR 0x27])
         else Inr \<lparr>tl_PartitionID = partitionID,
                   tl_PartitionName = (if partitionName = [] then partitionID else partitionName), tl_PodID = podID\<rparr>)"

text \<open>The labels of a capacity block, and whether it is one of GPU nodes.\<close>

definition block_labels :: "Model \<Rightarrow> CapacityBlock \<Rightarrow> TopologyLabels \<times> bool" where
  "block_labels model cb =
     (let cpu = (\<lparr>tl_PartitionID = DefaultCPUPartition, tl_PartitionName = DefaultCPUPartition, tl_PodID = DefaultCPUPod\<rparr>, False)
      in case findPodForCapacityBlock model (cb_Name cb) of
           None \<Rightarrow> cpu
         | Some podSwitch \<Rightarrow>
             (case extractSimTopologyLabels (ms_Metadata podSwitch) of Inl _ \<Rightarrow> cpu | Inr labels \<Rightarrow> (labels, True)))"

definition sim_instance :: "TopologyLabels \<times> bool \<Rightarrow> string \<Rightarrow> InstanceTopology" where
  "sim_instance labels_gpu nodeName =
     (case labels_gpu of (labels, isGPU) \<Rightarrow>
        \<lparr>InstanceID = nodeName, BlockID = tl_PodID labels, BlockName = ''pod-'' @ tl_PodID labels,
         SpineID = tl_PartitionID labels, SpineName = ''partition-'' @ tl_PartitionName labels,
         DatacenterID = DefaultDatacenter, DatacenterName = DefaultDatacenter,
         AcceleratorID = (if isGPU then tl_PartitionID labels else [])\<rparr>)"

definition sim_node ::
  "string list option \<Rightarrow> TopologyLabels \<times> bool \<Rightarrow> string \<Rightarrow> cluster \<times> extractionStats \<Rightarrow> cluster \<times> extractionStats" where
  "sim_node requestedIDs labels nodeName st =
     (case st of (topo, stats) \<Rightarrow>
        if shouldSkipNode nodeName requestedIDs then (topo, stats\<lparr>es_skipped := es_skipped stats + 1\<rparr>)
        else (Append (sim_instance labels nodeName) topo, stats\<lparr>es_success := es_success stats + 1\<rparr>))"

definition buildTopologyFromModel :: "Model \<Rightarrow> compute_instances list \<Rightarrow> cluster http_res" where
  "buildTopologyFromModel model instances =
     (let requestedIDs = (case instances of
              [] \<Rightarrow> None | ci # _ \<Rightarrow> if length (Instances ci) > 0 then Some (mkeys (Instances ci)) else None)
      in finish_topology
           (fold (\<lambda>cb. fold (sim_node requestedIDs (block_labels model cb)) (cb_Nodes cb)) (mod_CapacityBlocks model)
              (NewClusterTopology, no_stats)))"

definition crusoe_sim_GenerateTopologyConfig :: "Model \<Rightarrow> string \<Rightarrow> compute_instances list \<Rightarrow> vertex http_res option" where
  "crusoe_sim_GenerateTopologyConfig model now instances =
     (if length instances > 1
      then Some (Inl (NewError StatusBadRequest ''Crusoe does not support multi-region topology requests''))
      else case buildTopologyFromModel model instances of
             Inl err \<Rightarrow> Some (Inl err)
           | Inr topo \<Rightarrow> map_option (\<lambda>root. Inr (setGeneratedAt now root)) (three_tier ''crusoe'' instances False topo))"

definition crusoe_sim_GetComputeInstances :: "Model \<Rightarrow> compute_instances list" where
  "crusoe_sim_GetComputeInstances model =
     [\<lparr>Region = ''local'',
       Instances = fold (\<lambda>cb. fold (\<lambda>node. mput node node) (cb_Nodes cb)) (mod_CapacityBlocks model) []\<rparr>]"

section \<open>What is selected\<close>

lemma crusoe_fold:
  "fold (crusoe_node ids) nodes (topo, stats) =
    (topo @ map buildInstanceTopology (filter (\<lambda>node. \<not> shouldSkipNode (kn_Name node) ids) nodes),
     stats\<lparr>es_success := es_success stats + length (filter (\<lambda>node. \<not> shouldSkipNode (kn_Name node) ids) nodes),
           es_skipped := es_skipped stats + length (filter (\<lambda>node. shouldSkipNode (kn_Name node) ids) nodes)\<rparr>)"
  by (induction nodes arbitrary: topo stats) (simp_all add: crusoe_node_def Append_def)

text \<open>
  One instance per listed node that is asked for, in the order of the list; without any the answer is 404: no
  node is ever counted as one with bad labels, so that the answer 500 does not occur.
\<close>

lemma crusoe_generateInstanceTopology_spec:
  assumes "getRequestedNodeIDs instances = Inr ids" and "list_nodes (case opt of None \<Rightarrow> [] | Some l \<Rightarrow> l) s = (Inr nodes, s')"
  shows "crusoe_generateInstanceTopology list_nodes opt instances s =
    (let wanted = filter (\<lambda>node. \<not> shouldSkipNode (kn_Name node) ids) nodes
     in (if wanted = [] then Inl (NewError StatusNotFound ''no requested nodes found in cluster'')
         else Inr (map buildInstanceTopology wanted), s'))"
  using assms
  by (simp add: crusoe_generateInstanceTopology_def GetNodes_def crusoe_fold finish_topology_def NewClusterTopology_def
    no_stats_def resolveEmptyTopologyError_def Let_def)

lemma extractNVLinkDomain_eq:
  "extractNVLinkDomain l \<noteq> [] \<Longrightarrow> extractNVLinkDomain l' = extractNVLinkDomain l \<longleftrightarrow> mget0 [] l' labelGPUClique = mget0 [] l labelGPUClique"
  by (auto simp: extractNVLinkDomain_def Let_def nvlDomainPrefix_def split: if_splits)

text \<open>Nodes with a clique are in the same block exactly when they have the same clique, with or without fabric labels.\<close>

lemma buildInstanceTopology_domain:
  assumes "mget0 [] (kn_Labels n) labelGPUClique \<noteq> []" and "mget0 [] (kn_Labels n') labelGPUClique \<noteq> []"
  shows "AcceleratorID (buildInstanceTopology n) = AcceleratorID (buildInstanceTopology n') \<longleftrightarrow>
    mget0 [] (kn_Labels n) labelGPUClique = mget0 [] (kn_Labels n') labelGPUClique"
  using assms by (auto simp: buildInstanceTopology_def extractNVLinkDomain_def nvlDomainPrefix_def Let_def split: option.splits)

text \<open>
  The simulation gives nodes of GPU blocks the instance that the provider builds from labels with the same
  values, but the switches of CPU nodes get other names: the provider does not put \<open>partition-\<close> and
  \<open>pod-\<close> in front of them.
\<close>

lemma sim_instance_gpu:
  assumes "extractTopologyLabels (kn_Labels node) = Some labels" and "mget0 [] (kn_Labels node) labelGPUClique = []"
  shows "buildInstanceTopology node = sim_instance (labels, True) (kn_Name node)"
  using assms by (simp add: buildInstanceTopology_def sim_instance_def extractNVLinkDomain_def)

lemma sim_instance_cpu_name:
  assumes "extractTopologyLabels (kn_Labels node) = None" and "findPodForCapacityBlock model (cb_Name cb) = None"
  shows "SpineName (buildInstanceTopology node) = ''cpu-partition'' \<and>
    SpineName (sim_instance (block_labels model cb) (kn_Name node)) = ''partition-cpu-partition''"
  using assms by (simp add: buildInstanceTopology_def sim_instance_def block_labels_def DefaultCPUPartition_def Let_def)

end
