(* ===== verification/Httpenv.thy ===== *)
theory Httpenv
  imports Httpreq Registry
begin

text \<open>
  What the providers with an HTTP interface need of the network, the URL codec and the clock, in one record, and
  the two calls of \<open>internal/httpreq\<close> with a request function made of it. The flag of \<open>he_send\<close> is
  \<open>insecureSkipVerify\<close>.
\<close>

record 's http_env =
  he_parse :: "string \<Rightarrow> url res"
  he_print :: "url \<Rightarrow> string"
  he_values :: "string \<Rightarrow> (string, string list) gomap"
  he_encode :: "(string, string list) gomap \<Rightarrow> string"
  he_new_request :: "string \<Rightarrow> string \<Rightarrow> string res"
  he_canonical :: "string \<Rightarrow> string"
  he_send :: "bool \<Rightarrow> http_request \<Rightarrow> 's \<Rightarrow> (string \<times> response option + response) \<times> 's"
  he_parse_time :: "string \<Rightarrow> int option"
  he_clock :: "'s \<Rightarrow> int"

definition env_request ::
  "'s http_env \<Rightarrow> string \<Rightarrow> (string, string) gomap \<Rightarrow> (string, string) gomap \<Rightarrow> string \<Rightarrow> string \<Rightarrow> string list \<Rightarrow> 's \<Rightarrow> http_request http_res \<times> 's" where
  "env_request env meth headers query payload baseUrl paths s =
     (GetRequestFunc (\<lambda>base. GetURL (he_parse env) (he_print env) (he_values env) (he_encode env) base query paths)
        (he_new_request env) (he_canonical env) meth headers payload baseUrl, s)"

text \<open>\<open>DoRequest\<close> without the response, as an HTTP result; \<open>DoRequestWithRetries\<close> without the sleeps.\<close>

definition env_do :: "'s http_env \<Rightarrow> bool \<Rightarrow> ('s \<Rightarrow> http_request http_res \<times> 's) \<Rightarrow> ('s, string) call" where
  "env_do env insecure f s =
     (case DoRequest (he_send env insecure) f s of
        ((_, body, None), s) \<Rightarrow> (Inr body, s)
      | ((_, _, Some err), s) \<Rightarrow> (Inl err, s))"

definition env_retry :: "'s http_env \<Rightarrow> bool \<Rightarrow> ('s \<Rightarrow> http_request http_res \<times> 's) \<Rightarrow> ('s, string) pcall" where
  "env_retry env insecure f s =
     (case DoRequestWithRetries (he_send env insecure) f (he_parse_time env) (he_clock env) s of
        None \<Rightarrow> (None, s)
      | Some ((body, None), _, s) \<Rightarrow> (Some (Inr body), s)
      | Some ((_, Some err), _, s) \<Rightarrow> (Some (Inl err), s))"

end
