(* ===== verification/Lambdai.thy ===== *)
theory Lambdai
  imports Paging Httpenv
begin

text \<open>
  \<open>pkg/providers/lambdai\<close>: the provider that asks the topology service of Lambda with HTTP requests
  (\<open>provider.go\<close>) and builds the instances from its answer (\<open>instance_topology.go\<close>). The network,
  the URL codec and the JSON decoder are arguments.
\<close>

record NVLinkInfo =
  nv_DomainID :: string
  nv_CliqueID :: string

record lambdai_instance =
  li_ID :: string
  li_NetworkPath :: "string list"
  li_NVLink :: "NVLinkInfo option"

record InstanceListRequest =
  lq_PageSize :: int
  lq_PageToken :: string

record InstanceListResponse =
  lr_Items :: "lambdai_instance list"
  lr_NextPageToken :: string

record 's lambdai_client =
  lc_PageSize :: int
  lc_InstanceList :: "InstanceListRequest \<Rightarrow> ('s, InstanceListResponse) service"

type_synonym 's lambdai_factory = "int option \<Rightarrow> ('s, 's lambdai_client) service"

section \<open>Instance topology\<close>

text \<open>The path from the nearest switch up; entries after the third are left out.\<close>

definition path_entry :: "string list \<Rightarrow> nat \<Rightarrow> string" where
  "path_entry path i = (if i < length path then path ! i else [])"

definition lambdai_topology :: "lambdai_instance \<Rightarrow> InstanceTopology" where
  "lambdai_topology inst =
     \<lparr>InstanceID = li_ID inst, BlockID = path_entry (li_NetworkPath inst) 0, BlockName = [],
      SpineID = path_entry (li_NetworkPath inst) 1, SpineName = [],
      DatacenterID = path_entry (li_NetworkPath inst) 2, DatacenterName = [],
      AcceleratorID =
        (case li_NVLink inst of
           None \<Rightarrow> []
         | Some nv \<Rightarrow> if length (nv_DomainID nv) = 0 \<or> length (nv_CliqueID nv) = 0 then []
                      else nv_DomainID nv @ ''.'' @ nv_CliqueID nv)\<rparr>"

definition lambdai_next :: "InstanceListRequest \<Rightarrow> InstanceListResponse \<Rightarrow> InstanceListRequest option" where
  "lambdai_next req resp =
     (if length (lr_NextPageToken resp) = 0 then None else Some (req\<lparr>lq_PageToken := lr_NextPageToken resp\<rparr>))"

definition lambdai_generateRegionInstanceTopology ::
  "'s lambdai_client \<Rightarrow> compute_instances \<Rightarrow> cluster \<Rightarrow> ('s, cluster) pcall" where
  "lambdai_generateRegionInstanceTopology client ci topo =
     (if length (Region ci) = 0 then return_pcall (Inl (NewError StatusBadRequest ''must specify region''))
      else paged (\<lambda>req. call_res StatusBadGateway ''failed to get instance list: '' (lc_InstanceList client req))
             (\<lambda>resp topo. Some (Inr (fold (\<lambda>inst. Append (lambdai_topology inst)) (lr_Items resp) topo))) lambdai_next
             \<lparr>lq_PageSize = lc_PageSize client, lq_PageToken = []\<rparr> topo)"

definition lambdai_generateInstanceTopology :: "'s lambdai_factory \<Rightarrow> int option \<Rightarrow> compute_instances list \<Rightarrow> ('s, cluster) pcall" where
  "lambdai_generateInstanceTopology factory pageSize cis =
     then_pcall (call_res StatusBadGateway ''failed to create API client: '' (factory pageSize))
       (\<lambda>client. all_regions (lambdai_generateRegionInstanceTopology client) cis NewClusterTopology)"

definition lambdai_GenerateTopologyConfig :: "'s lambdai_factory \<Rightarrow> int option \<Rightarrow> compute_instances list \<Rightarrow> ('s, vertex) pcall" where
  "lambdai_GenerateTopologyConfig factory pageSize instances =
     map_pcall (three_tier ''lambdai'' instances False) (lambdai_generateInstanceTopology factory pageSize instances)"

section \<open>The client\<close>

definition lambdai_query :: "string \<Rightarrow> InstanceListRequest \<Rightarrow> (string, string) gomap" where
  "lambdai_query workspaceID req =
     (let query = [(''workspace_id'', workspaceID)];
          query = (if lq_PageSize req > 0 then mput ''page_size'' (show_int (lq_PageSize req)) query else query)
      in if lq_PageToken req \<noteq> [] then mput ''page_token'' (lq_PageToken req) query else query)"

definition lambdai_InstanceList ::
  "'s http_env \<Rightarrow> (string \<Rightarrow> lambdai_instance list res) \<Rightarrow> string \<Rightarrow> string \<Rightarrow> string \<Rightarrow> InstanceListRequest \<Rightarrow> ('s, InstanceListResponse) service" where
  "lambdai_InstanceList env unmarshal baseURL bearerToken workspaceID req s =
     (case env_retry env False
             (env_request env ''GET'' [(''Authorization'', ''Bearer '' @ bearerToken)] (lambdai_query workspaceID req) [] baseURL
                [''/api/v1/instance-topology'']) s of
        (None, s) \<Rightarrow> (None, s)
      | (Some (Inl httpErr), s) \<Rightarrow> (Some (Inl (Error_Error httpErr)), s)
      | (Some (Inr body), s) \<Rightarrow>
          (case unmarshal body of
             Inl err \<Rightarrow> (Some (Inl (Error_Error (NewError StatusBadGateway err))), s)
           | Inr items \<Rightarrow> (Some (Inr \<lparr>lr_Items = items, lr_NextPageToken = []\<rparr>), s)))"

definition lambdai_getPageSize :: "int option \<Rightarrow> int" where
  "lambdai_getPageSize sz = (case sz of None \<Rightarrow> 200 | Some n \<Rightarrow> n)"

text \<open>
  The parameters are values of any type, and the factory asserts that the URL is a string: another value makes
  it panic.
\<close>

definition lambdai_Loader ::
  "'s http_env \<Rightarrow> (string \<Rightarrow> lambdai_instance list res) \<Rightarrow> ('v \<Rightarrow> string option) \<Rightarrow> (string, string) gomap \<Rightarrow> (string, 'v) gomap \<Rightarrow> 's lambdai_factory http_res" where
  "lambdai_Loader env unmarshal as_string creds params =
     (case map_of creds ''workspaceId'' of
        None \<Rightarrow> Inl (NewError StatusBadRequest ''missing workspace ID'')
      | Some workspaceID \<Rightarrow>
          (case map_of creds ''token'' of
             None \<Rightarrow> Inl (NewError StatusBadRequest ''missing bearer token'')
           | Some token \<Rightarrow>
               (case map_of params ''url'' of
                  None \<Rightarrow> Inl (NewError StatusBadRequest ''missing API URL'')
                | Some baseURL \<Rightarrow>
                    Inr (\<lambda>pageSize s.
                      case as_string baseURL of
                        None \<Rightarrow> (None, s)
                      | Some baseURL \<Rightarrow>
                          (Some (Inr \<lparr>lc_PageSize = lambdai_getPageSize pageSize,
                                      lc_InstanceList = lambdai_InstanceList env unmarshal baseURL token workspaceID\<rparr>), s)))))"

section \<open>One page\<close>

text \<open>
  The client never reports a next page, so that a region is served by one request and the loop ends; what comes
  after the first page of the service is lost.
\<close>

lemma lambdai_one_page:
  assumes "lambdai_InstanceList env unmarshal baseURL token ws req s = (Some (Inr resp), s')"
  shows "lambdai_next req resp = None"
  using assms by (auto simp: lambdai_InstanceList_def lambdai_next_def split: option.splits sum.splits prod.splits)

lemma lambdai_region:
  assumes ci: "Region ci \<noteq> []" and client: "lc_InstanceList client = lambdai_InstanceList env unmarshal baseURL token ws"
    and answer: "lambdai_InstanceList env unmarshal baseURL token ws \<lparr>lq_PageSize = lc_PageSize client, lq_PageToken = []\<rparr> s = (Some (Inr resp), s')"
  shows "lambdai_generateRegionInstanceTopology client ci topo s =
    (Some (Inr (topo @ map lambdai_topology (lr_Items resp))), s')"
proof -
  have append: "fold (\<lambda>inst. Append (lambdai_topology inst)) items topo = topo @ map lambdai_topology items" for items topo
    by (induction items arbitrary: topo) (simp_all add: Append_def)
  show ?thesis
    using ci lambdai_one_page [OF answer] answer
    by (simp add: lambdai_generateRegionInstanceTopology_def client paged_def page_loop.simps call_res_def append)
qed

text \<open>A URL that is no string is accepted by the loader and panics in the factory.\<close>

lemma lambdai_url_panic:
  assumes "lambdai_Loader env unmarshal as_string creds params = Inr factory" and "map_of params ''url'' = Some v" and "as_string v = None"
  shows "lambdai_GenerateTopologyConfig factory pageSize cis s = (None, s)"
  using assms
  by (auto simp: lambdai_Loader_def lambdai_GenerateTopologyConfig_def lambdai_generateInstanceTopology_def map_pcall_def then_pcall_def
    call_res_def split: option.splits)

end
