(* ===== verification/Netq.thy ===== *)
theory Netq
  imports Merger Paging Httpenv
begin

text \<open>
  \<open>pkg/providers/netq\<close>: the provider that builds the tree from the topology graph of a NetQ server
  (\<open>netq.go\<close>) and the blocks from the compute nodes of the NMX service (\<open>nmx.go\<close>). The network and the
  JSON decoders are arguments. Maps are visited in the order of the list.
\<close>

section \<open>Answers of the server\<close>

record CNode =
  cn_Id :: string
  cn_Name :: string
  cn_Tier :: int

record NetqResponse =
  nr_Links :: "string list"
  nr_Nodes :: "CNode list list"

record Premises =
  pm_ConfigKeyViewed :: bool
  pm_Name :: string
  pm_Namespace :: string
  pm_OPID :: int

record AuthOutput =
  ao_AccessToken :: string
  ao_Premises :: "Premises list"

section \<open>The tree of a topology graph\<close>

record netq_maps =
  nm_layer :: "(string, vertex) gomap"
  nm_nodeMap :: "(string, vertex) gomap"
  nm_tierMap :: "(string, int) gomap"

definition netq_node :: "(string, bool) gomap \<Rightarrow> CNode \<Rightarrow> netq_maps \<Rightarrow> netq_maps" where
  "netq_node inputNodes cnode st =
     (let v = Vertex (cn_Name cnode) (cn_Id cnode) [] [];
          st = (if cn_Tier cnode = -1
                then if mget0 False inputNodes (cn_Name cnode) then st\<lparr>nm_layer := mput (cn_Id cnode) v (nm_layer st)\<rparr> else st
                else st\<lparr>nm_nodeMap := mput (cn_Id cnode) v (nm_nodeMap st)\<rparr>)
      in st\<lparr>nm_tierMap := mput (cn_Id cnode) (cn_Tier cnode) (nm_tierMap st)\<rparr>)"

definition netq_link ::
  "(string, int) gomap \<Rightarrow> string \<Rightarrow> (string, (string, bool) gomap) gomap \<Rightarrow> (string, (string, bool) gomap) gomap" where
  "netq_link tierMap link linksUp =
     (case split_str ''-*-'' link of
        [nodeLow, nodeHigh] \<Rightarrow>
          if mget0 0 tierMap nodeLow = mget0 0 tierMap nodeHigh then linksUp
          else let (nodeLow, nodeHigh) =
                     (if mget0 0 tierMap nodeLow > mget0 0 tierMap nodeHigh then (nodeHigh, nodeLow) else (nodeLow, nodeHigh))
               in mput nodeLow (mput nodeHigh True (mget0 [] linksUp nodeLow)) linksUp
      | _ \<Rightarrow> linksUp)"

text \<open>
  One link up from a vertex of the layer: the upper vertex is taken from the switches that are not placed when it
  is met for the first time in this round. When it is not there the code dereferences a nil pointer.
\<close>

type_synonym round_state = "(string, vertex) gomap \<times> (string, vertex) gomap"

definition netq_up :: "string \<Rightarrow> vertex \<Rightarrow> string \<Rightarrow> round_state \<Rightarrow> round_state option" where
  "netq_up i w up st =
     (case st of (nextLayer, nodeMap) \<Rightarrow>
        case map_of nextLayer up of
          Some v \<Rightarrow> Some (mput up (Vertex (Name v) (ID v) (mput i w (Vertices v)) (Metadata v)) nextLayer, nodeMap)
        | None \<Rightarrow>
            (case map_of nodeMap up of
               None \<Rightarrow> None
             | Some v \<Rightarrow> Some (mput up (Vertex (Name v) (ID v) [(i, w)] (Metadata v)) nextLayer, mdel up nodeMap)))"

fun netq_ups :: "string \<Rightarrow> vertex \<Rightarrow> string list \<Rightarrow> round_state \<Rightarrow> round_state option" where
  "netq_ups i w [] st = Some st"
| "netq_ups i w (up # ups) st = (case netq_up i w up st of None \<Rightarrow> None | Some st \<Rightarrow> netq_ups i w ups st)"

fun netq_round :: "(string, (string, bool) gomap) gomap \<Rightarrow> (string, vertex) gomap \<Rightarrow> round_state \<Rightarrow> round_state option" where
  "netq_round linksUp [] st = Some st"
| "netq_round linksUp ((i, w) # layer) st =
     (case netq_ups i w (mkeys (mget0 [] linksUp i)) st of None \<Rightarrow> None | Some st \<Rightarrow> netq_round linksUp layer st)"

lemma netq_up_shrinks: "netq_up i w up (n, m) = Some (n', m') \<Longrightarrow> set (mkeys m') \<subseteq> set (mkeys m) \<and> length m' \<le> length m"
  by (auto simp del: set_map simp: netq_up_def length_delete_le split: option.splits)

lemma netq_ups_shrinks:
  "netq_ups i w ups (n, m) = Some (n', m') \<Longrightarrow> set (mkeys m') \<subseteq> set (mkeys m) \<and> length m' \<le> length m"
proof (induction ups arbitrary: n m)
  case (Cons up ups)
  then obtain n1 m1 where "netq_up i w up (n, m) = Some (n1, m1)" "netq_ups i w ups (n1, m1) = Some (n', m')"
    by (auto split: option.splits)
  with Cons.IH [of n1 m1] netq_up_shrinks [of i w up n m n1 m1] show ?case by (meson order_trans)
qed simp

lemma netq_round_shrinks:
  "netq_round linksUp layer (n, m) = Some (n', m') \<Longrightarrow> set (mkeys m') \<subseteq> set (mkeys m) \<and> length m' \<le> length m"
proof (induction layer arbitrary: n m)
  case (Cons p layer)
  obtain i w where p: "p = (i, w)" by (cases p)
  then obtain n1 m1 where "netq_ups i w (mkeys (mget0 [] linksUp i)) (n, m) = Some (n1, m1)"
    "netq_round linksUp layer (n1, m1) = Some (n', m')"
    using Cons.prems by (auto split: option.splits)
  with Cons.IH [of n1 m1] netq_ups_shrinks [of i w _ n m n1 m1] show ?case by (meson order_trans)
qed simp

text \<open>The rounds end because each but the last one places a switch.\<close>

function netq_loop :: "(string, (string, bool) gomap) gomap \<Rightarrow> (string, vertex) gomap \<Rightarrow> (string, vertex) gomap \<Rightarrow> (string, vertex) gomap option" where
  "netq_loop linksUp layer nodeMap =
     (case netq_round linksUp layer ([], nodeMap) of
        None \<Rightarrow> None
      | Some (nextLayer, nodeMap') \<Rightarrow>
          if length nodeMap = length nodeMap' then Some layer else netq_loop linksUp nextLayer nodeMap')"
  by pat_completeness auto
termination
  by (relation "measure (\<lambda>(linksUp, layer, nodeMap). length nodeMap)") (auto dest!: netq_round_shrinks)

declare netq_loop.simps [simp del]

definition netq_maps_of :: "NetqResponse \<Rightarrow> (string, bool) gomap \<Rightarrow> netq_maps" where
  "netq_maps_of resp inputNodes =
     fold (fold (netq_node inputNodes)) (nr_Nodes resp) \<lparr>nm_layer = [], nm_nodeMap = [], nm_tierMap = []\<rparr>"

definition netq_linksUp :: "NetqResponse \<Rightarrow> (string, bool) gomap \<Rightarrow> (string, (string, bool) gomap) gomap" where
  "netq_linksUp resp inputNodes = fold (netq_link (nm_tierMap (netq_maps_of resp inputNodes))) (nr_Links resp) []"

definition add_roots :: "vertex list \<Rightarrow> vertex \<Rightarrow> vertex" where
  "add_roots roots treeRoot =
     Vertex (Name treeRoot) (ID treeRoot) (fold (\<lambda>node. mput (ID node) node) roots (Vertices treeRoot)) (Metadata treeRoot)"

text \<open>The new tree root; \<open>None\<close> is the nil dereference, or a merger that does not return.\<close>

definition parseNetq :: "(string \<Rightarrow> NetqResponse list res) \<Rightarrow> vertex \<Rightarrow> string \<Rightarrow> (string, bool) gomap \<Rightarrow> vertex http_res option" where
  "parseNetq unmarshal treeRoot data inputNodes =
     (case unmarshal data of
        Inl err \<Rightarrow> Some (Inl (NewError StatusBadGateway (''netq output read failed: '' @ err)))
      | Inr resp \<Rightarrow>
          (case resp of
             [r] \<Rightarrow>
               let st = netq_maps_of r inputNodes
               in Option.bind (netq_loop (netq_linksUp r inputNodes) (nm_layer st) (nm_nodeMap st))
                    (\<lambda>layer. Option.bind (NewMerger (mvals layer))
                      (\<lambda>m. Option.bind (Merge m) (\<lambda>m. Some (Inr (add_roots (TopTier m) treeRoot)))))
           | _ \<Rightarrow> Some (Inl (NewError StatusBadGateway ''invalid NetQ response: multiple entries''))))"

section \<open>Requests\<close>

record netq_credentials =
  nc_user :: string
  nc_passwd :: string

record netq_json =
  nj_auth :: "string \<Rightarrow> AuthOutput res"
  nj_topology :: "string \<Rightarrow> NetqResponse list res"

definition netq_premises ::
  "'s http_env \<Rightarrow> netq_json \<Rightarrow> string \<Rightarrow> compute_instances list \<Rightarrow> string \<Rightarrow> string \<Rightarrow> vertex \<Rightarrow> ('s, vertex) pcall" where
  "netq_premises env json apiURL cis token opid treeRoot =
     then_pcall (lift_call (env_do env True
         (env_request env ''GET'' [(''Authorization'', ''Bearer '' @ token)] [] [] apiURL [''api/netq/auth/v1/select/opid'', opid])))
       (\<lambda>data.
          if length data = 0 then return_pcall (Inl (NewError StatusBadGateway ''failed to set NetQ OpID''))
          else case nj_auth json data of
                 Inl err \<Rightarrow> return_pcall (Inl (NewError StatusBadGateway (''failed to parse access token: '' @ err)))
               | Inr authOutput \<Rightarrow>
                   then_pcall (lift_call (env_do env True
                       (env_request env ''POST''
                          [(''Content-Type'', ''application/json''), (''Authorization'', ''Bearer '' @ ao_AccessToken authOutput)]
                          [(''timestamp'', ''0'')] ''{\"filters\": [], \"subgroupNestingDepth\":2}'' apiURL
                          [''api/netq/telemetry/v1/object/topologygraph/fetch-topology''])))
                     (\<lambda>data s. (parseNetq (nj_topology json) treeRoot data (GetNodeNameMap cis), s)))"

fun netq_all_premises :: "(string \<Rightarrow> vertex \<Rightarrow> ('s, vertex) pcall) \<Rightarrow> Premises list \<Rightarrow> vertex \<Rightarrow> ('s, vertex) pcall" where
  "netq_all_premises get [] treeRoot s = (Some (Inr treeRoot), s)"
| "netq_all_premises get (p # ps) treeRoot s =
     (if pm_ConfigKeyViewed p then then_pcall (get (show_int (pm_OPID p)) treeRoot) (netq_all_premises get ps) s
      else netq_all_premises get ps treeRoot s)"

definition netq_getNetworkTree ::
  "'s http_env \<Rightarrow> netq_json \<Rightarrow> string \<Rightarrow> netq_credentials \<Rightarrow> compute_instances list \<Rightarrow> ('s, vertex) pcall" where
  "netq_getNetworkTree env json apiURL cred cis =
     then_pcall (lift_call (env_do env True
         (env_request env ''POST'' [(''Content-Type'', ''application/json''), (''Accept'', ''application/json'')] []
            (''{\"username\":'' @ quote (nc_user cred) @ '', \"password\":'' @ quote (nc_passwd cred) @ ''}'') apiURL
            [''api/netq/auth/v1/login''])))
       (\<lambda>data.
          if length data = 0 then return_pcall (Inl (NewError StatusUnauthorized ''failed to login to NetQ server''))
          else case nj_auth json data of
                 Inl err \<Rightarrow> return_pcall (Inl (NewError StatusBadGateway (''failed to parse access token: '' @ err)))
               | Inr authOutput \<Rightarrow>
                   then_pcall (netq_all_premises (netq_premises env json apiURL cis (ao_AccessToken authOutput)) (ao_Premises authOutput)
                       (Vertex [] [] [] []))
                     (\<lambda>treeRoot. return_pcall
                        (if length (Vertices treeRoot) = 0
                         then Inl (NewError StatusBadGateway ''no topology available from the provided premises'')
                         else Inr treeRoot)))"

section \<open>NVLink domains\<close>

record ComputeNode =
  nn_Id :: string
  nn_Name :: string
  nn_DomainUUID :: string

definition parseComputeNodes :: "(string \<Rightarrow> ComputeNode list res) \<Rightarrow> string \<Rightarrow> domain_map http_res" where
  "parseComputeNodes unmarshal data =
     (case unmarshal data of
        Inl err \<Rightarrow> Inl (NewError StatusBadGateway (''nmx output read failed: '' @ err))
      | Inr computeNodes \<Rightarrow> Inr (fold (\<lambda>n. AddHost (nn_DomainUUID n) (nn_Name n) (nn_Name n)) computeNodes NewDomainMap))"

text \<open>Base64 with padding.\<close>

definition b64_char :: "nat \<Rightarrow> char" where
  "b64_char n = ''ABCDEFGHIJKLMNOPQRSTUVWXYZabcdefghijklmnopqrstuvwxyz0123456789+/'' ! n"

fun base64 :: "string \<Rightarrow> string" where
  "base64 [] = []"
| "base64 [a] = (let n = of_char a * 65536 in [b64_char (n div 262144), b64_char (n div 4096 mod 64), CHR ''='', CHR ''=''])"
| "base64 [a, b] =
     (let n = of_char a * 65536 + of_char b * 256
      in [b64_char (n div 262144), b64_char (n div 4096 mod 64), b64_char (n div 64 mod 64), CHR ''=''])"
| "base64 (a # b # c # s) =
     (let n = of_char a * 65536 + of_char b * 256 + of_char c
      in [b64_char (n div 262144), b64_char (n div 4096 mod 64), b64_char (n div 64 mod 64), b64_char (n mod 64)] @ base64 s)"

definition getNvlDomains ::
  "'s http_env \<Rightarrow> (string \<Rightarrow> ComputeNode list res) \<Rightarrow> string \<Rightarrow> netq_credentials \<Rightarrow> ('s, domain_map) call" where
  "getNvlDomains env unmarshal apiURL cred =
     then_call (env_do env True
         (env_request env ''GET'' [(''Authorization'', ''Basic '' @ base64 (nc_user cred @ '':'' @ nc_passwd cred))] [] [] apiURL
            [''nmx/v1/compute-nodes'']))
       (\<lambda>data. return_call (parseComputeNodes unmarshal data))"

section \<open>Provider\<close>

definition netq_getCred :: "(string, string) gomap \<Rightarrow> netq_credentials res" where
  "netq_getCred cred =
     (case map_of cred ''username'' of
        None \<Rightarrow> Inl ''username not provided''
      | Some user \<Rightarrow>
          (case map_of cred ''password'' of
             None \<Rightarrow> Inl ''password not provided''
           | Some passwd \<Rightarrow> Inr \<lparr>nc_user = user, nc_passwd = passwd\<rparr>))"

definition netq_getParams :: "('p \<Rightarrow> string res) \<Rightarrow> 'p \<Rightarrow> string res" where
  "netq_getParams decode params =
     (case decode params of
        Inl err \<Rightarrow> Inl (''failed to decode params: '' @ err)
      | Inr apiURL \<Rightarrow> if length apiURL = 0 then Inl ''apiUrl not provided'' else Inr apiURL)"

definition netq_Loader :: "('p \<Rightarrow> string res) \<Rightarrow> (string, string) gomap \<Rightarrow> 'p \<Rightarrow> (string \<times> netq_credentials) http_res" where
  "netq_Loader decode creds params =
     bind_sum (with_code StatusBadRequest (netq_getParams decode params)) (\<lambda>apiURL.
     bind_sum (with_code StatusBadRequest (netq_getCred creds)) (\<lambda>cred. Inr (apiURL, cred)))"

definition netq_GenerateTopologyConfig ::
  "'s http_env \<Rightarrow> netq_json \<Rightarrow> (string \<Rightarrow> ComputeNode list res) \<Rightarrow> string \<times> netq_credentials \<Rightarrow> compute_instances list \<Rightarrow> ('s, vertex) pcall" where
  "netq_GenerateTopologyConfig env json unmarshal prov instances =
     (case prov of (apiURL, cred) \<Rightarrow>
        then_pcall (netq_getNetworkTree env json apiURL cred instances)
          (\<lambda>treeRoot s.
             case getNvlDomains env unmarshal apiURL cred s of
               (Inl err, s) \<Rightarrow> (Some (Inr (Vertex [] [] [(TopologyTree, treeRoot)] [])), s)
             | (Inr doms, s) \<Rightarrow> (Some (Inr (Vertex [] [] [(TopologyTree, treeRoot), (TopologyBlock, ToBlocks doms)] [])), s)))"

definition netq_Instances2NodeMap :: "string list \<Rightarrow> (string, string) gomap" where
  "netq_Instances2NodeMap names = const_map (\<lambda>node. node) names"

definition netq_GetInstancesRegions :: "string list \<Rightarrow> (string, string) gomap" where
  "netq_GetInstancesRegions names = const_map (\<lambda>node. ''local'') names"

section \<open>One round\<close>

text \<open>
  The edges \<open>S\<close> that a round has handled: pairs of an entry of the layer and the switch above it. The
  switches met have moved from the map of all switches to the next layer, with the entries below them as children.
\<close>

definition filed :: "((string \<times> vertex) \<times> string) set \<Rightarrow> string \<Rightarrow> vertex \<Rightarrow> bool" where
  "filed S j v \<longleftrightarrow> ID v = j \<and> distinct (mkeys (Vertices v)) \<and> (\<forall>i w. map_of (Vertices v) i = Some w \<longleftrightarrow> ((i, w), j) \<in> S)"

lemma filed_other: "j \<noteq> k \<Longrightarrow> filed (insert (e, k) S) j v = filed S j v"
  by (simp add: filed_def)

definition round_inv :: "(string, vertex) gomap \<Rightarrow> ((string \<times> vertex) \<times> string) set \<Rightarrow> round_state \<Rightarrow> bool" where
  "round_inv m0 S st \<longleftrightarrow>
     distinct (mkeys (fst st)) \<and> distinct (mkeys (snd st)) \<and>
     (\<forall>j. map_of (snd st) j = (if j \<in> snd ` S then None else map_of m0 j)) \<and>
     (\<forall>j. j \<in> set (mkeys (fst st)) \<longleftrightarrow> j \<in> snd ` S) \<and>
     (\<forall>j v. map_of (fst st) j = Some v \<longrightarrow> filed S j v)"

lemma round_inv_start: "distinct (mkeys m0) \<Longrightarrow> round_inv m0 {} ([], m0)"
  by (simp add: round_inv_def)

text \<open>In an edge set each entry of a layer goes with one vertex.\<close>

definition one_vertex :: "(string, vertex) gomap \<Rightarrow> ((string \<times> vertex) \<times> string) set \<Rightarrow> bool" where
  "one_vertex layer S \<longleftrightarrow> (\<forall>i w j. ((i, w), j) \<in> S \<longrightarrow> map_of layer i = Some w)"

lemma round_inv_up:
  assumes inv: "round_inv m0 S (n, m)" and j: "map_of m0 j = Some (Vertex nm j [] [])"
    and one: "one_vertex layer (insert ((a, b), j) S)"
  shows "\<exists>st. netq_up a b j (n, m) = Some st \<and> round_inv m0 (insert ((a, b), j) S) st"
proof (cases "map_of n j")
  case (Some v)
  let ?v = "Vertex (Name v) (ID v) (mput a b (Vertices v)) (Metadata v)" and ?S = "insert ((a, b), j) S"
  have v: "filed S j v" and old: "j \<in> snd ` S"
    using inv Some set_fst_map_of [of j n] unfolding round_inv_def fst_conv snd_conv by blast+
  have "map_of (mput a b (Vertices v)) i = Some w \<longleftrightarrow> ((i, w), j) \<in> ?S" for i w
  proof (cases "i = a")
    case True
    have "((a, w), j) \<in> ?S \<Longrightarrow> w = b" using one unfolding one_vertex_def by (metis insertI1 option.inject)
    then show ?thesis using True by (auto simp: update_conv')
  next
    case False
    then show ?thesis using v by (simp add: filed_def update_conv')
  qed
  then have "filed ?S j ?v" using v by (simp add: filed_def)
  then have "filed ?S k w" if "map_of (mput j ?v n) k = Some w" for k w
    using that inv filed_other [of k j "(a, b)" S w] unfolding round_inv_def fst_conv by (auto simp: update_conv' split: if_splits)
  moreover have "snd ` ?S = snd ` S" using old by (auto simp: insert_absorb)
  ultimately have "round_inv m0 ?S (mput j ?v n, m)"
    using inv old unfolding round_inv_def fst_conv snd_conv by (simp add: insert_absorb del: set_map)
  then show ?thesis using Some by (simp add: netq_up_def)
next
  case None
  let ?v = "Vertex nm j [(a, b)] []" and ?S = "insert ((a, b), j) S"
  have fresh: "j \<notin> snd ` S" using inv None set_fst_map_of [of j n] unfolding round_inv_def fst_conv by blast
  then have m: "map_of m j = Some (Vertex nm j [] [])" using inv j unfolding round_inv_def snd_conv by simp
  have "filed ?S j ?v" using fresh by (force simp: filed_def)
  then have "filed ?S k w" if "map_of (mput j ?v n) k = Some w" for k w
    using that inv filed_other [of k j "(a, b)" S w] unfolding round_inv_def fst_conv by (auto simp: update_conv' split: if_splits)
  moreover have "snd ` ?S = insert j (snd ` S)" by simp
  ultimately have "round_inv m0 ?S (mput j ?v n, mdel j m)"
    using inv unfolding round_inv_def fst_conv snd_conv by (simp add: delete_conv' del: set_map)
  then show ?thesis using None m by (simp add: netq_up_def)
qed

lemma round_inv_ups:
  assumes "round_inv m0 S st" and "\<And>j. j \<in> set js \<Longrightarrow> \<exists>nm. map_of m0 j = Some (Vertex nm j [] [])"
    and "one_vertex layer (S \<union> {(a, b)} \<times> set js)"
  shows "\<exists>st'. netq_ups a b js st = Some st' \<and> round_inv m0 (S \<union> {(a, b)} \<times> set js) st'"
  using assms
proof (induction js arbitrary: S st)
  case (Cons j js)
  obtain nm where j: "map_of m0 j = Some (Vertex nm j [] [])" using Cons.prems(2) [of j] by auto
  have "one_vertex layer (insert ((a, b), j) S)" using Cons.prems(3) unfolding one_vertex_def by auto
  from round_inv_up [of m0 S "fst st" "snd st", OF _ j this] Cons.prems(1) obtain st1 where
    st1: "netq_up a b j st = Some st1" "round_inv m0 (insert ((a, b), j) S) st1" by auto
  have "insert ((a, b), j) S \<union> {(a, b)} \<times> set js = S \<union> {(a, b)} \<times> set (j # js)" by auto
  with Cons.IH [OF st1(2)] Cons.prems(2,3) st1(1) show ?case by auto
qed simp

text \<open>The edges from a layer.\<close>

definition up_of :: "(string, (string, bool) gomap) gomap \<Rightarrow> (string \<times> string) set" where
  "up_of linksUp = {(i, j). j \<in> set (mkeys (mget0 [] linksUp i))}"

definition layer_edges :: "(string, (string, bool) gomap) gomap \<Rightarrow> (string, vertex) gomap \<Rightarrow> ((string \<times> vertex) \<times> string) set" where
  "layer_edges linksUp layer = {((i, w), j). (i, w) \<in> set layer \<and> (i, j) \<in> up_of linksUp}"

lemma round_inv_round:
  assumes "round_inv m0 S st" and "\<And>i w j. (i, w) \<in> set xs \<Longrightarrow> (i, j) \<in> up_of linksUp \<Longrightarrow> \<exists>nm. map_of m0 j = Some (Vertex nm j [] [])"
    and "one_vertex layer (S \<union> layer_edges linksUp xs)"
  shows "\<exists>st'. netq_round linksUp xs st = Some st' \<and> round_inv m0 (S \<union> layer_edges linksUp xs) st'"
  using assms
proof (induction xs arbitrary: S st)
  case Nil
  have "layer_edges linksUp [] = {}" by (simp add: layer_edges_def)
  then show ?case using Nil.prems(1) by simp
next
  case (Cons x xs)
  obtain i w where x: "x = (i, w)" by (cases x)
  let ?js = "mkeys (mget0 [] linksUp i)"
  have cons: "layer_edges linksUp (x # xs) = {(i, w)} \<times> set ?js \<union> layer_edges linksUp xs"
    by (auto simp: layer_edges_def up_of_def x)
  have "one_vertex layer (S \<union> {(i, w)} \<times> set ?js)" using Cons.prems(3) unfolding cons one_vertex_def by blast
  moreover have "\<exists>nm. map_of m0 j = Some (Vertex nm j [] [])" if "j \<in> set ?js" for j
    using Cons.prems(2) [of i w j] that by (simp add: up_of_def x)
  ultimately obtain st1 where st1: "netq_ups i w ?js st = Some st1" "round_inv m0 (S \<union> {(i, w)} \<times> set ?js) st1"
    using round_inv_ups [OF Cons.prems(1), of ?js layer i w] by blast
  have eq: "S \<union> {(i, w)} \<times> set ?js \<union> layer_edges linksUp xs = S \<union> layer_edges linksUp (x # xs)" unfolding cons by blast
  have "\<exists>nm. map_of m0 j = Some (Vertex nm j [] [])" if "(i, w) \<in> set xs" "(i, j) \<in> up_of linksUp" for i w j
    using Cons.prems(2) that by (meson list.set_intros(2))
  moreover have "one_vertex layer (S \<union> {(i, w)} \<times> set ?js \<union> layer_edges linksUp xs)" using Cons.prems(3) eq by simp
  ultimately obtain st2 where
    "netq_round linksUp xs st1 = Some st2" "round_inv m0 (S \<union> layer_edges linksUp (x # xs)) st2"
    using Cons.IH [OF st1(2)] eq by auto
  then show ?case using st1(1) by (simp add: x)
qed

section \<open>All rounds\<close>

text \<open>
  A fabric in layers: every link leads from a layer to the next one, up to a layer \<open>h\<close> without links up.
\<close>

definition layered_links :: "(string \<times> string) set \<Rightarrow> string set \<Rightarrow> string set \<Rightarrow> (string \<Rightarrow> nat) \<Rightarrow> nat \<Rightarrow> bool" where
  "layered_links R low switches rk h \<longleftrightarrow>
     (\<forall>i \<in> low. rk i = 0) \<and>
     (\<forall>(i, j) \<in> R. i \<in> low \<union> switches \<longrightarrow> j \<in> switches \<and> rk j = Suc (rk i)) \<and>
     (\<forall>i \<in> low \<union> switches. (rk i < h \<longrightarrow> (\<exists>j. (i, j) \<in> R)) \<and> (rk i = h \<longrightarrow> (\<forall>j. (i, j) \<notin> R)))"

definition parts :: "(string, vertex) gomap \<Rightarrow> vertex set" where
  "parts layer = (\<Union>w \<in> snd ` set layer. set (subs w))"

definition stage ::
  "(string \<times> string) set \<Rightarrow> (string, vertex) gomap \<Rightarrow> string set \<Rightarrow> (string \<Rightarrow> nat) \<Rightarrow> nat \<Rightarrow> (string, vertex) gomap \<Rightarrow> (string, vertex) gomap \<Rightarrow> bool" where
  "stage R layer0 switches rk k layer nodeMap \<longleftrightarrow>
     distinct (mkeys layer) \<and> distinct (mkeys nodeMap) \<and> layer \<noteq> [] \<and>
     (\<forall>i w. (i, w) \<in> set layer \<longrightarrow> ID w = i \<and> level k w \<and> rk i = k \<and>
        set (leaves w) = {u \<in> snd ` set layer0. (ID u, i) \<in> R ^^ k}) \<and>
     set (mkeys layer) = {j. \<exists>u \<in> snd ` set layer0. (ID u, j) \<in> R ^^ k} \<and>
     set (mkeys layer) \<subseteq> set (mkeys layer0) \<union> switches \<and>
     (\<forall>u \<in> parts layer. rk (ID u) \<le> k) \<and> consistent (parts layer) \<and>
     (\<forall>j \<in> switches. k < rk j \<longrightarrow> (\<exists>nm. map_of nodeMap j = Some (Vertex nm j [] [])))"

lemma parts_closed: "v \<in> parts layer \<Longrightarrow> w \<in> snd ` set (Vertices v) \<Longrightarrow> w \<in> parts layer"
  using subs_kids unfolding parts_def kids_def by blast

lemma in_mkeys: "(i, w) \<in> set m \<Longrightarrow> i \<in> set (mkeys m)"
  by force

lemma stageD:
  assumes "stage R layer0 switches rk k layer nodeMap"
  shows "distinct (mkeys layer)" "distinct (mkeys nodeMap)" "layer \<noteq> []"
    "\<forall>i w. (i, w) \<in> set layer \<longrightarrow> ID w = i \<and> level k w \<and> rk i = k \<and> set (leaves w) = {u \<in> snd ` set layer0. (ID u, i) \<in> R ^^ k}"
    "set (mkeys layer) = {j. \<exists>u \<in> snd ` set layer0. (ID u, j) \<in> R ^^ k}" "set (mkeys layer) \<subseteq> set (mkeys layer0) \<union> switches"
    "\<forall>u \<in> parts layer. rk (ID u) \<le> k" "consistent (parts layer)"
    "\<forall>j \<in> switches. k < rk j \<longrightarrow> (\<exists>nm. map_of nodeMap j = Some (Vertex nm j [] []))"
  using assms unfolding stage_def by - (elim conjE, assumption)+

lemma stage_entry:
  assumes st: "stage R layer0 switches rk k layer nodeMap" and iw: "(i, w) \<in> set layer"
  shows "ID w = i" "level k w" "rk i = k" "set (leaves w) = {u \<in> snd ` set layer0. (ID u, i) \<in> R ^^ k}"
    "i \<in> set (mkeys layer0) \<union> switches"
  using stageD(4) [OF st, rule_format, OF iw] stageD(6) [OF st] in_mkeys [OF iw] by (simp_all only: subset_iff)

lemma edge_up:
  assumes links: "layered_links R (set (mkeys layer0)) switches rk h" and st: "stage R layer0 switches rk k layer nodeMap" and "k \<le> h"
    and "(i, w) \<in> set layer" and ij: "(i, j) \<in> R"
  shows "j \<in> switches \<and> rk j = Suc k \<and> k < h"
proof -
  have i: "rk i = k" "i \<in> set (mkeys layer0) \<union> switches" using stage_entry [OF st assms(4)] by simp_all
  then have "rk i \<noteq> h" using links ij unfolding layered_links_def by blast
  moreover have "j \<in> switches \<and> rk j = Suc (rk i)" using links ij i(2) unfolding layered_links_def by blast
  ultimately show ?thesis using i(1) assms(3) by simp
qed

lemma consistent_next:
  assumes sub: "parts nl \<subseteq> snd ` set nl \<union> parts layer" and cons: "consistent (parts layer)"
    and low: "\<And>u. u \<in> parts layer \<Longrightarrow> rk (ID u) \<le> k" and dn: "distinct (mkeys nl)"
    and top: "\<And>j v. (j, v) \<in> set nl \<Longrightarrow> ID v = j \<and> rk j = Suc k"
  shows "consistent (parts nl)" and "\<forall>u \<in> parts nl. rk (ID u) \<le> Suc k"
proof -
  have new: "rk (ID x) = Suc k \<and> (ID x, x) \<in> set nl" if x: "x \<in> snd ` set nl" for x
  proof -
    obtain j where "(j, x) \<in> set nl" using x by force
    then show ?thesis using top [of j x] by simp
  qed
  have "v = w" if v: "v \<in> parts nl" and w: "w \<in> parts nl" and eq: "ID v = ID w" for v w
  proof -
    have "v \<in> snd ` set nl \<longleftrightarrow> w \<in> snd ` set nl"
      using new [of v] new [of w] low [of v] low [of w] sub v w eq by (metis UnE not_less_eq_eq order_refl subsetD)
    then consider "(ID v, v) \<in> set nl" "(ID w, w) \<in> set nl" | "v \<in> parts layer" "w \<in> parts layer"
      using new [of v] new [of w] sub v w by blast
    then show ?thesis
    proof cases
      case 1
      then show ?thesis using eq_key_imp_eq_value [OF dn, of "ID v" v w] eq by simp
    next
      case 2
      then show ?thesis using cons eq unfolding consistent_def by blast
    qed
  qed
  then show "consistent (parts nl)" using parts_closed unfolding consistent_def by blast
  show "\<forall>u \<in> parts nl. rk (ID u) \<le> Suc k"
  proof
    fix u assume "u \<in> parts nl"
    then have "u \<in> snd ` set nl \<or> u \<in> parts layer" using sub by blast
    then show "rk (ID u) \<le> Suc k" using new [of u] low [of u] le_SucI by (metis order_refl)
  qed
qed

lemma stage_step:
  assumes links: "layered_links (up_of linksUp) (set (mkeys layer0)) switches rk h"
    and st: "stage (up_of linksUp) layer0 switches rk k layer nodeMap" and k: "k < h"
  shows "\<exists>layer' nodeMap'. netq_round linksUp layer ([], nodeMap) = Some (layer', nodeMap') \<and>
    stage (up_of linksUp) layer0 switches rk (Suc k) layer' nodeMap' \<and> length nodeMap \<noteq> length nodeMap'"
proof -
  let ?R = "up_of linksUp" and ?E = "layer_edges linksUp layer" and ?us = "snd ` set layer0"
  note dl = stageD(1) [OF st] and dm = stageD(2) [OF st] and ne = stageD(3) [OF st] and keys = stageD(5) [OF st]
    and entry = stage_entry [OF st] and low = stageD(7) [OF st, rule_format] and cons = stageD(8) [OF st]
    and free = stageD(9) [OF st, rule_format]
  have up: "j \<in> switches" "rk j = Suc k" if "(i, w) \<in> set layer" "(i, j) \<in> ?R" for i w j
    using edge_up [OF links st _ that] k by simp_all
  have "\<exists>nm. map_of nodeMap j = Some (Vertex nm j [] [])" if "(i, w) \<in> set layer" "(i, j) \<in> ?R" for i w j
    using free up [OF that] by simp
  moreover have "one_vertex layer ?E" using dl unfolding one_vertex_def layer_edges_def by auto
  ultimately obtain nl m where run: "netq_round linksUp layer ([], nodeMap) = Some (nl, m)" and inv: "round_inv nodeMap ?E (nl, m)"
    using round_inv_round [OF round_inv_start [OF dm], of layer linksUp layer] by auto
  have dn: "distinct (mkeys nl)" and dm': "distinct (mkeys m)"
    and m: "\<And>j. map_of m j = (if j \<in> snd ` ?E then None else map_of nodeMap j)"
    and nk: "set (mkeys nl) = snd ` ?E"
    and files: "\<And>j v. map_of nl j = Some v \<Longrightarrow> filed ?E j v"
    using inv unfolding round_inv_def fst_conv snd_conv by blast+
  have edge: "((i, w), j) \<in> ?E \<longleftrightarrow> (i, w) \<in> set layer \<and> (i, j) \<in> ?R" for i w j by (simp add: layer_edges_def)
  have kid: "(i, w) \<in> set (Vertices v) \<longleftrightarrow> (i, w) \<in> set layer \<and> (i, j) \<in> ?R" if "(j, v) \<in> set nl" for i w j v
  proof -
    have "filed ?E j v" using files [of j v] that dn by simp
    then have "distinct (mkeys (Vertices v))" "map_of (Vertices v) i = Some w \<longleftrightarrow> ((i, w), j) \<in> ?E" by (simp_all add: filed_def)
    then show ?thesis using edge [of i w j] map_of_eq_Some_iff [of "Vertices v" i w] by simp
  qed
  have top: "ID v = j" "Vertices v \<noteq> []" "distinct (mkeys (Vertices v))" "rk j = Suc k" "j \<in> switches" if v: "(j, v) \<in> set nl" for j v
  proof -
    show "ID v = j" "distinct (mkeys (Vertices v))" using files [of j v] v dn by (simp_all add: filed_def)
    have "j \<in> snd ` ?E" using v nk by force
    then obtain i w where e: "(i, w) \<in> set layer" "(i, j) \<in> ?R" using edge by auto
    then show "rk j = Suc k" "j \<in> switches" using up by blast+
    show "Vertices v \<noteq> []" using kid [OF v] e by auto
  qed
  have sub: "parts nl \<subseteq> snd ` set nl \<union> parts layer"
  proof
    fix u assume "u \<in> parts nl"
    then obtain j v where v: "(j, v) \<in> set nl" "u \<in> set (subs v)" unfolding parts_def by force
    then consider "u = v" | i w where "(i, w) \<in> set (Vertices v)" "u \<in> set (subs w)"
      unfolding subs_unfold [of v] by auto
    then show "u \<in> snd ` set nl \<union> parts layer"
    proof cases
      case 1
      then show ?thesis using v(1) by force
    next
      case (2 i w)
      then show ?thesis using kid [OF v(1)] unfolding parts_def by force
    qed
  qed
  have keys': "set (mkeys nl) = {j. \<exists>u \<in> ?us. (ID u, j) \<in> ?R ^^ Suc k}"
  proof -
    have "set (mkeys nl) = {j. \<exists>i \<in> set (mkeys layer). (i, j) \<in> ?R}" unfolding nk using edge by force
    also have "\<dots> = {j. \<exists>u \<in> ?us. (ID u, j) \<in> ?R ^^ Suc k}" unfolding keys by auto
    finally show ?thesis .
  qed
  have lv: "set (leaves v) = {u \<in> ?us. (ID u, j) \<in> ?R ^^ Suc k}" if v: "(j, v) \<in> set nl" for j v
  proof -
    have "set (leaves v) = (\<Union>w \<in> snd ` set (Vertices v). set (leaves w))" by (rule leaves_kids [unfolded kids_def, OF top(2) [OF v]])
    also have "\<dots> = {u \<in> ?us. \<exists>i \<in> set (mkeys layer). (ID u, i) \<in> ?R ^^ k \<and> (i, j) \<in> ?R}"
    proof (intro set_eqI iffI)
      fix u assume "u \<in> (\<Union>w \<in> snd ` set (Vertices v). set (leaves w))"
      then obtain i w where iw: "(i, w) \<in> set (Vertices v)" "u \<in> set (leaves w)" by force
      then have "(i, w) \<in> set layer" "(i, j) \<in> ?R" using kid [OF v] by simp_all
      moreover from this have "u \<in> ?us" "(ID u, i) \<in> ?R ^^ k" "i \<in> set (mkeys layer)"
        using iw(2) entry(4) [of i w] in_mkeys [of i w layer] by simp_all
      ultimately show "u \<in> {u \<in> ?us. \<exists>i \<in> set (mkeys layer). (ID u, i) \<in> ?R ^^ k \<and> (i, j) \<in> ?R}" by blast
    next
      fix u assume "u \<in> {u \<in> ?us. \<exists>i \<in> set (mkeys layer). (ID u, i) \<in> ?R ^^ k \<and> (i, j) \<in> ?R}"
      then obtain i where i: "u \<in> ?us" "i \<in> set (mkeys layer)" "(ID u, i) \<in> ?R ^^ k" "(i, j) \<in> ?R" by blast
      obtain w where "(i, w) \<in> set layer" using i(2) by force
      then have "(i, w) \<in> set (Vertices v)" "u \<in> set (leaves w)"
        using kid [OF v, of i w] entry(4) [of i w] i by simp_all
      then show "u \<in> (\<Union>w \<in> snd ` set (Vertices v). set (leaves w))" by force
    qed
    also have "\<dots> = {u \<in> ?us. (ID u, j) \<in> ?R ^^ Suc k}" unfolding keys by auto
    finally show ?thesis .
  qed
  obtain i w where iw: "(i, w) \<in> set layer" using ne by (cases layer) auto
  obtain j where j: "(i, j) \<in> ?R" using links k entry(3,5) [OF iw] unfolding layered_links_def by blast
  have j1: "j \<in> snd ` ?E" using edge iw j by force
  have lev: "level (Suc k) v" if v: "(j, v) \<in> set nl" for j v
  proof -
    have "x = ID w \<and> level k w" if "(x, w) \<in> set (Vertices v)" for x w
      using kid [OF v, of x w] that entry(1,2) [of x w] by simp
    then show ?thesis using top(2,3) [OF v] by auto
  qed
  have tops: "ID v = j \<and> rk j = Suc k" if "(j, v) \<in> set nl" for j v using top(1,4) [OF that] by simp
  note next_parts = consistent_next [OF sub cons low dn tops]
  have "stage ?R layer0 switches rk (Suc k) nl m"
    unfolding stage_def
  proof (intro conjI)
    show "nl \<noteq> []" using j1 nk by auto
    show "\<forall>i w. (i, w) \<in> set nl \<longrightarrow> ID w = i \<and> level (Suc k) w \<and> rk i = Suc k \<and> set (leaves w) = {u \<in> ?us. (ID u, i) \<in> ?R ^^ Suc k}"
      using top lev lv by auto
    show "set (mkeys nl) \<subseteq> set (mkeys layer0) \<union> switches" using top(5) by force
    show "consistent (parts nl)" by (rule next_parts(1))
    show "\<forall>u \<in> parts nl. rk (ID u) \<le> Suc k" by (rule next_parts(2))
    show "\<forall>j \<in> switches. Suc k < rk j \<longrightarrow> (\<exists>nm. map_of m j = Some (Vertex nm j [] []))"
    proof (intro ballI impI)
      fix j assume "j \<in> switches" "Suc k < rk j"
      moreover from this have "j \<notin> snd ` ?E" using up(2) edge by force
      ultimately show "\<exists>nm. map_of m j = Some (Vertex nm j [] [])" using free m by simp
    qed
    show "distinct (mkeys nl)" by (rule dn)
    show "distinct (mkeys m)" by (rule dm')
    show "set (mkeys nl) = {j. \<exists>u \<in> ?us. (ID u, j) \<in> ?R ^^ Suc k}" by (rule keys')
  qed
  moreover have "length nodeMap \<noteq> length m"
  proof -
    have "set (mkeys m) \<subseteq> set (mkeys nodeMap)" using netq_round_shrinks [OF run] by simp
    moreover have "j \<in> set (mkeys nodeMap)" using free up [OF iw j] set_fst_map_of [of j nodeMap] by force
    moreover have "j \<notin> set (mkeys m)" using m [of j] j1 set_fst_map_of [of j m] by simp
    ultimately have "card (set (mkeys m)) < card (set (mkeys nodeMap))" by (intro psubset_card_mono) auto
    then show ?thesis using distinct_card [OF dm] distinct_card [OF dm'] by simp
  qed
  ultimately show ?thesis using run by blast
qed

lemma netq_loop_stage:
  assumes links: "layered_links (up_of linksUp) (set (mkeys layer0)) switches rk h"
  shows "stage (up_of linksUp) layer0 switches rk k layer nodeMap \<Longrightarrow> k \<le> h \<Longrightarrow>
    \<exists>layer' nodeMap'. netq_loop linksUp layer nodeMap = Some layer' \<and> stage (up_of linksUp) layer0 switches rk h layer' nodeMap'"
proof (induction "h - k" arbitrary: k layer nodeMap)
  case 0
  then have k: "k = h" by simp
  have "layer_edges linksUp layer = {}"
    using edge_up [OF links 0(2)] k unfolding layer_edges_def by fastforce
  then have none: "\<not> ((i, w) \<in> set layer \<and> (i, j) \<in> up_of linksUp)" for i w j by (auto simp: layer_edges_def)
  have dm: "distinct (mkeys nodeMap)" by (rule stageD(2) [OF 0(2)])
  have "\<exists>st. netq_round linksUp layer ([], nodeMap) = Some st \<and> round_inv nodeMap ({} \<union> layer_edges linksUp layer) st"
    using none by (intro round_inv_round [where layer = layer] round_inv_start dm) (auto simp: one_vertex_def layer_edges_def)
  then obtain nl m where run: "netq_round linksUp layer ([], nodeMap) = Some (nl, m)" and inv: "round_inv nodeMap {} (nl, m)"
    using \<open>layer_edges linksUp layer = {}\<close> by auto
  have "map_of m = map_of nodeMap" "distinct (mkeys m)" using inv by (auto simp: round_inv_def)
  then have "length nodeMap = length m" using dm by (metis distinct_card dom_map_of_conv_image_fst length_map set_map)
  then have "netq_loop linksUp layer nodeMap = Some layer" using run by (subst netq_loop.simps) simp
  then show ?case using 0(2) k by blast
next
  case (Suc d)
  then have "k < h" by simp
  from stage_step [OF links Suc.prems(1) this] obtain layer1 nodeMap1 where
    step: "netq_round linksUp layer ([], nodeMap) = Some (layer1, nodeMap1)" "length nodeMap \<noteq> length nodeMap1"
      "stage (up_of linksUp) layer0 switches rk (Suc k) layer1 nodeMap1" by blast
  have "d = h - Suc k" "Suc k \<le> h" using Suc.hyps(2) \<open>k < h\<close> by simp_all
  moreover have "netq_loop linksUp layer nodeMap = netq_loop linksUp layer1 nodeMap1"
    using step(1,2) by (subst netq_loop.simps) simp
  ultimately show ?case using Suc.hyps(1) [of "Suc k" layer1 nodeMap1] step(3) by simp
qed

section \<open>The maps of an answer\<close>

definition netq_leaves :: "NetqResponse \<Rightarrow> (string, bool) gomap \<Rightarrow> vertex set" where
  "netq_leaves r inputNodes =
     {Vertex (cn_Name c) (cn_Id c) [] [] | c. c \<in> set (concat (nr_Nodes r)) \<and> cn_Tier c = -1 \<and> mget0 False inputNodes (cn_Name c)}"

definition netq_switches :: "NetqResponse \<Rightarrow> string set" where
  "netq_switches r = {cn_Id c | c. c \<in> set (concat (nr_Nodes r)) \<and> cn_Tier c \<noteq> -1}"

definition tier_of :: "CNode list \<Rightarrow> string \<Rightarrow> int" where
  "tier_of cs i = (case find (\<lambda>c. cn_Id c = i) cs of None \<Rightarrow> 0 | Some c \<Rightarrow> cn_Tier c)"

definition netq_edges :: "NetqResponse \<Rightarrow> (string \<times> string) set" where
  "netq_edges r = {(i, j). tier_of (concat (nr_Nodes r)) i < tier_of (concat (nr_Nodes r)) j \<and>
     (\<exists>l \<in> set (nr_Links r). split_str ''-*-'' l = [i, j] \<or> split_str ''-*-'' l = [j, i])}"

lemma netq_nodes:
  assumes "distinct (map cn_Id cs)" and "cn_Id ` set cs \<inter> (set (mkeys (nm_layer st)) \<union> set (mkeys (nm_nodeMap st)) \<union> set (mkeys (nm_tierMap st))) = {}"
  shows "nm_layer (fold (netq_node input) cs st) = nm_layer st @
      map (\<lambda>c. (cn_Id c, Vertex (cn_Name c) (cn_Id c) [] [])) (filter (\<lambda>c. cn_Tier c = -1 \<and> mget0 False input (cn_Name c)) cs) \<and>
    nm_nodeMap (fold (netq_node input) cs st) = nm_nodeMap st @
      map (\<lambda>c. (cn_Id c, Vertex (cn_Name c) (cn_Id c) [] [])) (filter (\<lambda>c. cn_Tier c \<noteq> -1) cs) \<and>
    nm_tierMap (fold (netq_node input) cs st) = nm_tierMap st @ map (\<lambda>c. (cn_Id c, cn_Tier c)) cs"
  using assms
proof (induction cs arbitrary: st)
  case (Cons c cs)
  have new: "cn_Id c \<notin> set (mkeys (nm_layer st))" "cn_Id c \<notin> set (mkeys (nm_nodeMap st))" "cn_Id c \<notin> set (mkeys (nm_tierMap st))"
    using Cons.prems(2) by auto
  let ?st = "netq_node input c st" and ?e = "(cn_Id c, Vertex (cn_Name c) (cn_Id c) [] [])"
  have st: "nm_layer ?st = nm_layer st @ (if cn_Tier c = -1 \<and> mget0 False input (cn_Name c) then [?e] else [])"
    "nm_nodeMap ?st = nm_nodeMap st @ (if cn_Tier c \<noteq> -1 then [?e] else [])"
    "nm_tierMap ?st = nm_tierMap st @ [(cn_Id c, cn_Tier c)]"
    using new by (auto simp: netq_node_def Let_def update_append_new simp del: set_map)
  have fresh: "\<forall>x \<in> set cs. cn_Id x \<noteq> cn_Id c" using Cons.prems(1) by (metis distinct.simps(2) image_eqI image_set list.simps(9))
  have "cn_Id ` set cs \<inter> (set (mkeys (nm_layer ?st)) \<union> set (mkeys (nm_nodeMap ?st)) \<union> set (mkeys (nm_tierMap ?st))) = {}"
    using Cons.prems(2) fresh unfolding st by auto
  from Cons.IH [OF _ this] Cons.prems(1) show ?case unfolding st by simp
qed simp

lemma fold_fold_concat: "fold (fold f) xss s = fold f (concat xss) s"
  by (induction xss arbitrary: s) simp_all

lemma netq_maps:
  assumes "distinct (map cn_Id (concat (nr_Nodes r)))"
  shows "nm_layer (netq_maps_of r input) = map (\<lambda>c. (cn_Id c, Vertex (cn_Name c) (cn_Id c) [] []))
      (filter (\<lambda>c. cn_Tier c = -1 \<and> mget0 False input (cn_Name c)) (concat (nr_Nodes r)))"
    and "nm_nodeMap (netq_maps_of r input) = map (\<lambda>c. (cn_Id c, Vertex (cn_Name c) (cn_Id c) [] []))
      (filter (\<lambda>c. cn_Tier c \<noteq> -1) (concat (nr_Nodes r)))"
    and "nm_tierMap (netq_maps_of r input) = map (\<lambda>c. (cn_Id c, cn_Tier c)) (concat (nr_Nodes r))"
  using netq_nodes [OF assms, of "\<lparr>nm_layer = [], nm_nodeMap = [], nm_tierMap = []\<rparr>" input]
  by (simp_all add: netq_maps_of_def fold_fold_concat)

lemma tier_map: "mget0 0 (map (\<lambda>c. (cn_Id c, cn_Tier c)) cs) i = tier_of cs i"
  by (induction cs) (auto simp: tier_of_def mget0_def)

lemma netq_link_up:
  "j \<in> set (mkeys (mget0 [] (netq_link T l m) i)) \<longleftrightarrow>
    j \<in> set (mkeys (mget0 [] m i)) \<or> mget0 0 T i < mget0 0 T j \<and> (split_str ''-*-'' l = [i, j] \<or> split_str ''-*-'' l = [j, i])"
proof (cases "\<exists>a b. split_str ''-*-'' l = [a, b]")
  case True
  then obtain a b where ab: "split_str ''-*-'' l = [a, b]" by blast
  consider "mget0 0 T a = mget0 0 T b" | "mget0 0 T a < mget0 0 T b" | "mget0 0 T b < mget0 0 T a" by linarith
  then show ?thesis
  proof cases
    case 1
    then show ?thesis unfolding netq_link_def ab by auto
  next
    case 2
    then have "netq_link T l m = mput a (mput b True (mget0 [] m a)) m" unfolding netq_link_def ab by simp
    then show ?thesis using 2 ab by (cases "i = a") (auto simp: mget0_def update_conv' simp del: set_map)
  next
    case 3
    then have "netq_link T l m = mput b (mput a True (mget0 [] m b)) m" unfolding netq_link_def ab by simp
    then show ?thesis using 3 ab by (cases "i = b") (auto simp: mget0_def update_conv' simp del: set_map)
  qed
next
  case False
  then show ?thesis unfolding netq_link_def by (auto split: list.splits)
qed

lemma netq_linksUp_edges:
  assumes "distinct (map cn_Id (concat (nr_Nodes r)))"
  shows "up_of (netq_linksUp r input) = netq_edges r"
proof -
  let ?T = "map (\<lambda>c. (cn_Id c, cn_Tier c)) (concat (nr_Nodes r))"
  have "j \<in> set (mkeys (mget0 [] (fold (netq_link ?T) ls m) i)) \<longleftrightarrow> j \<in> set (mkeys (mget0 [] m i)) \<or>
      mget0 0 ?T i < mget0 0 ?T j \<and> (\<exists>l \<in> set ls. split_str ''-*-'' l = [i, j] \<or> split_str ''-*-'' l = [j, i])" for ls m i j
    by (induction ls arbitrary: m) (auto simp only: fold_Cons comp_def netq_link_up list.set fold_Nil id_apply)
  from this [of _ "nr_Links r" "[]"] show ?thesis
    unfolding up_of_def netq_linksUp_def netq_maps [OF assms] netq_edges_def tier_map
    by (auto simp: mget0_def [of "[]"])
qed

section \<open>The tree\<close>

lemma stage_start:
  fixes r :: NetqResponse and input :: "(string, bool) gomap"
  defines "st \<equiv> netq_maps_of r input"
  assumes ids: "distinct (map cn_Id (concat (nr_Nodes r)))" and ne: "netq_leaves r input \<noteq> {}"
    and low: "\<forall>i \<in> ID ` netq_leaves r input. rk i = 0"
  shows "stage R (nm_layer st) (netq_switches r) rk 0 (nm_layer st) (nm_nodeMap st)"
    and "snd ` set (nm_layer st) = netq_leaves r input" and "set (mkeys (nm_layer st)) = ID ` netq_leaves r input"
proof -
  let ?v = "\<lambda>c. Vertex (cn_Name c) (cn_Id c) [] []" and ?cs = "concat (nr_Nodes r)"
  have l: "nm_layer st = map (\<lambda>c. (cn_Id c, ?v c)) (filter (\<lambda>c. cn_Tier c = -1 \<and> mget0 False input (cn_Name c)) ?cs)"
    and m: "nm_nodeMap st = map (\<lambda>c. (cn_Id c, ?v c)) (filter (\<lambda>c. cn_Tier c \<noteq> -1) ?cs)"
    unfolding st_def by (rule netq_maps [OF ids])+
  have lv: "nm_layer st = map (\<lambda>v. (ID v, v)) (mvals (nm_layer st))" unfolding l by simp
  show vals: "snd ` set (nm_layer st) = netq_leaves r input" unfolding l netq_leaves_def by (auto simp: image_image)
  show keys: "set (mkeys (nm_layer st)) = ID ` netq_leaves r input" unfolding vals [symmetric] by (subst lv) force
  have dl: "distinct (mkeys (nm_layer st))" "distinct (mkeys (nm_nodeMap st))"
    using distinct_map_filter [OF ids] unfolding l m by (simp_all add: comp_def)
  have flat: "Vertices u = [] \<and> ID u = i" if "(i, u) \<in> set (nm_layer st)" for i u using that unfolding l by auto
  have uniq: "u = w" if "u \<in> netq_leaves r input" "w \<in> netq_leaves r input" "ID u = ID w" for u w
  proof -
    have "map_of (nm_layer st) (ID x) = Some x" if "x \<in> netq_leaves r input" for x
      using that dl(1) flat unfolding vals [symmetric] by force
    then show ?thesis using that by (metis option.inject)
  qed
  have leaf: "subs u = [u] \<and> leaves u = [u]" if "Vertices u = []" for u using that by (cases u) simp
  have "parts (nm_layer st) = netq_leaves r input"
    using leaf flat unfolding parts_def vals [symmetric] by force
  moreover have "Vertices u = []" if "u \<in> netq_leaves r input" for u using that flat unfolding vals [symmetric] by force
  ultimately have parts: "consistent (parts (nm_layer st))" "\<forall>u \<in> parts (nm_layer st). rk (ID u) \<le> 0"
    using uniq low unfolding consistent_def by auto
  show "stage R (nm_layer st) (netq_switches r) rk 0 (nm_layer st) (nm_nodeMap st)"
    unfolding stage_def vals
  proof (intro conjI)
    show "nm_layer st \<noteq> []" using ne vals by auto
    show "\<forall>i w. (i, w) \<in> set (nm_layer st) \<longrightarrow> ID w = i \<and> level 0 w \<and> rk i = 0 \<and> set (leaves w) = {u \<in> netq_leaves r input. (ID u, i) \<in> R ^^ 0}"
    proof (intro allI impI)
      fix i w assume iw: "(i, w) \<in> set (nm_layer st)"
      then have w: "w \<in> netq_leaves r input" unfolding vals [symmetric] by force
      then have "{u \<in> netq_leaves r input. ID u = ID w} = {w}" using uniq by blast
      then show "ID w = i \<and> level 0 w \<and> rk i = 0 \<and> set (leaves w) = {u \<in> netq_leaves r input. (ID u, i) \<in> R ^^ 0}"
        using flat [OF iw] leaf [of w] low w by auto
    qed
    show "set (mkeys (nm_layer st)) = {j. \<exists>u \<in> netq_leaves r input. (ID u, j) \<in> R ^^ 0}" unfolding keys by auto
    show "\<forall>j \<in> netq_switches r. 0 < rk j \<longrightarrow> (\<exists>nm. map_of (nm_nodeMap st) j = Some (Vertex nm j [] []))"
    proof (intro ballI impI)
      fix j assume "j \<in> netq_switches r"
      then obtain c where "c \<in> set ?cs" "cn_Tier c \<noteq> -1" "cn_Id c = j" unfolding netq_switches_def by blast
      then have "(j, ?v c) \<in> set (nm_nodeMap st)" unfolding m by auto
      then show "\<exists>nm. map_of (nm_nodeMap st) j = Some (Vertex nm j [] [])" using dl(2) \<open>cn_Id c = j\<close> by auto
    qed
  qed (use dl parts in simp_all)
qed

lemma add_roots_at:
  "map_of (Vertices (add_roots roots root)) j = Some x \<Longrightarrow> (x \<in> set roots \<and> ID x = j) \<or> map_of (Vertices root) j = Some x"
  using alm.put_all_SomeD [of ID "\<lambda>v. v" roots] by (auto simp: add_roots_def)

lemma add_roots_get: "v \<in> set roots \<Longrightarrow> \<exists>x \<in> set roots. ID x = ID v \<and> map_of (Vertices (add_roots roots root)) (ID v) = Some x"
proof (induction roots rule: rev_induct)
  case (snoc r roots)
  have "map_of (Vertices (add_roots (roots @ [r]) root)) = (map_of (Vertices (add_roots roots root)))(ID r \<mapsto> r)"
    by (simp add: add_roots_def update_conv')
  then show ?case using snoc by (cases "ID v = ID r") auto
qed simp

text \<open>A switch that the answer does not hold, above a node of the first layer, stops the server.\<close>

lemma netq_loop_unknown:
  assumes "layer = (i, w) # rest" and "up # ups = mkeys (mget0 [] linksUp i)" and "map_of nodeMap up = None"
  shows "netq_loop linksUp layer nodeMap = None"
proof -
  have "netq_round linksUp layer ([], nodeMap) = None"
    using assms by (simp add: netq_up_def flip: assms(2))
  then show ?thesis by (subst netq_loop.simps) simp
qed

lemma parseNetq_unknown_switch:
  "parseNetq (\<lambda>_. Inr [\<lparr>nr_Links = [''a-*-b''], nr_Nodes = [[\<lparr>cn_Id = ''a'', cn_Name = ''n'', cn_Tier = -1\<rparr>]]\<rparr>])
     (Vertex [] [] [] []) [] [(''n'', True)] = None"
  by code_simp

lemma merged_stage:
  assumes stage: "stage R layer0 switches rk (Suc n) layer nm"
  defines "us \<equiv> snd ` set layer0"
  shows "\<exists>m m'. NewMerger (mvals layer) = Some m \<and> Merge m = Some m' \<and>
    (\<forall>x \<in> set (TopTier m'). set (leaves x) = {u \<in> us. (ID u, ID x) \<in> R ^^ Suc n} \<and> set (leaves x) \<noteq> {}) \<and>
    (\<forall>u \<in> us. \<forall>t. (ID u, t) \<in> R ^^ Suc n \<longrightarrow>
       (\<exists>x \<in> set (TopTier m'). set (leaves x) = {u \<in> us. (ID u, t) \<in> R ^^ Suc n}))"
proof -
  note stD = stageD [OF stage] and entry = stage_entry [OF stage, folded us_def]
  have at: "\<exists>i. (i, v) \<in> set layer \<and> ID v = i \<and> level (Suc n) v" if "v \<in> set (mvals layer)" for v
    using that entry(1,2) by fastforce
  have "mvals layer \<noteq> []" "\<forall>v \<in> set (mvals layer). level (Suc n) v" using stD(3) at by auto
  moreover have "consistent (\<Union>v \<in> set (mvals layer). set (subs v))" using stD(8) by (simp add: parts_def)
  ultimately obtain m m' where m: "NewMerger (mvals layer) = Some m" "Merge m = Some m'" "merged_layer (mvals layer) (TopTier m')"
    using Merge_layered_top by blast
  have keys: "(\<exists>w. (j, w) \<in> set layer) \<longleftrightarrow> (\<exists>u \<in> us. (ID u, j) \<in> R ^^ Suc n)" for j
  proof -
    have "j \<in> set (mkeys layer) \<longleftrightarrow> (\<exists>u \<in> us. (ID u, j) \<in> R ^^ Suc n)" using stD(5) unfolding us_def by blast
    then show ?thesis by force
  qed
  have "set (leaves x) = {u \<in> us. (ID u, ID x) \<in> R ^^ Suc n} \<and> set (leaves x) \<noteq> {}" if x: "x \<in> set (TopTier m')" for x
  proof -
    obtain v where v: "v \<in> set (mvals layer)" "ID x = ID v" "set (leaves x) = set (leaves v)"
      using m(3) x unfolding merged_layer_def by blast
    from at [OF v(1)] obtain i where i: "(i, v) \<in> set layer" "ID v = i" by blast
    then obtain u where "u \<in> us" "(ID u, i) \<in> R ^^ Suc n" using keys [of i] by blast
    then have "u \<in> set (leaves v)" unfolding entry(4) [OF i(1)] by simp
    then show ?thesis using entry(4) [OF i(1)] v(2,3) i(2) by auto
  qed
  moreover have "\<exists>x \<in> set (TopTier m'). set (leaves x) = {u \<in> us. (ID u, t) \<in> R ^^ Suc n}"
    if "u \<in> us" "(ID u, t) \<in> R ^^ Suc n" for u t
  proof -
    have "\<exists>w. (t, w) \<in> set layer" using keys [of t] that by blast
    then obtain v where v: "(t, v) \<in> set layer" by blast
    then have "v \<in> set (mvals layer)" by force
    then show ?thesis using m(3) entry(4) [OF v] unfolding merged_layer_def by metis
  qed
  ultimately show ?thesis using m(1,2) by blast
qed

section \<open>Properties\<close>

text \<open>
  C34. \<open>parseNetq\<close> on a fabric in layers: when the links of the answer lead from each layer to the next one, from the
  requested compute nodes up to the layer \<open>n + 1\<close> without links up, the rounds and the merger return. Every vertex put
  under the tree root is a switch of the top layer, filed under its ID, whose compute nodes are exactly the requested nodes
  with a path of \<open>n + 1\<close> links up to it; and every switch that ends such a path is there, or one with the same nodes.
\<close>

theorem parseNetq_tree:
  assumes answer: "unmarshal data = Inr [r]" and ids: "distinct (map cn_Id (concat (nr_Nodes r)))"
    and links: "layered_links (netq_edges r) (ID ` netq_leaves r input) (netq_switches r) rk (Suc n)"
    and ne: "netq_leaves r input \<noteq> {}"
  shows "\<exists>root. parseNetq unmarshal treeRoot data input = Some (Inr root) \<and>
    (\<forall>j x. map_of (Vertices root) j = Some x \<longrightarrow> map_of (Vertices treeRoot) j = Some x \<or>
       ID x = j \<and> set (leaves x) = {u \<in> netq_leaves r input. (ID u, j) \<in> netq_edges r ^^ Suc n} \<and> set (leaves x) \<noteq> {}) \<and>
    (\<forall>u \<in> netq_leaves r input. \<forall>t. (ID u, t) \<in> netq_edges r ^^ Suc n \<longrightarrow> (\<exists>j x. map_of (Vertices root) j = Some x \<and>
       set (leaves x) = {u \<in> netq_leaves r input. (ID u, t) \<in> netq_edges r ^^ Suc n}))"
proof -
  let ?st = "netq_maps_of r input" and ?R = "netq_edges r" and ?us = "netq_leaves r input"
  have low: "\<forall>i \<in> ID ` ?us. rk i = 0" using links unfolding layered_links_def by simp
  note start = stage_start [OF ids ne low]
  have R: "up_of (netq_linksUp r input) = ?R" by (rule netq_linksUp_edges [OF ids])
  have lay: "layered_links (up_of (netq_linksUp r input)) (set (mkeys (nm_layer ?st))) (netq_switches r) rk (Suc n)"
    using links unfolding R start(3) .
  from netq_loop_stage [OF lay start(1)] obtain layer nm where
    loop: "netq_loop (netq_linksUp r input) (nm_layer ?st) (nm_nodeMap ?st) = Some layer"
    and stage: "stage ?R (nm_layer ?st) (netq_switches r) rk (Suc n) layer nm" unfolding R by blast
  from merged_stage [OF stage, unfolded start(2)] obtain m m' where m: "NewMerger (mvals layer) = Some m" "Merge m = Some m'"
    and top: "\<forall>x \<in> set (TopTier m'). set (leaves x) = {u \<in> ?us. (ID u, ID x) \<in> ?R ^^ Suc n} \<and> set (leaves x) \<noteq> {}"
    and covers: "\<forall>u \<in> ?us. \<forall>t. (ID u, t) \<in> ?R ^^ Suc n \<longrightarrow>
      (\<exists>x \<in> set (TopTier m'). set (leaves x) = {u \<in> ?us. (ID u, t) \<in> ?R ^^ Suc n})" by - (elim exE conjE, assumption)+
  let ?root = "add_roots (TopTier m') treeRoot"
  have "parseNetq unmarshal treeRoot data input = Some (Inr ?root)"
    using answer loop m(1,2) by (simp add: parseNetq_def Let_def)
  moreover have "map_of (Vertices treeRoot) j = Some x \<or>
      ID x = j \<and> set (leaves x) = {u \<in> ?us. (ID u, j) \<in> ?R ^^ Suc n} \<and> set (leaves x) \<noteq> {}"
    if "map_of (Vertices ?root) j = Some x" for j x
    using add_roots_at [OF that] top by blast
  moreover have "\<exists>j x. map_of (Vertices ?root) j = Some x \<and> set (leaves x) = {u \<in> ?us. (ID u, t) \<in> ?R ^^ Suc n}"
    if "u \<in> ?us" "(ID u, t) \<in> ?R ^^ Suc n" for u t
  proof -
    note ends = covers [rule_format, OF that]
    obtain y where y: "y \<in> set (TopTier m')" "set (leaves y) = {u \<in> ?us. (ID u, t) \<in> ?R ^^ Suc n}"
      using ends by blast
    obtain x where x: "x \<in> set (TopTier m')" "ID x = ID y" "map_of (Vertices ?root) (ID y) = Some x"
      using add_roots_get [OF y(1)] by blast
    have "set (leaves x) = set (leaves y)" using top [rule_format, OF x(1)] top [rule_format, OF y(1)] x(2) by simp
    then show ?thesis using x(3) y(2) by blast
  qed
  ultimately show ?thesis by blast
qed

text \<open>The edges and the requested nodes of an answer as lists.\<close>

definition link_edge :: "CNode list \<Rightarrow> string \<Rightarrow> (string \<times> string) list" where
  "link_edge cs l =
     (case split_str ''-*-'' l of
        [a, b] \<Rightarrow> if tier_of cs a < tier_of cs b then [(a, b)] else if tier_of cs b < tier_of cs a then [(b, a)] else []
      | _ \<Rightarrow> [])"

lemma netq_edges_list: "netq_edges r = set (concat (map (link_edge (concat (nr_Nodes r))) (nr_Links r)))"
proof -
  have "(i, j) \<in> set (link_edge cs l) \<longleftrightarrow>
      tier_of cs i < tier_of cs j \<and> (split_str ''-*-'' l = [i, j] \<or> split_str ''-*-'' l = [j, i])" for cs l i j
  proof (cases "\<exists>a b. split_str ''-*-'' l = [a, b]")
    case True
    then obtain a b where "split_str ''-*-'' l = [a, b]" by blast
    then show ?thesis by (auto simp: link_edge_def)
  next
    case False
    then have "link_edge cs l = []" unfolding link_edge_def by (auto split: list.splits)
    moreover have "split_str ''-*-'' l \<noteq> [i, j]" "split_str ''-*-'' l \<noteq> [j, i]" using False by blast+
    ultimately show ?thesis by simp
  qed
  then show ?thesis unfolding netq_edges_def by auto
qed

lemma netq_switches_list: "netq_switches r = set (map cn_Id (filter (\<lambda>c. cn_Tier c \<noteq> -1) (concat (nr_Nodes r))))"
  unfolding netq_switches_def by auto

lemma netq_leaves_list:
  "netq_leaves r input = set (map (\<lambda>c. Vertex (cn_Name c) (cn_Id c) [] [])
     (filter (\<lambda>c. cn_Tier c = -1 \<and> mget0 False input (cn_Name c)) (concat (nr_Nodes r))))"
  unfolding netq_leaves_def by auto

definition sample_netq :: NetqResponse where
  "sample_netq = \<lparr>nr_Links = [''l1-*-n1'', ''n2-*-l1'', ''l1-*-s1'', ''l2-*-s1'', ''n3-*-l2'', ''l1-*-s2'', ''s2-*-l2''],
     nr_Nodes = [[\<lparr>cn_Id = ''n1'', cn_Name = ''node1'', cn_Tier = -1\<rparr>, \<lparr>cn_Id = ''n2'', cn_Name = ''node2'', cn_Tier = -1\<rparr>,
       \<lparr>cn_Id = ''n3'', cn_Name = ''node3'', cn_Tier = -1\<rparr>],
      [\<lparr>cn_Id = ''l1'', cn_Name = ''leaf1'', cn_Tier = 1\<rparr>, \<lparr>cn_Id = ''l2'', cn_Name = ''leaf2'', cn_Tier = 1\<rparr>,
       \<lparr>cn_Id = ''s1'', cn_Name = ''spine1'', cn_Tier = 2\<rparr>, \<lparr>cn_Id = ''s2'', cn_Name = ''spine2'', cn_Tier = 2\<rparr>]]\<rparr>"

definition sample_rank :: "string \<Rightarrow> nat" where
  "sample_rank i = (if hd i = CHR ''n'' then 0 else if hd i = CHR ''l'' then 1 else 2)"

lemma sample_netq_edges:
  "netq_edges sample_netq = {(''n1'', ''l1''), (''n2'', ''l1''), (''n3'', ''l2''), (''l1'', ''s1''), (''l2'', ''s1''), (''l1'', ''s2''), (''l2'', ''s2'')}"
proof -
  have "concat (map (link_edge (concat (nr_Nodes sample_netq))) (nr_Links sample_netq)) =
    [(''n1'', ''l1''), (''n2'', ''l1''), (''l1'', ''s1''), (''l2'', ''s1''), (''n3'', ''l2''), (''l1'', ''s2''), (''l2'', ''s2'')]"
    by code_simp
  from arg_cong [where f = set, OF this] show ?thesis unfolding netq_edges_list by auto
qed

lemma parseNetq_tree_witness:
  "\<exists>root. parseNetq (\<lambda>_. Inr [sample_netq]) (Vertex [] [] [] []) [] [(''node1'', True), (''node3'', True)] = Some (Inr root) \<and>
     (\<exists>j x. map_of (Vertices root) j = Some x \<and>
       set (leaves x) = {Vertex ''node1'' ''n1'' [] [], Vertex ''node3'' ''n3'' [] []})"
proof -
  let ?in = "[(''node1'', True), (''node3'', True)]"
  let ?us = "{Vertex ''node1'' ''n1'' [] [], Vertex ''node3'' ''n3'' [] []}"
  have us: "netq_leaves sample_netq ?in = ?us" by (simp add: netq_leaves_list sample_netq_def mget0_def)
  have sw: "netq_switches sample_netq = {''l1'', ''l2'', ''s1'', ''s2''}" by (simp add: netq_switches_list sample_netq_def)
  have links: "layered_links (netq_edges sample_netq) (ID ` netq_leaves sample_netq ?in) (netq_switches sample_netq) sample_rank (Suc 1)"
    unfolding layered_links_def us sw sample_netq_edges by (auto simp: sample_rank_def)
  have up: "(''n1'', ''s1'') \<in> netq_edges sample_netq ^^ Suc 1" "(''n3'', ''s1'') \<in> netq_edges sample_netq ^^ Suc 1"
    unfolding sample_netq_edges relpow.simps One_nat_def by blast+
  then have path: "{u \<in> ?us. (ID u, ''s1'') \<in> netq_edges sample_netq ^^ Suc 1} = ?us" by (auto simp del: relpow.simps)
  have ids: "distinct (map cn_Id (concat (nr_Nodes sample_netq)))" by (simp add: sample_netq_def)
  have node: "Vertex ''node1'' ''n1'' [] [] \<in> ?us" by simp
  have "netq_leaves sample_netq ?in \<noteq> {}" unfolding us by simp
  from parseNetq_tree [of "\<lambda>_. Inr [sample_netq]" "[]", OF refl ids links this, unfolded us, of "Vertex [] [] [] []"]
  obtain root where "parseNetq (\<lambda>_. Inr [sample_netq]) (Vertex [] [] [] []) [] ?in = Some (Inr root)"
    and all: "\<forall>u \<in> ?us. \<forall>t. (ID u, t) \<in> netq_edges sample_netq ^^ Suc 1 \<longrightarrow> (\<exists>j x. map_of (Vertices root) j = Some x \<and>
       set (leaves x) = {u \<in> ?us. (ID u, t) \<in> netq_edges sample_netq ^^ Suc 1})" by - (elim exE conjE, assumption)+
  moreover from all [rule_format, OF node, unfolded vertex.sel, OF up(1)]
  have "\<exists>j x. map_of (Vertices root) j = Some x \<and> set (leaves x) = ?us" unfolding path .
  ultimately show ?thesis by - (rule exI, rule conjI)
qed

end
