(* ===== verification/Infiniband.thy ===== *)
theory Infiniband
  imports Ib Pods Paging
begin

text \<open>
  \<open>pkg/providers/infiniband\<close>: the providers that read the fabric with \<open>ibnetdiscover\<close> and the NVLink domains
  with \<open>nvidia-smi\<close>, on bare metal with \<open>pdsh\<close> and in Kubernetes with commands in pods
  (\<open>common.go\<close>, \<open>bm.go\<close>, \<open>k8s.go\<close>, \<open>provider_bm.go\<close>, \<open>provider_k8s.go\<close>), and \<open>pkg/providers/cw\<close>, which
  runs \<open>ibnetdiscover\<close> once. Starting a process and the API server are arguments that thread the state \<open>'s\<close>.
  A result \<open>None\<close> is a panic (an index out of range) or a merger that does not return.
\<close>

section \<open>Text read in lines\<close>

text \<open>
  A scanner hands out the lines before one that is too long, and fails after them: what a loop does with them
  happens before the error.
\<close>

definition scanned :: "string \<Rightarrow> string list \<times> string option" where
  "scanned text =
     (let ls = split_on (CHR 0x0A) text
      in if \<exists>l \<in> set ls. max_token \<le> length l
         then (map drop_cr (takeWhile (\<lambda>l. length l < max_token) ls), Some ''bufio.Scanner: token too long'')
         else (scan_lines text, None))"

lemma scanned_text_of: "\<forall>l \<in> set ls. line_ok l \<Longrightarrow> scanned (text_of ls) = (ls, None)"
  using scan_text_of [of ls] by (simp add: scanned_def)

text \<open>A loop over the lines whose step may panic.\<close>

definition scan_loop :: "(string \<Rightarrow> 'a \<Rightarrow> 'a option) \<Rightarrow> string list \<Rightarrow> 'a \<Rightarrow> 'a option" where
  "scan_loop f ls x = fold (\<lambda>l r. Option.bind r (f l)) ls (Some x)"

lemma scan_loop_simps [simp]:
  "scan_loop f [] x = Some x"
  "scan_loop f (l # ls) x = Option.bind (f l x) (scan_loop f ls)"
proof -
  have none: "fold (\<lambda>l r. Option.bind r (f l)) ls None = None" for ls by (induction ls) simp_all
  show "scan_loop f (l # ls) x = Option.bind (f l x) (scan_loop f ls)"
    by (cases "f l x") (simp_all add: scan_loop_def none)
qed (simp add: scan_loop_def)

section \<open>The fabric\<close>

definition cmdClusterID :: string where
  "cmdClusterID = ''nvidia-smi -q | grep \"ClusterUUID'' @ [CHR 0x5C] @ ''|CliqueId\" | sort -u''"

type_synonym 's ibnetdiscover = "string \<Rightarrow> 's \<Rightarrow> string res \<times> 's"

text \<open>
  The nodes one after the other: one that an earlier answer had an adapter of is not asked, and one that fails
  to answer is passed over. The state is the set of these nodes and the roots by ID.
\<close>

type_synonym ib_found = "(string, bool) gomap \<times> (string, vertex) gomap"

definition found_step :: "vertex list \<times> (string, string) gomap \<Rightarrow> ib_found \<Rightarrow> ib_found" where
  "found_step fabric st =
     (case (fabric, st) of ((ibRoots, hca), (nodeVisited, rootMap)) \<Rightarrow>
        (fold (\<lambda>nodeName. mput nodeName True) (mvals hca) nodeVisited, fold (\<lambda>v. mput (ID v) v) ibRoots rootMap))"

fun ib_loop :: "'s ibnetdiscover \<Rightarrow> compute_instances list \<Rightarrow> string list \<Rightarrow> ib_found \<Rightarrow> 's \<Rightarrow> ib_found res option \<times> 's" where
  "ib_loop run cis [] st s = (Some (Inr st), s)"
| "ib_loop run cis (node # ns) st s =
     (if map_of (fst st) node \<noteq> None then ib_loop run cis ns st s
      else case run node s of
             (Inl err, s) \<Rightarrow> ib_loop run cis ns st s
           | (Inr stdout, s) \<Rightarrow>
               if \<not> str_contains stdout ''Topology file:'' then ib_loop run cis ns st s
               else (case ib_GenerateTopologyConfig stdout cis of
                       Inl err \<Rightarrow> (Some (Inl (''IB GenerateTopologyConfig failed: '' @ err)), s)
                     | Inr None \<Rightarrow> (None, s)
                     | Inr (Some fabric) \<Rightarrow> ib_loop run cis ns (found_step fabric st) s))"

definition getIbTree :: "compute_instances list \<Rightarrow> 's ibnetdiscover \<Rightarrow> 's \<Rightarrow> vertex res option \<times> 's" where
  "getIbTree cis run s =
     (case ib_loop run cis (GetNodeNameList cis) ([], []) s of
        (None, s) \<Rightarrow> (None, s)
      | (Some (Inl err), s) \<Rightarrow> (Some (Inl err), s)
      | (Some (Inr (nodeVisited, rootMap)), s) \<Rightarrow>
          (map_option (\<lambda>merger. Inr (Vertex [] [] (fold (\<lambda>v. mput (ID v) v) (TopTier merger) []) [])) (NewMerger (mvals rootMap)), s))"

definition ib_toGraph :: "domain_map \<Rightarrow> vertex \<Rightarrow> vertex" where
  "ib_toGraph domainMap treeRoot =
     Vertex [] [] [(TopologyTree, treeRoot), (TopologyBlock, ToBlocks domainMap)] []"

section \<open>NVLink domains on bare metal\<close>

record Cluster =
  cl_node :: string
  cl_UUID :: string
  cl_cliqueID :: string

definition Cluster_ID :: "Cluster \<Rightarrow> string res" where
  "Cluster_ID c =
     (if length (cl_UUID c) = 0 then Inl (''missing ClusterUUID for node '' @ quote (cl_node c))
      else if length (cl_cliqueID c) = 0 then Inl (''missing CliqueId for node '' @ quote (cl_node c))
      else Inr (cl_UUID c @ ''.'' @ cl_cliqueID c))"

text \<open>The new value of an ID, and the nodes with an ambiguous one.\<close>

definition setID :: "string \<Rightarrow> string \<Rightarrow> string \<Rightarrow> (string, bool) gomap \<Rightarrow> string \<times> (string, bool) gomap" where
  "setID nodename i val invalid = (if length i = 0 then (val, invalid) else (i, mput nodename True invalid))"

type_synonym cluster_state = "(string, Cluster) gomap \<times> (string, bool) gomap"

definition cluster_line :: "string \<Rightarrow> cluster_state \<Rightarrow> cluster_state option" where
  "cluster_line nodeLine st =
     (case map trim_space (split_on (CHR '':'') nodeLine) of
        nodeName # idName # val # _ \<Rightarrow>
          (let (clusters, invalid) = st;
               cluster = (case map_of clusters nodeName of
                            Some cluster \<Rightarrow> cluster
                          | None \<Rightarrow> \<lparr>cl_node = nodeName, cl_UUID = [], cl_cliqueID = []\<rparr>)
           in Some (if idName = ''CliqueId''
                    then (case setID nodeName (cl_cliqueID cluster) val invalid of
                            (i, invalid) \<Rightarrow> (mput nodeName (cluster\<lparr>cl_cliqueID := i\<rparr>) clusters, invalid))
                    else if idName = ''ClusterUUID''
                    then (case setID nodeName (cl_UUID cluster) val invalid of
                            (i, invalid) \<Rightarrow> (mput nodeName (cluster\<lparr>cl_UUID := i\<rparr>) clusters, invalid))
                    else (mput nodeName cluster clusters, invalid)))
      | _ \<Rightarrow> None)"

definition add_cluster :: "string \<times> Cluster \<Rightarrow> domain_map \<Rightarrow> domain_map res" where
  "add_cluster entry domainMap =
     (case entry of (nodeName, cluster) \<Rightarrow>
        bind_sum (Cluster_ID cluster) (\<lambda>clusterID. Inr (AddHost clusterID nodeName nodeName domainMap)))"

definition populateDomainsFromPdshOutput :: "string \<Rightarrow> domain_map res option" where
  "populateDomainsFromPdshOutput stdout =
     (case scanned stdout of (ls, err) \<Rightarrow>
        map_option
          (\<lambda>(clusters, invalid).
             case err of
               Some err \<Rightarrow> Inl err
             | None \<Rightarrow> fold_sum add_cluster (fold mdel (mkeys invalid) clusters) NewDomainMap)
          (scan_loop cluster_line ls ([], [])))"

section \<open>The provider on bare metal\<close>

definition IBNetDiscoverBM_Run :: "'s exec \<Rightarrow> 's ibnetdiscover" where
  "IBNetDiscoverBM_Run exec node = Pdsh exec ''sudo ibnetdiscover'' [node] [''-N'']"

definition ProviderBM_GenerateTopologyConfig :: "'s exec \<Rightarrow> compute_instances list \<Rightarrow> ('s, vertex) pcall" where
  "ProviderBM_GenerateTopologyConfig exec cis =
     (if length cis > 1
      then return_pcall (Inl (NewError StatusBadRequest ''on-prem does not support multi-region topology requests''))
      else then_pcall (call_res StatusInternalServerError [] (answered (Pdsh exec cmdClusterID (GetNodeNameList cis) [])))
             (\<lambda>stdout. then_pcall
                (call_res StatusInternalServerError ''failed to populate NVL domains: '' (\<lambda>s. (populateDomainsFromPdshOutput stdout, s)))
                (\<lambda>domainMap. then_pcall
                   (call_res StatusInternalServerError ''getIbTree failed: '' (getIbTree cis (IBNetDiscoverBM_Run exec)))
                   (\<lambda>treeRoot. return_pcall (Inr (ib_toGraph domainMap treeRoot))))))"

definition bm_Instances2NodeMap :: "string list \<Rightarrow> (string, string) gomap" where
  "bm_Instances2NodeMap names = const_map (\<lambda>node. node) names"

definition bm_GetInstancesRegions :: "string list \<Rightarrow> (string, string) gomap" where
  "bm_GetInstancesRegions names = const_map (\<lambda>node. ''local'') names"

section \<open>Pods\<close>

text \<open>What the code uses of the API server: daemon sets, pods, selectors and commands in pods.\<close>

record ('s, 'e) pod_env =
  pe_get_ds :: "string \<Rightarrow> string \<Rightarrow> 's \<Rightarrow> (string, string) gomap res \<times> 's"
  pe_list_pods :: "'s list_pods"
  pe_selector :: "(string, string) gomap \<Rightarrow> string"
  pe_new_executor :: "string \<Rightarrow> string \<Rightarrow> string list \<Rightarrow> 'e res"
  pe_stream :: "'e \<Rightarrow> 's \<Rightarrow> ((string \<times> string) + string) \<times> 's"

definition pods_of :: "('s, 'e) pod_env \<Rightarrow> string \<Rightarrow> string \<Rightarrow> string \<Rightarrow> 's \<Rightarrow> pod list res \<times> 's" where
  "pods_of env = GetDaemonSetPods (pe_get_ds env) (pe_list_pods env) (pe_selector env)"

definition run_in_pod :: "('s, 'e) pod_env \<Rightarrow> 's exec_pod" where
  "run_in_pod env = ExecInPod (pe_new_executor env) (pe_stream env)"

definition IBNetDiscoverK8S_Run :: "('s, 'e) pod_env \<Rightarrow> (string \<Rightarrow> string) \<Rightarrow> 's ibnetdiscover" where
  "IBNetDiscoverK8S_Run env getenv node =
     (let dataBrokerNamespace = getenv ''NODE_DATA_BROKER_NAMESPACE''
      in then_res (pods_of env (getenv ''NODE_DATA_BROKER_NAME'') dataBrokerNamespace node)
           (\<lambda>pods s.
              case pods of
                [pod] \<Rightarrow> run_in_pod env (pod_Name pod) dataBrokerNamespace [''ibnetdiscover''] s
              | _ \<Rightarrow> (Inl (''expected 1 data broker pod on '' @ quote node @ '' node; got '' @ show_nat (length pods)), s)))"

text \<open>One line of the output of \<open>nvidia-smi\<close>: the clique and the cluster read so far.\<close>

definition id_line :: "string \<Rightarrow> string \<times> string \<Rightarrow> (string \<times> string) option" where
  "id_line line st =
     (let arr = split_on (CHR '':'') line
      in if trim_space (arr ! 0) \<in> {''CliqueId'', ''ClusterUUID''} \<and> length arr < 2 then None
         else if trim_space (arr ! 0) = ''CliqueId'' then Some (trim_space (arr ! 1), snd st)
         else if trim_space (arr ! 0) = ''ClusterUUID'' then Some (fst st, trim_space (arr ! 1))
         else Some st)"

definition parseClusterID :: "string \<Rightarrow> string res option" where
  "parseClusterID txt =
     (case scanned txt of (ls, err) \<Rightarrow>
        map_option
          (\<lambda>(cliqueId, clusterUUID).
             case err of
               Some err \<Rightarrow> Inl (''failed to scan '' @ quote txt @ '': '' @ err)
             | None \<Rightarrow>
                 if length clusterUUID = 0 then Inl ''missing ClusterUUID''
                 else if length cliqueId = 0 then Inl ''missing CliqueId''
                 else Inr (clusterUUID @ ''.'' @ cliqueId))
          (scan_loop id_line ls ([], [])))"

definition GetClusterID :: "('s, 'e) pod_env \<Rightarrow> string \<Rightarrow> ('s, string) service" where
  "GetClusterID env hostname s =
     (case pods_of env ''nvidia-device-plugin-daemonset'' ''gpu-operator'' hostname s of
        (Inl err, s) \<Rightarrow> (Some (Inl err), s)
      | (Inr [], s) \<Rightarrow> (Some (Inr []), s)
      | (Inr [pod], s) \<Rightarrow>
          (case run_in_pod env (pod_Name pod) ''gpu-operator'' [''sh'', ''-c'', cmdClusterID] s of
             (Inl err, s) \<Rightarrow> (Some (Inl err), s)
           | (Inr buf, s) \<Rightarrow> (parseClusterID buf, s))
      | (Inr pods, s) \<Rightarrow>
          (Some (Inl (''expected 1 nvidia-device-plugin-daemonset pod, got '' @ show_nat (length pods))), s))"

definition ib_GetNodeAnnotations :: "('s, 'e) pod_env \<Rightarrow> string \<Rightarrow> 's \<Rightarrow> (string, string) gomap option \<times> 's" where
  "ib_GetNodeAnnotations env hostname s =
     (let annotations = node_annotations hostname ''local''
      in case GetClusterID env hostname s of
           (None, s) \<Rightarrow> (None, s)
         | (Some (Inl err), s) \<Rightarrow> (Some annotations, s)
         | (Some (Inr clusterID), s) \<Rightarrow> (Some (mput KeyNodeClusterID clusterID annotations), s))"

section \<open>The provider in Kubernetes\<close>

definition ib_getParameters :: "('p \<Rightarrow> (string, string) gomap res) \<Rightarrow> ((string, string) gomap \<Rightarrow> string) \<Rightarrow> 'p \<Rightarrow> string option res" where
  "ib_getParameters decode selector params =
     bind_sum (decode params) (\<lambda>nodeSelector. Inr (if length nodeSelector \<noteq> 0 then Some (selector nodeSelector) else None))"

definition LoaderK8S ::
  "('p \<Rightarrow> (string, string) gomap res) \<Rightarrow> ((string, string) gomap \<Rightarrow> string) \<Rightarrow> (unit \<Rightarrow> 'g res) \<Rightarrow> ('g \<Rightarrow> 'k res) \<Rightarrow> 'p \<Rightarrow>
   ('g \<times> 'k \<times> string option) http_res" where
  "LoaderK8S decode selector in_cluster new_client params =
     bind_sum (with_code StatusBadRequest (ib_getParameters decode selector params)) (\<lambda>p.
     bind_sum (with_code StatusBadGateway (in_cluster ())) (\<lambda>cfg.
     bind_sum (with_code StatusBadGateway (new_client cfg)) (\<lambda>cl. Inr (cfg, cl, p))))"

definition annotated_domain :: "k8s_node \<Rightarrow> domain_map \<Rightarrow> domain_map" where
  "annotated_domain node domainMap =
     (case map_of (kn_Annotations node) KeyNodeClusterID of
        Some clusterID \<Rightarrow> AddHost clusterID (kn_Name node) (kn_Name node) domainMap
      | None \<Rightarrow> domainMap)"

definition ProviderK8S_GenerateTopologyConfig ::
  "('s, 'e) pod_env \<Rightarrow> (string \<Rightarrow> string) \<Rightarrow> ('o \<Rightarrow> 's \<Rightarrow> k8s_node list res \<times> 's) \<Rightarrow> 'o \<Rightarrow> 'o option \<Rightarrow> compute_instances list \<Rightarrow>
   ('s, vertex) pcall" where
  "ProviderK8S_GenerateTopologyConfig env getenv list_nodes no_opt opt cis =
     (if length cis > 1
      then return_pcall (Inl (NewError StatusBadRequest ''on-prem does not support multi-region topology requests''))
      else then_pcall (call_res StatusBadGateway [] (answered (GetNodes list_nodes no_opt opt)))
             (\<lambda>node_list. then_pcall
                (call_res StatusInternalServerError ''getIbTree failed: '' (getIbTree cis (IBNetDiscoverK8S_Run env getenv)))
                (\<lambda>treeRoot. return_pcall (Inr (ib_toGraph (fold annotated_domain node_list NewDomainMap) treeRoot)))))"

section \<open>One call for the whole fabric\<close>

definition cw_GenerateTopologyConfig :: "'s exec \<Rightarrow> compute_instances list \<Rightarrow> ('s, vertex) pcall" where
  "cw_GenerateTopologyConfig exec instances =
     (if length instances > 1
      then return_pcall (Inl (NewError StatusBadRequest ''CW does not support mult-region topology requests''))
      else then_pcall (call_res StatusInternalServerError [] (answered (exec ''ibnetdiscover'' [])))
             (\<lambda>stdout. then_pcall
                (call_res StatusInternalServerError []
                   (\<lambda>s. (case ib_GenerateTopologyConfig stdout instances of
                            Inl err \<Rightarrow> Some (Inl err)
                          | Inr r \<Rightarrow> map_option Inr r, s)))
                (\<lambda>(ibRoots, hca). return_pcall (Inr (Vertex [] [] (fold (\<lambda>v. mput (ID v) v) ibRoots []) [])))))"

definition cw_Instances2NodeMap :: "string list \<Rightarrow> (string, string) gomap" where
  "cw_Instances2NodeMap names = const_map (\<lambda>node. node) names"

definition cw_GetInstancesRegions :: "string list \<Rightarrow> (string, string) gomap" where
  "cw_GetInstancesRegions names = const_map (\<lambda>node. []) names"

definition cw_GetNodeRegion :: "k8s_node \<Rightarrow> string" where
  "cw_GetNodeRegion node = mget0 [] (kn_Labels node) ''topology.kubernetes.io/region''"

definition cw_GetNodeInstance :: "k8s_node \<Rightarrow> string" where
  "cw_GetNodeInstance node = mget0 [] (kn_Labels node) ''kubernetes.io/hostname''"

section \<open>The domains that a text gives\<close>

lemma scan_loop_snoc: "scan_loop f (ls @ [l]) x = Option.bind (scan_loop f ls x) (f l)"
  by (simp add: scan_loop_def)

text \<open>A line of output as \<open>pdsh\<close> and \<open>nvidia-smi\<close> print it, with the padding \<open>a\<close> and \<open>b\<close>.\<close>

type_synonym id_entry = "string \<times> string \<times> string"

definition id_word :: "string \<Rightarrow> bool" where
  "id_word w \<longleftrightarrow> w \<noteq> [] \<and> \<not> is_space (hd w) \<and> \<not> is_space (last w) \<and> CHR '':'' \<notin> set w \<and> CHR 0x0A \<notin> set w \<and> length w < 1000"

definition id_text :: "nat \<Rightarrow> nat \<Rightarrow> id_entry \<Rightarrow> string" where
  "id_text a b e =
     (case e of (node, key, val) \<Rightarrow> node @ '': '' @ replicate a CHR '' '' @ key @ replicate b CHR '' '' @ '': '' @ val)"

definition id_entry_ok :: "id_entry \<Rightarrow> bool" where
  "id_entry_ok e \<longleftrightarrow> (case e of (node, key, val) \<Rightarrow> id_word node \<and> key \<in> {''CliqueId'', ''ClusterUUID''} \<and> id_word val)"

text \<open>The values printed for a key of a node, in order.\<close>

definition ids :: "id_entry list \<Rightarrow> string \<Rightarrow> string \<Rightarrow> string list" where
  "ids rs node key = map (snd \<circ> snd) (filter (\<lambda>e. fst e = node \<and> fst (snd e) = key) rs)"

definition first :: "string list \<Rightarrow> string" where
  "first xs = (case xs of [] \<Rightarrow> [] | x # _ \<Rightarrow> x)"

lemma trim_padded:
  assumes "w \<noteq> []" and "\<not> is_space (hd w)" and "\<not> is_space (last w)"
  shows "trim_space (replicate a CHR '' '' @ w @ replicate b CHR '' '') = w"
proof -
  have sp: "dropWhile is_space (replicate n CHR '' '' @ xs) = dropWhile is_space xs" for n xs
    by (induction n) (simp_all add: is_space_def)
  have "dropWhile is_space (w @ xs) = w @ xs" for xs using assms(1,2) by (cases w) simp_all
  moreover have "dropWhile is_space (rev w) = rev w" using assms(1,3) by (cases w rule: rev_cases) simp_all
  ultimately show ?thesis by (simp add: trim_space_def sp)
qed

lemma key_word: "key \<in> {''CliqueId'', ''ClusterUUID''} \<Longrightarrow> id_word key"
  by (auto simp: id_word_def is_space_def)

lemma id_text_split:
  assumes "id_entry_ok (node, key, val)"
  shows "map trim_space (split_on (CHR '':'') (id_text a b (node, key, val))) = [node, key, val]"
proof -
  have w: "id_word node" "id_word key" "id_word val" using assms key_word by (auto simp: id_entry_ok_def)
  have "CHR '':'' \<notin> set (replicate n CHR '' '')" for n by simp
  then have "CHR '':'' \<notin> set ('' '' @ replicate a CHR '' '' @ key @ replicate b CHR '' '')" "CHR '':'' \<notin> set ('' '' @ val)"
    using w by (auto simp: id_word_def)
  from split_on_append [OF this(1), of "'' '' @ val"] split_on_none [OF this(2)]
  have "split_on (CHR '':'') (id_text a b (node, key, val)) =
      [node, replicate (Suc a) CHR '' '' @ key @ replicate b CHR '' '', replicate 1 CHR '' '' @ val @ replicate 0 CHR '' '']"
    using split_on_append [of "CHR '':''" node] w(1) by (simp add: id_text_def id_word_def)
  moreover have "trim_space node = node" using w(1) by (intro trim_space_id) (simp_all add: id_word_def)
  moreover have "trim_space (replicate (Suc a) CHR '' '' @ key @ replicate b CHR '' '') = key"
    "trim_space (replicate 1 CHR '' '' @ val @ replicate 0 CHR '' '') = val"
    by (rule trim_padded; use w in \<open>simp add: id_word_def\<close>)+
  ultimately show ?thesis by (simp only: list.map)
qed

lemma id_text_ok:
  assumes "id_entry_ok e" and "a < 1000" and "b < 1000"
  shows "line_ok (id_text a b e)"
proof -
  obtain node key val where e: "e = (node, key, val)" by (cases e)
  have w: "id_word node" "id_word key" "id_word val" using assms(1) key_word by (auto simp: id_entry_ok_def e)
  then have "last (id_text a b e) = last val" by (simp add: id_text_def e id_word_def)
  moreover have "last val \<noteq> CHR 0x0D" using w(3) by (auto simp: id_word_def is_space_def)
  ultimately show ?thesis
    using w assms(2,3) by (auto simp: line_ok_def drop_cr_def id_text_def e id_word_def max_token_def)
qed

text \<open>The clusters and the ambiguous nodes after some lines.\<close>

definition cluster_inv :: "id_entry list \<Rightarrow> cluster_state \<Rightarrow> bool" where
  "cluster_inv rs st \<longleftrightarrow>
     distinct (mkeys (fst st)) \<and>
     (\<forall>node. map_of (fst st) node =
        (if node \<in> fst ` set rs
         then Some \<lparr>cl_node = node, cl_UUID = first (ids rs node ''ClusterUUID''), cl_cliqueID = first (ids rs node ''CliqueId'')\<rparr>
         else None)) \<and>
     (\<forall>node. node \<in> set (mkeys (snd st)) \<longleftrightarrow> 1 < length (ids rs node ''ClusterUUID'') \<or> 1 < length (ids rs node ''CliqueId''))"

lemma first_snoc: "x \<noteq> [] \<Longrightarrow> [] \<notin> set xs \<Longrightarrow> first (xs @ [x]) = (if first xs = [] then x else first xs)"
  by (auto simp: first_def split: list.splits)

lemma first_Nil: "[] \<notin> set xs \<Longrightarrow> first xs = [] \<longleftrightarrow> xs = []"
  by (auto simp: first_def split: list.splits)

lemma ids_snoc:
  "ids (rs @ [(node, key, val)]) n k = (if n = node \<and> k = key then ids rs n k @ [val] else ids rs n k)"
  by (auto simp: ids_def)

lemma ids_ok: "\<forall>e \<in> set rs. id_entry_ok e \<Longrightarrow> [] \<notin> set (ids rs n k)"
  by (auto simp: ids_def id_entry_ok_def id_word_def)

lemma ids_seen: "n \<notin> fst ` set rs \<Longrightarrow> ids rs n k = []"
  by (auto simp: ids_def filter_empty_conv)

lemma set_id_first:
  assumes "val \<noteq> []" and "[] \<notin> set xs"
  shows "setID node (first xs) val invalid =
    (first (xs @ [val]), if xs = [] then invalid else mput node True invalid)"
  using assms first_Nil [OF assms(2)] by (simp add: setID_def first_snoc)

lemma cluster_inv_step:
  assumes inv: "cluster_inv rs (clusters, invalid)" and rs: "\<forall>e \<in> set rs. id_entry_ok e" and e: "id_entry_ok (node, key, val)"
  shows "\<exists>st. cluster_line (id_text a b (node, key, val)) (clusters, invalid) = Some st \<and> cluster_inv (rs @ [(node, key, val)]) st"
proof -
  let ?U = "ids rs node ''ClusterUUID''" and ?C = "ids rs node ''CliqueId''"
  let ?c = "\<lparr>cl_node = node, cl_UUID = first ?U, cl_cliqueID = first ?C\<rparr>"
  note no_empty = ids_ok [OF rs]
  have v: "val \<noteq> []" and key: "key = ''CliqueId'' \<or> key = ''ClusterUUID''" using e by (auto simp: id_entry_ok_def id_word_def)
  have old: "(case map_of clusters node of Some cluster \<Rightarrow> cluster | None \<Rightarrow> \<lparr>cl_node = node, cl_UUID = [], cl_cliqueID = []\<rparr>) = ?c"
    using inv ids_seen [of node rs] by (auto simp: cluster_inv_def first_def)
  have line: "cluster_line (id_text a b (node, key, val)) (clusters, invalid) =
      Some (if key = ''CliqueId''
        then (mput node (?c\<lparr>cl_cliqueID := first (?C @ [val])\<rparr>) clusters, if ?C = [] then invalid else mput node True invalid)
        else (mput node (?c\<lparr>cl_UUID := first (?U @ [val])\<rparr>) clusters, if ?U = [] then invalid else mput node True invalid))"
    unfolding cluster_line_def id_text_split [OF e] using key by (rule disjE) (simp_all add: old set_id_first [OF v no_empty])
  show ?thesis
    using key
  proof
    assume k: "key = ''CliqueId''"
    then have "cluster_inv (rs @ [(node, key, val)])
        (mput node (?c\<lparr>cl_cliqueID := first (?C @ [val])\<rparr>) clusters, if ?C = [] then invalid else mput node True invalid)"
      using inv unfolding cluster_inv_def fst_conv snd_conv by (auto simp: update_conv' ids_snoc simp del: set_map)
    then show ?thesis using line k by simp
  next
    assume k: "key = ''ClusterUUID''"
    then have "cluster_inv (rs @ [(node, key, val)])
        (mput node (?c\<lparr>cl_UUID := first (?U @ [val])\<rparr>) clusters, if ?U = [] then invalid else mput node True invalid)"
      using inv unfolding cluster_inv_def fst_conv snd_conv by (auto simp: update_conv' ids_snoc simp del: set_map)
    then show ?thesis using line k by simp
  qed
qed

lemma cluster_inv_all:
  "\<forall>e \<in> set rs. id_entry_ok e \<Longrightarrow> \<exists>st. scan_loop cluster_line (map (id_text a b) rs) ([], []) = Some st \<and> cluster_inv rs st"
proof (induction rs rule: rev_induct)
  case Nil
  then show ?case by (simp add: cluster_inv_def ids_def)
next
  case (snoc e rs)
  then obtain st where st: "scan_loop cluster_line (map (id_text a b) rs) ([], []) = Some st" "cluster_inv rs st" by auto
  obtain node key val where e: "e = (node, key, val)" by (cases e)
  have "\<exists>st'. cluster_line (id_text a b e) st = Some st' \<and> cluster_inv (rs @ [e]) st'"
    using cluster_inv_step [of rs "fst st" "snd st" node key val a b] st(2) snoc.prems by (simp add: e)
  then show ?case using st(1) by (auto simp: scan_loop_snoc)
qed

lemma host_of_clusters:
  "host_of (fold (\<lambda>(n, c). AddHost (cl_UUID c @ ''.'' @ cl_cliqueID c) n n) cs m) d h =
    (if \<exists>c. (h, c) \<in> set cs \<and> d = cl_UUID c @ ''.'' @ cl_cliqueID c then Some h else host_of m d h)"
  by (induction cs arbitrary: m) (auto simp: host_of_AddHost)

text \<open>A node that both IDs were read of once.\<close>

definition clear_node :: "id_entry list \<Rightarrow> string \<Rightarrow> string \<Rightarrow> string \<Rightarrow> bool" where
  "clear_node rs node uuid clique \<longleftrightarrow> ids rs node ''ClusterUUID'' = [uuid] \<and> ids rs node ''CliqueId'' = [clique]"

lemma populate_clusters:
  assumes rs: "\<forall>e \<in> set rs. id_entry_ok e" and ab: "a < 1000" "b < 1000"
  shows "\<exists>cs. populateDomainsFromPdshOutput (text_of (map (id_text a b) rs)) = Some (fold_sum add_cluster cs NewDomainMap) \<and>
    (\<forall>node c. (node, c) \<in> set cs \<longleftrightarrow> node \<in> fst ` set rs \<and>
       length (ids rs node ''ClusterUUID'') \<le> 1 \<and> length (ids rs node ''CliqueId'') \<le> 1 \<and>
       c = \<lparr>cl_node = node, cl_UUID = first (ids rs node ''ClusterUUID''), cl_cliqueID = first (ids rs node ''CliqueId'')\<rparr>)"
proof -
  obtain clusters invalid where st: "scan_loop cluster_line (map (id_text a b) rs) ([], []) = Some (clusters, invalid)"
    and inv: "cluster_inv rs (clusters, invalid)" using cluster_inv_all [OF rs] by (metis surj_pair)
  let ?cs = "fold mdel (mkeys invalid) clusters"
  have "\<forall>l \<in> set (map (id_text a b) rs). line_ok l" using id_text_ok rs ab by auto
  then have "populateDomainsFromPdshOutput (text_of (map (id_text a b) rs)) = Some (fold_sum add_cluster ?cs NewDomainMap)"
    by (simp add: populateDomainsFromPdshOutput_def scanned_text_of st)
  moreover have "distinct (mkeys (fold mdel ks m))" if "distinct (mkeys m)" for ks and m :: "(string, Cluster) gomap"
    using that by (induction ks arbitrary: m) simp_all
  then have "distinct (mkeys ?cs)" using inv by (simp add: cluster_inv_def)
  then have "(node, c) \<in> set ?cs \<longleftrightarrow> map_of ?cs node = Some c" for node c by simp
  moreover have "map_of ?cs node = (if node \<in> set (mkeys invalid) then None else map_of clusters node)" for node
    by (rule alm.del_all)
  ultimately show ?thesis
    using inv unfolding cluster_inv_def fst_conv snd_conv by (intro exI [of _ ?cs] conjI) (auto simp del: set_map)
qed

section \<open>The roots of the tree\<close>

text \<open>A graph whose links lead to lower ranks: the traversal of the merger reaches a compute node.\<close>

definition tiered :: "(string \<Rightarrow> nat) \<Rightarrow> vertex \<Rightarrow> bool" where
  "tiered rk v \<longleftrightarrow> (\<forall>u \<in> set (subs v). \<forall>(i, w) \<in> set (Vertices u). i = ID w \<and> rk i < rk (ID u))"

lemma tiered_child: "tiered rk v \<Longrightarrow> w \<in> snd ` set (Vertices v) \<Longrightarrow> tiered rk w"
proof -
  assume v: "tiered rk v" and "w \<in> snd ` set (Vertices v)"
  then have "w \<in> set (subs v)" using subs_kids [OF subs_self] by (simp add: kids_def)
  moreover have "u \<in> set (subs x)" if "u \<in> set (subs y)" "y \<in> set (subs x)" for u x y
    using that
  proof (induction x rule: subs.induct)
    case (1 n i cs m)
    show ?case
    proof (cases "y = Vertex n i cs m")
      case False
      then obtain k z where z: "(k, z) \<in> set cs" "y \<in> set (subs z)" using 1(3) by auto
      then have "u \<in> set (subs z)" using 1(1) [of "(k, z)" k z] 1(2) by blast
      then show ?thesis using z(1) by force
    qed (use 1 in simp)
  qed
  ultimately show "tiered rk w" using v unfolding tiered_def by blast
qed

lemma visit_none:
  "set ks \<subseteq> set (mkeys (Vertices v)) \<Longrightarrow> snd (fold (visit_child v) ks s) = [] \<Longrightarrow>
    fold (visit_child v) ks s = s \<and> set ks \<subseteq> fst s \<and> snd s = []"
proof (induction ks arbitrary: s)
  case (Cons k ks)
  have step: "fold (visit_child v) (k # ks) s = fold (visit_child v) ks (visit_child v k s)" by simp
  from Cons.IH [of "visit_child v k s"] Cons.prems
  have rest: "fold (visit_child v) ks (visit_child v k s) = visit_child v k s" "set ks \<subseteq> fst (visit_child v k s)"
    "snd (visit_child v k s) = []" by auto
  have "k \<in> fst s"
  proof (rule ccontr)
    assume "k \<notin> fst s"
    moreover obtain w where "map_of (Vertices v) k = Some w"
      using Cons.prems(1) set_fst_map_of [of k "Vertices v"] by auto
    ultimately show False using rest(3) by (simp add: visit_child_def)
  qed
  then have "visit_child v k s = s" by (simp add: visit_child_def)
  then show ?case using rest \<open>k \<in> fst s\<close> unfolding step by simp
qed simp

lemma next_layer_none:
  assumes "next_layer layer = []" and "v \<in> set layer"
  shows "set (mkeys (Vertices v)) \<subseteq> (\<lambda>v. ID v) ` set layer"
proof -
  have "fold next_children vs s = s \<and> (\<forall>v \<in> set vs. set (mkeys (Vertices v)) \<subseteq> fst s)"
    if "snd (fold next_children vs s) = []" for vs s
    using that
  proof (induction vs arbitrary: s)
    case (Cons v vs)
    then have rest: "fold next_children vs (next_children v s) = next_children v s"
      "\<forall>x \<in> set vs. set (mkeys (Vertices x)) \<subseteq> fst (next_children v s)" by auto
    then have "snd (next_children v s) = []" using Cons.prems by simp
    with visit_none [of "sort (mkeys (Vertices v))" v s]
    have "next_children v s = s" "set (mkeys (Vertices v)) \<subseteq> fst s" unfolding next_children_def by simp_all
    then show ?case using rest by simp
  qed simp
  from this [of layer "(set (map (\<lambda>v. ID v) layer), [])"] show ?thesis
    using assms unfolding next_layer_def by auto
qed

lemma traverse_tiered:
  assumes "layer \<noteq> []" and "\<forall>v \<in> set layer. tiered rk v"
  shows "\<exists>m'. traverse layer m = Some m' \<and> tiers m' \<noteq> [] \<and> last (tiers m') = layer"
  using assms
proof (induction layer m rule: traverse.induct)
  case (1 layer m)
  let ?m = "fold (\<lambda>v m. if is_leaf v then m\<lparr>nodes := mput (ID v) v (nodes m)\<rparr> else m) layer m"
  show ?case
  proof (cases "\<exists>v \<in> set layer. is_leaf v")
    case True
    then show ?thesis using 1(2) by (subst traverse.simps) (simp add: Let_def)
  next
    case False
    let ?n = "Min ((\<lambda>v. rk (ID v)) ` set layer)"
    have "?n \<in> (\<lambda>v. rk (ID v)) ` set layer" using 1(2) by (intro Min_in) simp_all
    then obtain v where v: "v \<in> set layer" "?n = rk (ID v)" by blast
    then obtain i w where iw: "(i, w) \<in> set (Vertices v)" using False by (cases "Vertices v") (auto simp: is_leaf_def)
    have "tiered rk v" using 1(3) v(1) by blast
    then have low: "rk i < rk (ID v)" using iw subs_self [of v] unfolding tiered_def by blast
    have "next_layer layer \<noteq> []"
    proof
      assume "next_layer layer = []"
      then have "i \<in> (\<lambda>v. ID v) ` set layer" using next_layer_none [of layer v] v(1) iw by force
      then have "?n \<le> rk i" by (intro Min_le) auto
      then show False using low v(2) by simp
    qed
    moreover have "\<forall>w \<in> set (next_layer layer). tiered rk w"
      using next_layer_child tiered_child 1(3) by blast
    ultimately obtain m' where "traverse (next_layer layer) ?m = Some m'" using 1(1) [OF 1(2) refl False] by blast
    then show ?thesis using 1(2) False by (subst traverse.simps) (simp add: Let_def)
  qed
qed

text \<open>So the merger, which the code does not ask to merge, hands back the roots it was given.\<close>

lemma NewMerger_tiered:
  assumes "\<forall>v \<in> set vs. tiered rk v"
  shows "\<exists>m. NewMerger vs = Some m \<and> set (TopTier m) = set vs"
proof (cases "vs = []")
  case True
  then show ?thesis by (simp add: NewMerger_def TopTier_def empty_merger_def)
next
  case False
  then have "sort_key (\<lambda>v. ID v) vs \<noteq> []" "\<forall>v \<in> set (sort_key (\<lambda>v. ID v) vs). tiered rk v" using assms by simp_all
  from traverse_tiered [OF this, of empty_merger] obtain m where
    m: "traverse (sort_key (\<lambda>v. ID v) vs) empty_merger = Some m" "tiers m \<noteq> []" "last (tiers m) = sort_key (\<lambda>v. ID v) vs"
    by (elim exE conjE)
  have "NewMerger vs = Some m" using False m(1) by (simp add: NewMerger_def)
  moreover have "set (TopTier m) = set vs" using m(2,3) by (simp add: TopTier_def)
  ultimately show ?thesis by blast
qed

text \<open>The fabric that a node answers with.\<close>

definition fabric_of :: "(string \<Rightarrow> string res) \<Rightarrow> compute_instances list \<Rightarrow> string \<Rightarrow> (vertex list \<times> (string, string) gomap) option" where
  "fabric_of resp cis node =
     (case resp node of
        Inl err \<Rightarrow> None
      | Inr out \<Rightarrow>
          if str_contains out ''Topology file:''
          then (case ib_GenerateTopologyConfig out cis of Inr (Some fabric) \<Rightarrow> Some fabric | _ \<Rightarrow> None) else None)"

definition fabrics :: "(string \<Rightarrow> string res) \<Rightarrow> compute_instances list \<Rightarrow> string list \<Rightarrow> (vertex list \<times> (string, string) gomap) list" where
  "fabrics resp cis qs = List.map_filter (fabric_of resp cis) qs"

definition not_covered :: "(string \<Rightarrow> string res) \<Rightarrow> compute_instances list \<Rightarrow> string \<Rightarrow> string \<Rightarrow> bool" where
  "not_covered resp cis q q' \<longleftrightarrow> (\<forall>ibRoots hca. fabric_of resp cis q = Some (ibRoots, hca) \<longrightarrow> q' \<notin> set (mvals hca))"

definition answers_parse :: "(string \<Rightarrow> string res) \<Rightarrow> compute_instances list \<Rightarrow> string list \<Rightarrow> bool" where
  "answers_parse resp cis ns \<longleftrightarrow>
     (\<forall>n \<in> set ns. \<forall>out. resp n = Inr out \<and> str_contains out ''Topology file:'' \<longrightarrow>
        (\<exists>fabric. ib_GenerateTopologyConfig out cis = Inr (Some fabric)))"

lemma found_visited:
  "set (mkeys (fst (found_step (ibRoots, hca) st))) = set (mvals hca) \<union> set (mkeys (fst st))"
proof -
  have "set (mkeys (fold (\<lambda>n. mput n True) ns m)) = set ns \<union> set (mkeys m)" for ns and m :: "(string, bool) gomap"
    by (induction ns arbitrary: m) (auto simp del: set_map)
  then show ?thesis by (simp add: found_step_def split: prod.split del: set_map)
qed

lemma found_roots:
  "map_of (snd (found_step (ibRoots, hca) st)) = map_of (fold (\<lambda>v. mput (ID v) v) ibRoots (snd st))"
  by (simp add: found_step_def split: prod.split)

text \<open>The run with a log of the nodes that were asked.\<close>

lemma ib_loop_log:
  assumes "answers_parse resp cis ns"
  shows "\<exists>qs. ib_loop (\<lambda>n log. (resp n, log @ [n])) cis ns st log = (Some (Inr (fold found_step (fabrics resp cis qs) st)), log @ qs) \<and>
    set qs \<subseteq> set ns \<and> (\<forall>q \<in> set qs. q \<notin> set (mkeys (fst st))) \<and> sorted_wrt (not_covered resp cis) qs \<and>
    (\<forall>n \<in> set ns. n \<in> set qs \<or> n \<in> set (mkeys (fst (fold found_step (fabrics resp cis qs) st))))"
  using assms
proof (induction ns arbitrary: st log)
  case Nil
  show ?case by (intro exI [of _ "[]"]) (simp add: fabrics_def map_filter_simps)
next
  case (Cons n ns)
  have rest: "answers_parse resp cis ns" using Cons.prems by (simp add: answers_parse_def)
  have mono: "n \<in> set (mkeys (fst st)) \<Longrightarrow> n \<in> set (mkeys (fst (fold found_step fs st)))" for fs n and st :: ib_found
  proof (induction fs arbitrary: st)
    case (Cons f fs)
    obtain ibRoots hca where "f = (ibRoots, hca)" by (cases f)
    then have "n \<in> set (mkeys (fst (found_step f st)))" using Cons.prems found_visited [of ibRoots hca st] by blast
    from Cons.IH [OF this] show ?case by simp
  qed simp
  show ?case
  proof (cases "map_of (fst st) n = None")
    case False
    then have "n \<in> set (mkeys (fst st))" unfolding set_fst_map_of .
    then show ?thesis using Cons.IH [OF rest, of st log] mono [of n st] False by fastforce
  next
    case True
    then have fresh: "n \<notin> set (mkeys (fst st))" unfolding set_fst_map_of by simp
    show ?thesis
    proof (cases "fabric_of resp cis n")
      case None
      then have step: "ib_loop (\<lambda>n log. (resp n, log @ [n])) cis (n # ns) st log =
          ib_loop (\<lambda>n log. (resp n, log @ [n])) cis ns st (log @ [n])"
        using True Cons.prems by (auto simp: fabric_of_def answers_parse_def split: sum.splits option.splits if_splits)
      have cov: "not_covered resp cis n q" for q using None by (simp add: not_covered_def)
      obtain qs where "ib_loop (\<lambda>n log. (resp n, log @ [n])) cis ns st (log @ [n]) =
            (Some (Inr (fold found_step (fabrics resp cis qs) st)), (log @ [n]) @ qs)"
          "set qs \<subseteq> set ns" "\<forall>q \<in> set qs. q \<notin> set (mkeys (fst st))" "sorted_wrt (not_covered resp cis) qs"
          "\<forall>n \<in> set ns. n \<in> set qs \<or> n \<in> set (mkeys (fst (fold found_step (fabrics resp cis qs) st)))"
        using Cons.IH [OF rest, of st "log @ [n]"] by blast
      moreover have "fabrics resp cis (n # qs) = fabrics resp cis qs" using None by (simp add: fabrics_def map_filter_simps)
      ultimately show ?thesis using step fresh cov by (intro exI [of _ "n # qs"]) (auto simp del: set_map)
    next
      case (Some fabric)
      obtain ibRoots hca where f: "fabric = (ibRoots, hca)" by (cases fabric)
      have step: "ib_loop (\<lambda>n log. (resp n, log @ [n])) cis (n # ns) st log =
          ib_loop (\<lambda>n log. (resp n, log @ [n])) cis ns (found_step fabric st) (log @ [n])"
        using True Some by (auto simp: fabric_of_def split: sum.splits option.splits if_splits)
      obtain qs where "ib_loop (\<lambda>n log. (resp n, log @ [n])) cis ns (found_step fabric st) (log @ [n]) =
            (Some (Inr (fold found_step (fabrics resp cis qs) (found_step fabric st))), (log @ [n]) @ qs)"
          "set qs \<subseteq> set ns" and qs: "\<forall>q \<in> set qs. q \<notin> set (mkeys (fst (found_step fabric st)))" and "sorted_wrt (not_covered resp cis) qs"
          "\<forall>n \<in> set ns. n \<in> set qs \<or> n \<in> set (mkeys (fst (fold found_step (fabrics resp cis qs) (found_step fabric st))))"
        using Cons.IH [OF rest, of "found_step fabric st" "log @ [n]"] by blast
      moreover have new: "q \<notin> set (mvals hca)" "q \<notin> set (mkeys (fst st))" if "q \<in> set qs" for q
        using qs that unfolding f found_visited by blast+
      moreover have "\<forall>q \<in> set qs. not_covered resp cis n q" using Some f new(1) by (simp add: not_covered_def)
      moreover have "fabrics resp cis (n # qs) = fabric # fabrics resp cis qs" using Some by (simp add: fabrics_def map_filter_simps)
      ultimately show ?thesis using step fresh by (intro exI [of _ "n # qs"]) (auto simp del: set_map ib_loop.simps)
    qed
  qed
qed

text \<open>What the steps over some fabrics leave behind.\<close>

lemma fabrics_mem: "f \<in> set (fabrics resp cis qs) \<Longrightarrow> \<exists>q \<in> set qs. fabric_of resp cis q = Some f"
  by (induction qs) (auto simp: fabrics_def map_filter_simps split: option.splits)

lemma found_root_keys: "set (mkeys (snd (found_step (ibRoots, hca) st))) = ID ` set ibRoots \<union> set (mkeys (snd st))"
proof -
  have "set (mkeys (fold (\<lambda>v. mput (ID v) v) vs m)) = ID ` set vs \<union> set (mkeys m)" for vs m
    by (induction vs arbitrary: m) (auto simp del: set_map)
  then show ?thesis by (simp add: found_step_def split: prod.split del: set_map)
qed

lemma found_root_vals:
  "(k, w) \<in> set (snd (found_step (ibRoots, hca) st)) \<Longrightarrow> (k, w) \<in> set (snd st) \<or> (k = ID w \<and> w \<in> set ibRoots)"
proof -
  have "(k, w) \<in> set (fold (\<lambda>v. mput (ID v) v) vs m) \<Longrightarrow> (k, w) \<in> set m \<or> (k = ID w \<and> w \<in> set vs)" for vs m
  proof (induction vs arbitrary: m)
    case (Cons x vs)
    then show ?case using set_mput_subset [of "ID x" x m] by fastforce
  qed simp
  then show "(k, w) \<in> set (snd (found_step (ibRoots, hca) st)) \<Longrightarrow> ?thesis"
    by (simp add: found_step_def split: prod.splits)
qed

lemma found_fabrics:
  "set (mkeys (fst (fold found_step fs st))) = set (mkeys (fst st)) \<union> (\<Union>(ibRoots, hca) \<in> set fs. set (mvals hca))"
  "set (mkeys (snd (fold found_step fs st))) = set (mkeys (snd st)) \<union> (\<Union>(ibRoots, hca) \<in> set fs. ID ` set ibRoots)"
  "(k, w) \<in> set (snd (fold found_step fs st)) \<Longrightarrow> (k, w) \<in> set (snd st) \<or> (k = ID w \<and> (\<exists>(ibRoots, hca) \<in> set fs. w \<in> set ibRoots))"
proof (induction fs arbitrary: st)
  case (Cons f fs)
  obtain ibRoots hca where f: "f = (ibRoots, hca)" by (cases f)
  have eq: "fold found_step (f # fs) st = fold found_step fs (found_step (ibRoots, hca) st)" by (simp add: f)
  {
    case 1
    show ?case using Cons.IH(1) [of "found_step (ibRoots, hca) st"] found_visited [of ibRoots hca st] unfolding eq f by auto
  next
    case 2
    show ?case using Cons.IH(2) [of "found_step (ibRoots, hca) st"] found_root_keys [of ibRoots hca st] unfolding eq f by auto
  next
    case 3
    then show ?case using Cons.IH(3) [of "found_step (ibRoots, hca) st"] found_root_vals [of k w ibRoots hca st] unfolding eq f by auto
  }
qed simp_all

section \<open>Properties\<close>

text \<open>
  C35. The fabrics that \<open>getIbTree\<close> puts together: when every answer with a topology parses and its links lead to lower
  ranks, the call returns. It asks nodes of the request only, never one that an adapter in an earlier answer names, and
  every node of the request was asked or is named in an answer. The tree has exactly the roots of the answers, one
  for each ID, as they were found.
\<close>

theorem getIbTree_fabrics:
  assumes ok: "answers_parse resp cis (GetNodeNameList cis)"
    and ranks: "\<forall>n ibRoots hca v. fabric_of resp cis n = Some (ibRoots, hca) \<and> v \<in> set ibRoots \<longrightarrow> tiered rk v"
  shows "\<exists>root qs. getIbTree cis (\<lambda>n log. (resp n, log @ [n])) [] = (Some (Inr root), qs) \<and>
    set qs \<subseteq> set (GetNodeNameList cis) \<and> sorted_wrt (not_covered resp cis) qs \<and>
    (\<forall>n \<in> set (GetNodeNameList cis). n \<in> set qs \<or> (\<exists>(ibRoots, hca) \<in> set (fabrics resp cis qs). n \<in> set (mvals hca))) \<and>
    (\<forall>j v. map_of (Vertices root) j = Some v \<longrightarrow> ID v = j \<and> (\<exists>(ibRoots, hca) \<in> set (fabrics resp cis qs). v \<in> set ibRoots)) \<and>
    (\<forall>(ibRoots, hca) \<in> set (fabrics resp cis qs). \<forall>v \<in> set ibRoots. map_of (Vertices root) (ID v) \<noteq> None)"
proof -
  obtain qs where run: "ib_loop (\<lambda>n log. (resp n, log @ [n])) cis (GetNodeNameList cis) ([], []) [] =
        (Some (Inr (fold found_step (fabrics resp cis qs) ([], []))), qs)"
      and qs: "set qs \<subseteq> set (GetNodeNameList cis)" "sorted_wrt (not_covered resp cis) qs"
      and all: "\<forall>n \<in> set (GetNodeNameList cis). n \<in> set qs \<or> n \<in> set (mkeys (fst (fold found_step (fabrics resp cis qs) ([], []))))"
    using ib_loop_log [OF ok, of "([], [])" "[]"] by auto
  let ?fs = "fabrics resp cis qs"
  obtain visited rootMap where st: "fold found_step ?fs ([], []) = (visited, rootMap)" by (metis surj_pair)
  have names: "set (mkeys visited) = (\<Union>(ibRoots, hca) \<in> set ?fs. set (mvals hca))"
    and keys: "set (mkeys rootMap) = (\<Union>(ibRoots, hca) \<in> set ?fs. ID ` set ibRoots)"
    using found_fabrics(1,2) [of ?fs "([], [])"] unfolding st by simp_all
  have entry: "k = ID w \<and> (\<exists>(ibRoots, hca) \<in> set ?fs. w \<in> set ibRoots)" if "(k, w) \<in> set rootMap" for k w
    using found_fabrics(3) [of k w ?fs "([], [])"] that unfolding st by simp
  have tiers: "tiered rk w" if w: "w \<in> set (mvals rootMap)" for w
  proof -
    obtain k where "(k, w) \<in> set rootMap" using w by auto
    then obtain ibRoots hca where "(ibRoots, hca) \<in> set ?fs" "w \<in> set ibRoots" using entry by blast
    then show ?thesis using ranks fabrics_mem [of "(ibRoots, hca)" resp cis qs] by blast
  qed
  then obtain m where m: "NewMerger (mvals rootMap) = Some m" "set (TopTier m) = set (mvals rootMap)"
    using NewMerger_tiered [of "mvals rootMap" rk] by blast
  let ?root = "Vertex [] [] (fold (\<lambda>v. mput (ID v) v) (TopTier m) []) []"
  have "getIbTree cis (\<lambda>n log. (resp n, log @ [n])) [] = (Some (Inr ?root), qs)"
    by (simp add: getIbTree_def run st m(1))
  moreover have "ID v = j \<and> (\<exists>(ibRoots, hca) \<in> set ?fs. v \<in> set ibRoots)" if "map_of (Vertices ?root) j = Some v" for j v
  proof -
    have "v \<in> set (TopTier m)" "ID v = j" using that alm.put_all_SomeD [of ID "\<lambda>v. v" "TopTier m" "[]" j v] by auto
    moreover from this obtain k where "(k, v) \<in> set rootMap" using m(2) by auto
    ultimately show ?thesis using entry by blast
  qed
  moreover have "map_of (Vertices ?root) (ID v) \<noteq> None" if f: "(ibRoots, hca) \<in> set ?fs" "v \<in> set ibRoots" for v ibRoots hca
  proof -
    have "ID v \<in> set (mkeys rootMap)" unfolding keys using f by blast
    then obtain w where w: "(ID v, w) \<in> set rootMap" by auto
    then have "ID v = ID w" "w \<in> set (TopTier m)" using entry m(2) by force+
    then have "ID v \<in> dom (map_of (Vertices ?root))" using alm.put_all_dom [of ID "\<lambda>v. v" "TopTier m" "[]"] by simp
    then show ?thesis by blast
  qed
  moreover have "n \<in> set qs \<or> (\<exists>(ibRoots, hca) \<in> set ?fs. n \<in> set (mvals hca))" if "n \<in> set (GetNodeNameList cis)" for n
    using all that names unfolding st fst_conv by blast
  ultimately show ?thesis using qs by (intro exI [of _ ?root] exI [of _ qs] conjI) (blast | fastforce)+
qed

definition sample_text :: string where
  "sample_text = text_of (''# Topology file: generated'' # fabric_lines sample_switches sample_hca)"

definition sample_spine :: vertex where
  "sample_spine = Vertex [] ''S-3'' [(''S-1'', Vertex [] ''S-1'' [(''n1'', leaf ''n1'' ''n1'')] []),
                                      (''S-2'', Vertex [] ''S-2'' [(''n2'', leaf ''n2'' ''n2'')] [])] []"

lemma sample_contains: "str_contains sample_text ''Topology file:''"
proof -
  have "str_contains (''# Topology file: '' @ xs) ''Topology file:''" for xs by (simp add: str_contains_def)
  from this [of "''generated'' @ [CHR 0x0A] @ text_of (fabric_lines sample_switches sample_hca)"]
  show ?thesis by (simp add: sample_text_def text_of_def)
qed

lemma sample_parse: "ParseIbnetdiscoverFile sample_text = Inr (sample_switches, sample_hca)"
proof -
  have ok: "\<forall>l \<in> set (''# Topology file: generated'' # fabric_lines sample_switches sample_hca). line_ok l"
    using fabric_lines_ok [OF sample_ok(1,3)] by (simp add: line_ok_def drop_cr_def max_token_def)
  have "ib_line ''# Topology file: generated'' st = st" for st by (simp add: ib_line_def split: prod.split)
  then show ?thesis
    using scan_text_of [OF ok] fold_fabric_lines [OF sample_ok]
    by (simp add: ParseIbnetdiscoverFile_def sample_text_def del: list.set)
qed

lemma sample_answer: "ib_GenerateTopologyConfig sample_text Ib.sample_cluster = Inr (Some ([sample_spine], sample_hca))"
proof -
  have "map_option TopTier (Option.bind (NewMerger [sample_spine]) Merge) = Some [sample_spine]" by code_simp
  then show ?thesis
    by (cases "Option.bind (NewMerger [sample_spine]) Merge")
      (simp_all add: ib_GenerateTopologyConfig_def sample_parse sample_tree sample_spine_def)
qed

lemma getIbTree_fabrics_witness:
  "\<exists>root qs. getIbTree Ib.sample_cluster (\<lambda>n log. (Inr sample_text, log @ [n])) [] = (Some (Inr root), qs) \<and> length qs = 1 \<and>
     map_of (Vertices root) ''S-3'' = Some sample_spine"
proof -
  let ?resp = "\<lambda>n::string. Inr sample_text :: string res" and ?rk = "\<lambda>i. if i = ''S-3'' then 2 else if i \<in> {''S-1'', ''S-2''} then 1 else 0"
  have f: "fabric_of ?resp Ib.sample_cluster n = Some ([sample_spine], sample_hca)" for n by (simp add: fabric_of_def sample_answer sample_contains)
  have ok: "answers_parse ?resp Ib.sample_cluster (GetNodeNameList Ib.sample_cluster)" by (simp add: answers_parse_def sample_answer)
  have rk: "tiered ?rk sample_spine" by (simp add: tiered_def sample_spine_def)
  have ns: "set (GetNodeNameList Ib.sample_cluster) = {''n1'', ''n2''}" by (simp add: GetNodeNameList_def Ib.sample_cluster_def)
  have vals: "set (mvals sample_hca) = {''n1'', ''n2''}" by (simp add: sample_hca_def)
  have ranks: "\<forall>n ibRoots hca v. fabric_of ?resp Ib.sample_cluster n = Some (ibRoots, hca) \<and> v \<in> set ibRoots \<longrightarrow> tiered ?rk v"
    using rk f by simp
  from getIbTree_fabrics [OF ok ranks, unfolded ns] obtain root qs where r: "getIbTree Ib.sample_cluster (\<lambda>n log. (?resp n, log @ [n])) [] = (Some (Inr root), qs)"
    and sub: "set qs \<subseteq> {''n1'', ''n2''}" and sorted: "sorted_wrt (not_covered ?resp Ib.sample_cluster) qs"
    and all: "\<forall>n \<in> {''n1'', ''n2''}. n \<in> set qs \<or> (\<exists>(ibRoots, hca) \<in> set (fabrics ?resp Ib.sample_cluster qs). n \<in> set (mvals hca))"
    and only: "\<forall>j v. map_of (Vertices root) j = Some v \<longrightarrow> ID v = j \<and> (\<exists>(ibRoots, hca) \<in> set (fabrics ?resp Ib.sample_cluster qs). v \<in> set ibRoots)"
    and there: "\<forall>(ibRoots, hca) \<in> set (fabrics ?resp Ib.sample_cluster qs). \<forall>v \<in> set ibRoots. map_of (Vertices root) (ID v) \<noteq> None"
    by - (elim exE conjE, assumption)+
  have not_nil: "qs \<noteq> []" using all by (auto simp: fabrics_def map_filter_simps)
  moreover have "\<not> not_covered ?resp Ib.sample_cluster q q'" if "q' \<in> set qs" for q q' using that sub f vals by (auto simp: not_covered_def)
  then have "tl qs = []" using sorted by (cases qs; cases "tl qs") auto
  ultimately have one: "length qs = 1" by (cases qs) auto
  have fs: "set (fabrics ?resp Ib.sample_cluster qs) = {([sample_spine], sample_hca)}"
    using not_nil f by (cases qs) (auto simp: fabrics_def map_filter_def)
  then have "map_of (Vertices root) ''S-3'' \<noteq> None" using there by (simp add: sample_spine_def)
  then have "map_of (Vertices root) ''S-3'' = Some sample_spine" using only unfolding fs by auto
  then show ?thesis using r one by blast
qed

text \<open>
  C36. The NVLink domains on bare metal: from lines in any order, each with one of the two IDs of a node and any
  padding, the domain map has exactly the nodes that each ID was printed of once, every one in the domain
  \<open>UUID.clique\<close>. A node with an ID printed twice is left out.
\<close>

theorem populateDomainsFromPdshOutput_nodes:
  assumes rs: "\<forall>e \<in> set rs. id_entry_ok e" and ab: "a < 1000" "b < 1000"
    and both: "\<forall>node \<in> fst ` set rs. ids rs node ''ClusterUUID'' \<noteq> [] \<and> ids rs node ''CliqueId'' \<noteq> []"
  shows "\<exists>domains. populateDomainsFromPdshOutput (text_of (map (id_text a b) rs)) = Some (Inr domains) \<and>
    (\<forall>d h i. host_of domains d h = Some i \<longleftrightarrow> i = h \<and> (\<exists>uuid clique. clear_node rs h uuid clique \<and> d = uuid @ ''.'' @ clique))"
proof -
  obtain cs where run: "populateDomainsFromPdshOutput (text_of (map (id_text a b) rs)) = Some (fold_sum add_cluster cs NewDomainMap)"
    and cs: "\<And>node c. (node, c) \<in> set cs \<longleftrightarrow> node \<in> fst ` set rs \<and>
       length (ids rs node ''ClusterUUID'') \<le> 1 \<and> length (ids rs node ''CliqueId'') \<le> 1 \<and>
       c = \<lparr>cl_node = node, cl_UUID = first (ids rs node ''ClusterUUID''), cl_cliqueID = first (ids rs node ''CliqueId'')\<rparr>"
    using populate_clusters [OF rs ab] by blast
  let ?add = "\<lambda>(n, c). AddHost (cl_UUID c @ ''.'' @ cl_cliqueID c) n n"
  have "add_cluster e m = Inr (?add e m)" if "e \<in> set cs" for e m
  proof -
    obtain node c where e: "e = (node, c)" by (cases e)
    then have "cl_UUID c \<noteq> []" "cl_cliqueID c \<noteq> []" using cs [of node c] that both first_Nil [OF ids_ok [OF rs]] by auto
    then show ?thesis by (simp add: add_cluster_def e Cluster_ID_def)
  qed
  then have "fold_sum add_cluster cs NewDomainMap = Inr (fold ?add cs NewDomainMap)" by (rule fold_sum_total)
  moreover have known: "(\<exists>c. (h, c) \<in> set cs \<and> d = cl_UUID c @ ''.'' @ cl_cliqueID c) \<longleftrightarrow>
      (\<exists>uuid clique. clear_node rs h uuid clique \<and> d = uuid @ ''.'' @ clique)" for h d
  proof -
    have "(\<exists>uuid clique. clear_node rs h uuid clique \<and> d = uuid @ ''.'' @ clique) \<longleftrightarrow> h \<in> fst ` set rs \<and>
        length (ids rs h ''ClusterUUID'') \<le> 1 \<and> length (ids rs h ''CliqueId'') \<le> 1 \<and>
        d = first (ids rs h ''ClusterUUID'') @ ''.'' @ first (ids rs h ''CliqueId'')"
    proof (cases "h \<in> fst ` set rs")
      case True
      then obtain u us c cs where "ids rs h ''ClusterUUID'' = u # us" "ids rs h ''CliqueId'' = c # cs"
        using both by (meson list.exhaust)
      then show ?thesis using True by (auto simp: clear_node_def first_def)
    next
      case False
      then show ?thesis using ids_seen [OF False] by (simp add: clear_node_def)
    qed
    then show ?thesis unfolding cs by auto
  qed
  have "host_of (fold ?add cs NewDomainMap) d h = Some i \<longleftrightarrow>
      i = h \<and> (\<exists>uuid clique. clear_node rs h uuid clique \<and> d = uuid @ ''.'' @ clique)" for d h i
    unfolding host_of_clusters known host_of_New by auto
  ultimately show ?thesis using run by (intro exI [of _ "fold ?add cs NewDomainMap"] conjI allI) (simp_all only:)
qed

definition sample_ids :: "id_entry list" where
  "sample_ids = [(''n2'', ''CliqueId'', ''7''), (''n1'', ''CliqueId'', ''7''), (''n1'', ''ClusterUUID'', ''abc''), (''n2'', ''ClusterUUID'', ''abc''),
     (''n3'', ''ClusterUUID'', ''abc''), (''n3'', ''CliqueId'', ''7''), (''n3'', ''CliqueId'', ''8'')]"

lemma populateDomainsFromPdshOutput_nodes_witness:
  "\<exists>domains. populateDomainsFromPdshOutput (text_of (map (id_text 8 20) sample_ids)) = Some (Inr domains) \<and>
     host_of domains ''abc.7'' ''n1'' = Some ''n1'' \<and> host_of domains ''abc.7'' ''n3'' = None"
proof -
  have ok: "\<forall>e \<in> set sample_ids. id_entry_ok e"
    by (simp add: sample_ids_def id_entry_ok_def id_word_def is_space_def)
  have both: "\<forall>node \<in> fst ` set sample_ids. ids sample_ids node ''ClusterUUID'' \<noteq> [] \<and> ids sample_ids node ''CliqueId'' \<noteq> []"
    by (simp add: sample_ids_def ids_def)
  have n1: "clear_node sample_ids ''n1'' ''abc'' ''7''" and n3: "\<not> clear_node sample_ids ''n3'' uuid clique" for uuid clique
    by (simp_all add: clear_node_def ids_def sample_ids_def)
  from populateDomainsFromPdshOutput_nodes [OF ok _ _ both, of 8 20] obtain domains where
    run: "populateDomainsFromPdshOutput (text_of (map (id_text 8 20) sample_ids)) = Some (Inr domains)"
    and host: "\<And>d h i. host_of domains d h = Some i \<longleftrightarrow> i = h \<and> (\<exists>uuid clique. clear_node sample_ids h uuid clique \<and> d = uuid @ ''.'' @ clique)"
    by auto
  have "host_of domains ''abc.7'' ''n1'' = Some ''n1''" unfolding host using n1 by fastforce
  moreover have "host_of domains ''abc.7'' ''n3'' = None" using host [of "''abc.7''" "''n3''"] n3 by (cases "host_of domains ''abc.7'' ''n3''") auto
  ultimately show ?thesis using run by blast
qed

text \<open>
  Corners of the code. A line without two colons ends the bare-metal provider in a panic, and so does an ID line of
  \<open>nvidia-smi\<close> without a colon in Kubernetes. A node without a device plugin is annotated with an empty cluster, which
  the Kubernetes provider takes for a domain, so that all such nodes share one accelerator domain.
\<close>

lemma populate_short_line: "populateDomainsFromPdshOutput (text_of [''n1: ssh'']) = None"
proof -
  have "\<forall>l \<in> set [''n1: ssh'']. line_ok l" by (simp add: line_ok_def drop_cr_def max_token_def)
  from scanned_text_of [OF this] show ?thesis by (simp add: populateDomainsFromPdshOutput_def cluster_line_def)
qed

lemma parseClusterID_short_line: "parseClusterID (text_of [''CliqueId'']) = None"
proof -
  have "\<forall>l \<in> set [''CliqueId'']. line_ok l" by (simp add: line_ok_def drop_cr_def max_token_def)
  moreover have "trim_space ''CliqueId'' = ''CliqueId''" by (simp add: trim_space_id is_space_def)
  ultimately show ?thesis using scanned_text_of [of "[''CliqueId'']"] by (simp add: parseClusterID_def id_line_def)
qed

lemma no_device_plugin:
  assumes "pods_of env ''nvidia-device-plugin-daemonset'' ''gpu-operator'' h s = (Inr [], s')"
  shows "ib_GetNodeAnnotations env h s = (Some (mput KeyNodeClusterID [] (node_annotations h ''local'')), s')"
  using assms by (simp add: ib_GetNodeAnnotations_def GetClusterID_def)

lemma annotated_domains:
  "host_of (fold annotated_domain ns m) d h =
    (if \<exists>node \<in> set ns. kn_Name node = h \<and> map_of (kn_Annotations node) KeyNodeClusterID = Some d then Some h else host_of m d h)"
  by (induction ns arbitrary: m) (auto simp: annotated_domain_def host_of_AddHost split: option.splits)

lemma empty_cluster_domain:
  assumes "node \<in> set ns" and "map_of (kn_Annotations node) KeyNodeClusterID = Some []"
  shows "host_of (fold annotated_domain ns NewDomainMap) [] (kn_Name node) = Some (kn_Name node)"
  using assms by (auto simp: annotated_domains)

end
