(* ===== verification/Toposim.thy ===== *)
theory Toposim
  imports Server Models TestSets Graph_Shape
begin

text \<open>
  \<open>pkg/toposim/server.go\<close>: the simulated topology service, which answers from a model, and
  \<open>pkg/providers/test/test.go\<close>: the provider that answers from a test graph or a model. The main result composes the
  simulator with the forwarding client of \<open>pkg/server/grpc_client.go\<close>. Listening and serving are left out.
\<close>

section \<open>The service\<close>

definition pb_of_node :: "pb_request \<Rightarrow> model_node \<Rightarrow> pb_instance" where
  "pb_of_node in' node =
     \<lparr>pb_Id = mn_Name node, pb_InstanceType = mn_Type node, pbi_Provider = pb_Provider in', pbi_Region = pb_Region in',
      pb_DataCenter = [], pb_NetworkLayers = mn_NetLayers node, pb_NvlinkDomain = mn_NVLink node\<rparr>"

definition DescribeTopology :: "Model \<Rightarrow> pb_request \<Rightarrow> pb_instance list" where
  "DescribeTopology model in' =
     fold (\<lambda>i res. case map_of (mod_Nodes model) i of
                     None \<Rightarrow> res
                   | Some node \<Rightarrow> res @ [pb_of_node in' node])
       (pb_InstanceIds in') []"

section \<open>The test provider\<close>

text \<open>\<open>load\<close> is \<open>NewModelFromFile\<close>; the decoder gives the path of the model.\<close>

definition test_Loader ::
  "('v \<Rightarrow> string res) \<Rightarrow> (string \<Rightarrow> Model res) \<Rightarrow> 'v \<Rightarrow> (vertex option \<times> (string, string) gomap) http_res" where
  "test_Loader decode load params =
     (case decode params of
        Inl err \<Rightarrow> Inl (NewError StatusBadRequest (''error decoding params: '' @ err))
      | Inr modelPath \<Rightarrow>
          if length modelPath = 0 then (case GetTreeTestSet False of (tree, instance2node) \<Rightarrow> Inr (Some tree, instance2node))
          else (case load modelPath of
                  Inl err \<Rightarrow> Inl (NewError StatusBadRequest err)
                | Inr model \<Rightarrow> Inr (ToGraph model)))"

definition test_GetComputeInstances :: "vertex option \<times> (string, string) gomap \<Rightarrow> compute_instances list" where
  "test_GetComputeInstances p = [\<lparr>Region = [], Instances = snd p\<rparr>]"

definition test_GenerateTopologyConfig :: "vertex option \<times> (string, string) gomap \<Rightarrow> vertex option" where
  "test_GenerateTopologyConfig p = fst p"

section \<open>The client of the service\<close>

text \<open>The nodes of a model that a request names, and what the client makes of one.\<close>

definition served_nodes :: "Model \<Rightarrow> compute_instances list \<Rightarrow> model_node list" where
  "served_nodes model cis =
     concat (map (\<lambda>ci. List.map_filter (map_of (mod_Nodes model)) (mkeys (Instances ci))) cis)"

definition node_topology :: "model_node \<Rightarrow> InstanceTopology" where
  "node_topology node =
     \<lparr>InstanceID = mn_Name node, BlockID = mn_NetLayers node ! 0, BlockName = [], SpineID = mn_NetLayers node ! 1, SpineName = [],
      DatacenterID = mn_NetLayers node ! 2, DatacenterName = [], AcceleratorID = mn_NVLink node\<rparr>"

lemma DescribeTopology_nodes:
  "DescribeTopology model in' = map (pb_of_node in') (List.map_filter (map_of (mod_Nodes model)) (pb_InstanceIds in'))"
proof -
  have "fold (\<lambda>i res. case map_of (mod_Nodes model) i of None \<Rightarrow> res | Some node \<Rightarrow> res @ [pb_of_node in' node]) is res =
      res @ map (pb_of_node in') (List.map_filter (map_of (mod_Nodes model)) is)" for "is" res
    by (induction "is" arbitrary: res) (auto simp: map_filter_simps split: option.splits)
  then show ?thesis by (simp add: DescribeTopology_def)
qed

lemma convert_node: "3 \<le> length (mn_NetLayers node) \<Longrightarrow> convert (pb_of_node in' node) = Some (node_topology node)"
  by (cases "mn_NetLayers node"; cases "tl (mn_NetLayers node)"; cases "tl (tl (mn_NetLayers node))")
    (auto simp: convert_def pb_of_node_def node_topology_def)

lemma convert_nodes:
  "\<forall>node \<in> set ns. 3 \<le> length (mn_NetLayers node) \<Longrightarrow>
    convert_all (map (pb_of_node in') ns) topo = Some (topo @ map node_topology ns)"
  by (induction ns arbitrary: topo) (simp_all add: convert_node Append_def)

lemma forward_loop_served:
  "\<forall>node \<in> set (served_nodes model cis). 3 \<le> length (mn_NetLayers node) \<Longrightarrow>
    forward_loop (\<lambda>in' s. (Inr (DescribeTopology model in'), s)) prv cis topo s =
      (Some (Inr (topo @ map node_topology (served_nodes model cis))), s)"
  by (induction cis arbitrary: topo) (simp_all add: served_nodes_def DescribeTopology_nodes convert_nodes)

section \<open>Properties\<close>

text \<open>
  C37. A request forwarded to the simulator is answered with the topology of the model: when every node of the model
  that the request names has three network layers, the IDs of the three tiers are disjoint and no instance is called
  like a switch, the request is served, the tree has exactly the instances of the request as its compute nodes and
  exactly the paths along the layers of the model's nodes, third to first, with the instances the model does not know
  under \<open>no-topology\<close>, and the blocks are the NVLink domains of the model's nodes with their hosts.
\<close>

theorem forwardRequest_toposim:
  assumes connect: "connect url = None" and deep: "\<forall>node \<in> set (served_nodes model cis). 3 \<le> length (mn_NetLayers node)"
    and tiers: "separate_tiers (map node_topology (served_nodes model cis))"
    and apart: "\<forall>i \<in> set (mkeys (instance_names cis)). i \<notin> switch_ids (map node_topology (served_nodes model cis)) \<and> i \<noteq> NoTopology"
    and reserved: "NoTopology \<notin> switch_ids (map node_topology (served_nodes model cis))"
  shows "\<exists>root tree. forwardRequest connect (\<lambda>in' s. (Inr (DescribeTopology model in'), s)) prv url cis s = (Some (Inr root), s) \<and>
    map_of (Vertices root) TopologyTree = Some tree \<and>
    tree_nodes tree = {(i, n). map_of (instance_names cis) i = Some n} \<and>
    has_tree cis (map node_topology (served_nodes model cis)) tree \<and>
    has_blocks cis (map node_topology (served_nodes model cis)) (map_of (Vertices root) TopologyBlock)"
proof -
  let ?topo = "map node_topology (served_nodes model cis)"
  have loop: "forward_loop (\<lambda>in' s. (Inr (DescribeTopology model in'), s)) prv cis NewClusterTopology s = (Some (Inr ?topo), s)"
    using forward_loop_served [OF deep, of prv NewClusterTopology s] by (simp add: NewClusterTopology_def)
  obtain root tree where graph: "fst (snd (ToThreeTierGraph prv cis False ?topo)) = Some root"
    and shape: "map_of (Vertices root) TopologyTree = Some tree" "tree_nodes tree = {(i, n). map_of (instance_names cis) i = Some n}"
    "has_tree cis ?topo tree" "has_blocks cis ?topo (map_of (Vertices root) TopologyBlock)"
    using graph_shape [OF tiers apart reserved, of prv] by blast
  have "forwardRequest connect (\<lambda>in' s. (Inr (DescribeTopology model in'), s)) prv url cis s = (Some (Inr root), s)"
    using connect loop graph by (auto simp: forwardRequest_def split: prod.split)
  then show ?thesis using shape by blast
qed

definition deep_model :: Model where
  "deep_model =
     \<lparr>mod_Switches = [], mod_CapacityBlocks = [],
      mod_Nodes = [(''n1'', \<lparr>mn_Name = ''n1'', mn_Metadata = [], mn_Type = ''H100'', mn_NVLink = ''nvl1'',
                             mn_NetLayers = [''leaf'', ''spine'', ''core''], mn_CapacityBlock = ''cb1''\<rparr>)],
      mod_Instances = []\<rparr>"

lemma forwardRequest_toposim_witness:
  "\<exists>root tree. forwardRequest (\<lambda>_. None) (\<lambda>in' s. (Inr (DescribeTopology deep_model in'), s)) ''aws'' ''sim:49025''
      [\<lparr>Region = ''r'', Instances = [(''n1'', ''host1''), (''n2'', ''host2'')]\<rparr>] () = (Some (Inr root), ()) \<and>
    map_of (Vertices root) TopologyTree = Some tree \<and> tree_nodes tree = {(''n1'', ''host1''), (''n2'', ''host2'')} \<and>
    at_path tree [''core'', ''spine'', ''leaf'', ''n1''] \<noteq> None \<and> at_path tree [NoTopology, ''n2''] \<noteq> None \<and>
    (\<exists>blocks b. map_of (Vertices root) TopologyBlock = Some blocks \<and> map_of (Vertices blocks) ''nvl1'' = Some b \<and>
       map_of (Vertices b) ''host1'' = Some (leaf ''host1'' ''n1''))"
proof -
  let ?cis = "[\<lparr>Region = ''r'', Instances = [(''n1'', ''host1''), (''n2'', ''host2'')]\<rparr>]"
  let ?inst = "\<lparr>InstanceID = ''n1'', BlockID = ''leaf'', BlockName = [], SpineID = ''spine'', SpineName = [],
    DatacenterID = ''core'', DatacenterName = [], AcceleratorID = ''nvl1''\<rparr>"
  have served: "map node_topology (served_nodes deep_model ?cis) = [?inst]"
    by (simp add: served_nodes_def deep_model_def node_topology_def map_filter_simps)
  have deep: "\<forall>node \<in> set (served_nodes deep_model ?cis). 3 \<le> length (mn_NetLayers node)"
    by (simp add: served_nodes_def deep_model_def map_filter_simps)
  have names: "instance_names ?cis = [(''n1'', ''host1''), (''n2'', ''host2'')]" by (simp add: instance_names_def mcopy_def)
  have nodes: "{(i, n). map_of [(''n1'', ''host1''), (''n2'', ''host2'')] i = Some n} = {(''n1'', ''host1''), (''n2'', ''host2'')}"
    by (auto split: if_splits)
  have tiers: "separate_tiers (map node_topology (served_nodes deep_model ?cis))"
    and apart: "\<forall>i \<in> set (mkeys (instance_names ?cis)). i \<notin> switch_ids (map node_topology (served_nodes deep_model ?cis)) \<and> i \<noteq> NoTopology"
    and reserved: "NoTopology \<notin> switch_ids (map node_topology (served_nodes deep_model ?cis))"
    unfolding served names by (simp_all add: separate_tiers_def switch_ids_def ids_of_def NoTopology_def)
  have connect: "(\<lambda>_. None :: string option) ''sim:49025'' = None" by simp
  from forwardRequest_toposim [OF connect deep tiers apart reserved, where prv = "''aws''" and s = "()"] obtain root tree
    where served_root: "forwardRequest (\<lambda>_. None) (\<lambda>in' s. (Inr (DescribeTopology deep_model in'), s)) ''aws'' ''sim:49025'' ?cis () = (Some (Inr root), ())"
      and shape: "map_of (Vertices root) TopologyTree = Some tree" "tree_nodes tree = {(''n1'', ''host1''), (''n2'', ''host2'')}"
      and tree: "has_tree ?cis [?inst] tree" and blocks: "has_blocks ?cis [?inst] (map_of (Vertices root) TopologyBlock)"
    unfolding served names nodes by blast
  have placed: "placed ?cis [?inst] = {?inst}" and unplaced: "unplaced ?cis [?inst] = {''n2''}"
    unfolding placed_def unplaced_def names by (auto split: if_splits)
  have chain: "chain ?inst = [''core'', ''spine'', ''leaf'', ''n1'']" by (simp add: chain_def)
  have path: "at_path tree p \<noteq> None" if "p = [''core'', ''spine'', ''leaf'', ''n1''] \<or> p = [NoTopology, ''n2'']" for p
  proof -
    have "p \<noteq> []" "hd p \<in> tops ?cis [?inst]" "links_of p \<subseteq> links ?cis [?inst]"
      using that by (auto simp: tops_def links_def placed unplaced chain)
    then show ?thesis using tree unfolding has_tree_def by blast
  qed
  obtain bs where bs: "map_of (Vertices root) TopologyBlock = Some bs"
    using blocks by (cases "map_of (Vertices root) TopologyBlock") (simp_all add: has_blocks_def placed)
  have inst: "?inst \<in> placed ?cis [?inst]" "AcceleratorID ?inst = ''nvl1''" "map_of (instance_names ?cis) (InstanceID ?inst) = Some ''host1''"
    unfolding placed names by simp_all
  obtain b where b: "map_of (Vertices bs) ''nvl1'' = Some b"
    using has_blocks_domain [OF blocks [unfolded bs] inst(1)] inst(2) by auto
  have host: "map_of (Vertices b) ''host1'' = Some (leaf ''host1'' ''n1'')"
    using has_blocks_host [OF blocks [unfolded bs] _ inst(1,3), of b] b unfolding placed by simp
  show ?thesis
    by (intro exI conjI) (rule served_root shape bs b host path [OF disjI1 [OF refl]] path [OF disjI2 [OF refl]])+
qed

text \<open>
  The models of the repository need not have three layers: with a node under two tiers of switches, which a model may
  well have, the forwarding client panics.
\<close>

lemma sample_two_layers:
  "map_option mn_NetLayers (map_of (mod_Nodes (projr (setNodeMap (\<lambda>_. []) sample_model))) ''n1'') = Some [''leaf'', ''core'']"
  by code_simp

lemma forwardRequest_two_layers:
  assumes "connect url = None" and "map_of (mod_Nodes model) i = Some node" and "length (mn_NetLayers node) < 3"
    and "i \<in> set (mkeys (Instances ci))"
  shows "forwardRequest connect (\<lambda>in' s. (Inr (DescribeTopology model in'), s)) prv url (ci # cis) s = (None, s)"
proof -
  have "node \<in> set (List.map_filter (map_of (mod_Nodes model)) (mkeys (Instances ci)))"
    using assms(2,4) by (force simp: map_filter_def)
  moreover have "convert (pb_of_node in' node) = None" for in'
    using assms(3) by (auto simp: convert_def pb_of_node_def split: list.splits)
  then have "convert_all (map (pb_of_node in') ns) topo = None" if "node \<in> set ns" for in' ns topo
    using that by (induction ns arbitrary: topo) (auto split: option.splits)
  ultimately show ?thesis using assms(1) by (simp add: forwardRequest_def DescribeTopology_nodes)
qed

end
