(* ===== verification/Dra.thy ===== *)
theory Dra
  imports K8s Paging
begin

text \<open>
  \<open>pkg/providers/dra\<close>: the provider that reads the NVLink domain of a node from a label. The API server, the decoder
  and the printing of selectors are arguments.
\<close>

definition DomainLabel :: string where "DomainLabel = ''nvidia.com/gpu.clique''"

definition dra_getParameters :: "('p \<Rightarrow> (string, string) gomap res) \<Rightarrow> ((string, string) gomap \<Rightarrow> string) \<Rightarrow> 'p \<Rightarrow> string option res" where
  "dra_getParameters decode selector params =
     bind_sum (decode params) (\<lambda>nodeSelector. Inr (if length nodeSelector \<noteq> 0 then Some (selector nodeSelector) else None))"

definition dra_Loader ::
  "('p \<Rightarrow> (string, string) gomap res) \<Rightarrow> ((string, string) gomap \<Rightarrow> string) \<Rightarrow> (unit \<Rightarrow> 'g res) \<Rightarrow> ('g \<Rightarrow> 'k res) \<Rightarrow> 'p \<Rightarrow>
   ('g \<times> 'k \<times> string option) http_res" where
  "dra_Loader decode selector in_cluster new_client params =
     bind_sum (with_code StatusBadRequest (dra_getParameters decode selector params)) (\<lambda>p.
     bind_sum (with_code StatusBadGateway (in_cluster ())) (\<lambda>cfg.
     bind_sum (with_code StatusBadGateway (new_client cfg)) (\<lambda>cl. Inr (cfg, cl, p))))"

text \<open>The last entry of a region counts.\<close>

definition region_indices :: "compute_instances list \<Rightarrow> (string, nat) gomap" where
  "region_indices instances = fold (\<lambda>(i, ci). mput (Region ci) i) (enumerate 0 instances) []"

definition dra_node :: "compute_instances list \<Rightarrow> k8s_node \<Rightarrow> domain_map \<Rightarrow> domain_map" where
  "dra_node instances node domainMap =
     (case map_of (kn_Labels node) DomainLabel of
        None \<Rightarrow> domainMap
      | Some clusterID \<Rightarrow>
          (case map_of (region_indices instances) (mget0 [] (kn_Annotations node) KeyNodeRegion) of
             None \<Rightarrow> domainMap
           | Some indx \<Rightarrow>
               (case map_of (Instances (instances ! indx)) (kn_Name node) of
                  None \<Rightarrow> domainMap
                | Some host \<Rightarrow> AddHost clusterID (kn_Name node) host domainMap)))"

definition dra_toGraph :: "domain_map \<Rightarrow> vertex" where
  "dra_toGraph domainMap = Vertex [] [] [(TopologyBlock, ToBlocks domainMap)] []"

definition dra_GenerateTopologyConfig ::
  "('o \<Rightarrow> 's \<Rightarrow> k8s_node list res \<times> 's) \<Rightarrow> 'o \<Rightarrow> 'o option \<Rightarrow> compute_instances list \<Rightarrow> ('s, vertex) call" where
  "dra_GenerateTopologyConfig list_nodes no_opt opt instances s =
     (case GetNodes list_nodes no_opt opt s of
        (Inl err, s) \<Rightarrow> (Inl (NewError StatusBadGateway err), s)
      | (Inr node_list, s) \<Rightarrow>
          (let domainMap = fold (dra_node instances) node_list NewDomainMap
           in if length domainMap = 0
              then Inl (NewError StatusBadGateway (''no matching nodes found; check label '' @ quote DomainLabel @
                     '' and annotations '' @ quote KeyNodeRegion @ '' and '' @ quote KeyNodeInstance))
              else Inr (dra_toGraph domainMap), s))"

definition dra_GetNodeAnnotations :: "string \<Rightarrow> (string, string) gomap" where
  "dra_GetNodeAnnotations hostname = node_annotations hostname ''local''"

section \<open>The hosts of a domain\<close>

text \<open>A node whose label, region and name the request matches, with its host.\<close>

definition dra_host :: "compute_instances list \<Rightarrow> k8s_node \<Rightarrow> string \<Rightarrow> string \<Rightarrow> bool" where
  "dra_host instances node d h \<longleftrightarrow>
     map_of (kn_Labels node) DomainLabel = Some d \<and>
     (\<exists>i. map_of (region_indices instances) (mget0 [] (kn_Annotations node) KeyNodeRegion) = Some i \<and>
        map_of (Instances (instances ! i)) (kn_Name node) = Some h)"

lemma dra_node_cases:
  "(\<exists>d h. dra_host instances node d h \<and> dra_node instances node m = AddHost d (kn_Name node) h m) \<or>
   (\<forall>d h. \<not> dra_host instances node d h) \<and> dra_node instances node m = m"
  by (auto simp: dra_host_def dra_node_def split: option.splits)

lemma dra_host_unique: "dra_host instances node d h \<Longrightarrow> dra_host instances node d' h' \<Longrightarrow> d' = d \<and> h' = h"
  by (auto simp: dra_host_def)

text \<open>The domains have exactly the matching nodes; of two nodes with one host the later counts.\<close>

lemma dra_hosts:
  "host_of (fold (dra_node instances) ns m) d h =
    (case find (\<lambda>node. dra_host instances node d h) (rev ns) of Some node \<Rightarrow> Some (kn_Name node) | None \<Rightarrow> host_of m d h)"
proof (induction ns rule: rev_induct)
  case (snoc node ns)
  show ?case
    using dra_node_cases [of instances node "fold (dra_node instances) ns m"]
  proof
    assume "\<exists>d h. dra_host instances node d h \<and>
      dra_node instances node (fold (dra_node instances) ns m) = AddHost d (kn_Name node) h (fold (dra_node instances) ns m)"
    then obtain d' h' where n: "dra_host instances node d' h'"
      "dra_node instances node (fold (dra_node instances) ns m) = AddHost d' (kn_Name node) h' (fold (dra_node instances) ns m)" by blast
    then have "dra_host instances node d h \<longleftrightarrow> d = d' \<and> h = h'" using dra_host_unique by blast
    then show ?thesis using n(2) snoc by (simp add: host_of_AddHost)
  qed (use snoc in simp)
qed simp

lemma dra_no_match:
  assumes "\<forall>node \<in> set ns. \<forall>d h. \<not> dra_host instances node d h" and "list_nodes (case opt of None \<Rightarrow> no_opt | Some opt \<Rightarrow> opt) s = (Inr ns, s')"
  shows "\<exists>msg. dra_GenerateTopologyConfig list_nodes no_opt opt instances s = (Inl (NewError StatusBadGateway msg), s')"
proof -
  have "fold (dra_node instances) ns m = m" for m
    using assms(1) by (induction ns arbitrary: m) (use dra_node_cases in force)+
  then show ?thesis
    unfolding dra_GenerateTopologyConfig_def GetNodes_def assms(2) Let_def by (auto simp only: NewDomainMap_def prod.case sum.case list.size if_True simp_thms)
qed

end
