(* ===== verification/Metrics.thy ===== *)
theory Metrics
  imports Prelude
begin

text \<open>
  \<open>pkg/metrics/metrics.go\<close>: the collectors of the server as maps from label values. A histogram keeps what was
  observed, in nanoseconds; the buckets and the registration are those of the client library.
\<close>

record metric_store =
  httpRequestDuration :: "(string list, int list) gomap"
  topologyRequestDuration :: "(string list, int list) gomap"
  missingTopologyNodes :: "(string list, int) gomap"
  validationErrorsTotal :: "(string list, nat) gomap"

definition Observe :: "string list \<Rightarrow> int \<Rightarrow> (string list, int list) gomap \<Rightarrow> (string list, int list) gomap" where
  "Observe labels x h = mput labels (mget0 [] h labels @ [x]) h"

definition AddHttpRequest :: "string \<Rightarrow> string \<Rightarrow> string \<Rightarrow> string \<Rightarrow> int \<Rightarrow> int \<Rightarrow> metric_store \<Rightarrow> metric_store" where
  "AddHttpRequest method' path proto from' code duration m =
     m\<lparr>httpRequestDuration := Observe [method', path, proto, from', show_int code] duration (httpRequestDuration m)\<rparr>"

definition AddTopologyRequest :: "string \<Rightarrow> string \<Rightarrow> int \<Rightarrow> int \<Rightarrow> metric_store \<Rightarrow> metric_store" where
  "AddTopologyRequest provider engine code duration m =
     m\<lparr>topologyRequestDuration := Observe [provider, engine, show_int code] duration (topologyRequestDuration m)\<rparr>"

definition SetMissingTopology :: "string \<Rightarrow> string \<Rightarrow> metric_store \<Rightarrow> metric_store" where
  "SetMissingTopology provider nodename m = m\<lparr>missingTopologyNodes := mput [provider, nodename] 1 (missingTopologyNodes m)\<rparr>"

definition AddValidationError :: "string \<Rightarrow> metric_store \<Rightarrow> metric_store" where
  "AddValidationError errorType m =
     m\<lparr>validationErrorsTotal := mput [errorType] (Suc (mget0 0 (validationErrorsTotal m) [errorType])) (validationErrorsTotal m)\<rparr>"

text \<open>The counters count: after some errors each type has as many more as it occurred.\<close>

lemma AddValidationError_counts:
  "mget0 0 (validationErrorsTotal (fold AddValidationError es m)) [e] = mget0 0 (validationErrorsTotal m) [e] + count_list es e"
  by (induction es arbitrary: m) (auto simp: AddValidationError_def mget0_def update_conv')

text \<open>A node is marked missing once and for all; the other gauges are not touched.\<close>

lemma SetMissingTopology_marks:
  "map_of (missingTopologyNodes (fold (SetMissingTopology provider) ns m)) [provider, n] =
    (if n \<in> set ns then Some 1 else map_of (missingTopologyNodes m) [provider, n])"
  by (induction ns arbitrary: m) (auto simp: SetMissingTopology_def update_conv')

end
