(* ===== verification/Broker.thy ===== *)
theory Broker
  imports Aws Crusoe Gcp Oci Nebius Dra Infiniband
begin

text \<open>
  \<open>cmd/node-data-broker-initc/main.go\<close>: the init container that asks the provider for the instance and the region of its
  node and writes them into the annotations of the node, where the Kubernetes and Slinky engines and the providers read
  them. The API server, the network, processes and files are arguments.
\<close>

record ('s, 'e) broker_env =
  be_send :: "'s http_do"
  be_exec :: "'s exec"
  be_read_file :: "string \<Rightarrow> string res"
  be_pods :: "('s, 'e) pod_env"
  be_get_node :: "string \<Rightarrow> 's \<Rightarrow> k8s_node res \<times> 's"
  be_update_node :: "k8s_node \<Rightarrow> 's \<Rightarrow> string option \<times> 's"

definition getAnnotations :: "('s, 'e) broker_env \<Rightarrow> string \<Rightarrow> string \<Rightarrow> ('s, (string, string) gomap) service" where
  "getAnnotations env provider nodeName =
     (if provider = ''aws'' then answered (aws_GetNodeAnnotations (be_send env))
      else if provider = ''crusoe'' then answered (\<lambda>s. (Inr (crusoe_GetNodeAnnotations nodeName), s))
      else if provider = ''gcp'' then answered (gcp_GetNodeAnnotations (be_send env))
      else if provider = ''oci'' then answered (oci_GetNodeAnnotations (be_send env))
      else if provider = ''nebius'' then answered (nebius_GetNodeAnnotations (be_exec env) (be_read_file env))
      else if provider = ''dra'' then answered (\<lambda>s. (Inr (dra_GetNodeAnnotations nodeName), s))
      else if provider = ''infiniband-k8s''
      then (\<lambda>s. case ib_GetNodeAnnotations (be_pods env) nodeName s of (r, s) \<Rightarrow> (map_option Inr r, s))
      else if provider = [] then answered (\<lambda>s. (Inl ''must set provider'', s))
      else answered (\<lambda>s. (Inl (''unsupported provider '' @ quote provider), s)))"

definition mergeNodeAnnotations :: "k8s_node \<Rightarrow> (string, string) gomap \<Rightarrow> k8s_node" where
  "mergeNodeAnnotations node annotations = node\<lparr>kn_Annotations := mcopy annotations (kn_Annotations node)\<rparr>"

text \<open>\<open>in_cluster\<close> gives the configuration and \<open>new_client\<close> what the broker calls with it.\<close>

definition broker_mainInternal ::
  "(unit \<Rightarrow> 'g res) \<Rightarrow> ('g \<Rightarrow> ('s, 'e) broker_env res) \<Rightarrow> (string \<Rightarrow> string) \<Rightarrow> string \<Rightarrow> ('s, unit) service" where
  "broker_mainInternal in_cluster new_client getenv provider s =
     (let nodeName = getenv ''NODE_NAME''
      in case in_cluster () of
           Inl err \<Rightarrow> (Some (Inl (''failed to load in-cluster config: '' @ err)), s)
         | Inr cfg \<Rightarrow>
             (case new_client cfg of
                Inl err \<Rightarrow> (Some (Inl (''failed to create clientset: '' @ err)), s)
              | Inr env \<Rightarrow>
                  (case getAnnotations env provider nodeName s of
                     (None, s) \<Rightarrow> (None, s)
                   | (Some (Inl err), s) \<Rightarrow> (Some (Inl err), s)
                   | (Some (Inr annotations), s) \<Rightarrow>
                       (case be_get_node env nodeName s of
                          (Inl err, s) \<Rightarrow> (Some (Inl (''failed to get node '' @ quote nodeName @ '': '' @ err)), s)
                        | (Inr node, s) \<Rightarrow>
                            (case be_update_node env (mergeNodeAnnotations node annotations) s of
                               (Some err, s) \<Rightarrow> (Some (Inl (''failed to update node: '' @ err)), s)
                             | (None, s) \<Rightarrow> (Some (Inr ()), s))))))"

section \<open>What the engines read\<close>

lemma mergeNodeAnnotations_keeps:
  "kn_Name (mergeNodeAnnotations node annotations) = kn_Name node"
  "kn_Labels (mergeNodeAnnotations node annotations) = kn_Labels node"
  by (simp_all add: mergeNodeAnnotations_def)

lemma mergeNodeAnnotations_reads:
  "map_of (kn_Annotations (mergeNodeAnnotations node (node_annotations i r))) KeyNodeInstance = Some i"
  "map_of (kn_Annotations (mergeNodeAnnotations node (node_annotations i r))) KeyNodeRegion = Some r"
  "KeyNodeRegion \<noteq> k \<Longrightarrow> KeyNodeInstance \<noteq> k \<Longrightarrow>
    map_of (kn_Annotations (mergeNodeAnnotations node (node_annotations i r))) k = map_of (kn_Annotations node) k"
proof -
  have "distinct (mkeys (node_annotations i r))" by (simp add: node_annotations_def KeyNodeInstance_def KeyNodeRegion_def)
  from map_of_mcopy [OF this]
  have "map_of (kn_Annotations (mergeNodeAnnotations node (node_annotations i r))) =
      map_of (kn_Annotations node) ++ map_of (node_annotations i r)" by (simp add: mergeNodeAnnotations_def)
  moreover have "KeyNodeInstance \<noteq> KeyNodeRegion" by (simp add: KeyNodeInstance_def KeyNodeRegion_def)
  ultimately show "map_of (kn_Annotations (mergeNodeAnnotations node (node_annotations i r))) KeyNodeInstance = Some i"
    "map_of (kn_Annotations (mergeNodeAnnotations node (node_annotations i r))) KeyNodeRegion = Some r"
    "KeyNodeRegion \<noteq> k \<Longrightarrow> KeyNodeInstance \<noteq> k \<Longrightarrow>
      map_of (kn_Annotations (mergeNodeAnnotations node (node_annotations i r))) k = map_of (kn_Annotations node) k"
    by (simp_all add: node_annotations_def map_add_def)
qed

text \<open>A cluster whose nodes were all annotated for a provider with one region.\<close>

definition annotated_locally :: "k8s_node list \<Rightarrow> k8s_node list" where
  "annotated_locally ns = map (\<lambda>node. mergeNodeAnnotations node (node_annotations (kn_Name node) ''local'')) ns"

lemma local_instances:
  "fold node_step (annotated_locally ns) ([], []) =
    (if ns = [] then ([], []) else ([(''local'', const_map (\<lambda>n. n) (map kn_Name ns))], [''local'']))"
proof (induction ns rule: rev_induct)
  case (snoc node ns)
  let ?node = "mergeNodeAnnotations node (node_annotations (kn_Name node) ''local'')"
  have "annotated_locally (ns @ [node]) = annotated_locally ns @ [?node]" by (simp add: annotated_locally_def)
  then show ?case
    using snoc by (cases "ns = []") (simp_all add: node_step_def mergeNodeAnnotations_reads mergeNodeAnnotations_keeps mget0_def const_map_def)
qed (simp add: annotated_locally_def)

lemma local_getComputeInstances:
  "ns \<noteq> [] \<Longrightarrow> getComputeInstances (annotated_locally ns) =
    [\<lparr>Region = ''local'', Instances = const_map (\<lambda>n. n) (map kn_Name ns)\<rparr>]"
  by (simp add: getComputeInstances_def local_instances mget0_def)

lemma region_indices_one: "region_indices [\<lparr>Region = r, Instances = m\<rparr>] = [(r, 0)]"
  by (simp add: region_indices_def)

text \<open>The hosts of the domains that the DRA provider makes of such a cluster.\<close>

lemma local_dra_hosts:
  "host_of (fold (dra_node (getComputeInstances (annotated_locally ns))) (annotated_locally ns) NewDomainMap) d h = Some i \<longleftrightarrow>
    i = h \<and> (\<exists>node \<in> set ns. kn_Name node = h \<and> map_of (kn_Labels node) DomainLabel = Some d)"
proof (cases "ns = []")
  case False
  let ?ns = "annotated_locally ns"
  have host: "dra_host (getComputeInstances ?ns) node d h \<longleftrightarrow> kn_Name node = h \<and> map_of (kn_Labels node) DomainLabel = Some d"
    if node: "node \<in> set ?ns" for node
  proof -
    obtain x where x: "x \<in> set ns" "node = mergeNodeAnnotations x (node_annotations (kn_Name x) ''local'')"
      using node by (auto simp: annotated_locally_def)
    then show ?thesis
      by (auto simp: dra_host_def local_getComputeInstances [OF False] region_indices_one mergeNodeAnnotations_reads
          mergeNodeAnnotations_keeps mget0_def const_map_lookup)
  qed
  let ?found = "find (\<lambda>node. dra_host (getComputeInstances ?ns) node d h) (rev ?ns)"
  have "kn_Name node = h" if "?found = Some node" for node
  proof -
    have "node \<in> set ?ns \<and> dra_host (getComputeInstances ?ns) node d h"
      using that by (auto simp: find_Some_iff) (metis length_rev nth_mem set_rev)
    then show ?thesis using host by blast
  qed
  moreover have "?found \<noteq> None \<longleftrightarrow> (\<exists>node \<in> set ns. kn_Name node = h \<and> map_of (kn_Labels node) DomainLabel = Some d)"
  proof -
    have "?found \<noteq> None \<longleftrightarrow> (\<exists>node \<in> set ?ns. kn_Name node = h \<and> map_of (kn_Labels node) DomainLabel = Some d)"
      using host by (auto simp: find_None_iff)
    then show ?thesis by (auto simp: annotated_locally_def mergeNodeAnnotations_keeps)
  qed
  ultimately show ?thesis unfolding dra_hosts by (cases ?found) auto
qed (simp add: annotated_locally_def)

section \<open>A run on every node\<close>

text \<open>An API server that keeps the nodes by name, and the init containers of all of them one after the other.\<close>

type_synonym node_store = "(string, k8s_node) gomap"

definition store_env :: "(node_store, 'e) broker_env \<Rightarrow> (node_store, 'e) broker_env" where
  "store_env env = env\<lparr>
     be_get_node := (\<lambda>name s. (case map_of s name of None \<Rightarrow> Inl (''nodes '' @ quote name @ '' not found'') | Some node \<Rightarrow> Inr node, s)),
     be_update_node := (\<lambda>node s. (None, mput (kn_Name node) node s))\<rparr>"

definition broker_on :: "(node_store, 'e) broker_env \<Rightarrow> string \<Rightarrow> string \<Rightarrow> node_store \<Rightarrow> node_store" where
  "broker_on env provider name s = snd (broker_mainInternal Inr (\<lambda>_. Inr (store_env env)) (\<lambda>_. name) provider s)"

definition named_store :: "node_store \<Rightarrow> bool" where
  "named_store s \<longleftrightarrow> distinct (mkeys s) \<and> (\<forall>(name, node) \<in> set s. kn_Name node = name)"

lemma mput_at: "k \<notin> set (mkeys xs) \<Longrightarrow> mput k v (xs @ (k, u) # ys) = xs @ (k, v) # ys"
  by (induction xs) auto

lemma broker_on_dra:
  assumes "named_store (xs @ (name, node) # ys)"
  shows "broker_on env ''dra'' name (xs @ (name, node) # ys) = xs @ (name, mergeNodeAnnotations node (dra_GetNodeAnnotations name)) # ys"
proof -
  have "name \<notin> set (mkeys xs)" "kn_Name node = name" using assms by (auto simp: named_store_def)
  moreover from this have "map_of (xs @ (name, node) # ys) name = Some node" by (simp add: map_of_eq_None_iff [symmetric] map_add_def)
  ultimately show ?thesis
    by (simp add: broker_on_def broker_mainInternal_def Let_def getAnnotations_def answered_def store_env_def
        mergeNodeAnnotations_keeps mput_at del: map_of_append)
qed

lemma brokers_dra:
  "named_store (xs @ ys) \<Longrightarrow> fold (broker_on env ''dra'') (mkeys ys) (xs @ ys) =
    xs @ map (\<lambda>(name, node). (name, mergeNodeAnnotations node (dra_GetNodeAnnotations name))) ys"
proof (induction ys arbitrary: xs)
  case (Cons y ys)
  obtain name node where y: "y = (name, node)" by (cases y)
  let ?y = "(name, mergeNodeAnnotations node (dra_GetNodeAnnotations name))"
  have "named_store ((xs @ [?y]) @ ys)" using Cons.prems by (auto simp: named_store_def y mergeNodeAnnotations_keeps)
  from Cons.IH [OF this] broker_on_dra [of xs name node ys env] Cons.prems show ?case by (simp add: y)
qed simp

section \<open>Properties\<close>

text \<open>
  C38. From the broker to the domains: when the broker for the provider \<open>dra\<close> has run on every node of the cluster, the
  compute instances that the Kubernetes engine collects from the annotations make the provider file exactly the nodes
  with a clique label, each under its own name in the domain of its label, whatever annotations the nodes had before.
\<close>

theorem broker_dra_domains:
  assumes "named_store s"
  shows "host_of (fold (dra_node (getComputeInstances (mvals (fold (broker_on env ''dra'') (mkeys s) s))))
      (mvals (fold (broker_on env ''dra'') (mkeys s) s)) NewDomainMap) d h = Some i \<longleftrightarrow>
    i = h \<and> (\<exists>node. map_of s h = Some node \<and> map_of (kn_Labels node) DomainLabel = Some d)"
proof -
  have d: "distinct (mkeys s)" and n: "\<And>name node. (name, node) \<in> set s \<Longrightarrow> kn_Name node = name"
    using assms by (auto simp: named_store_def)
  have "mvals (fold (broker_on env ''dra'') (mkeys s) s) = annotated_locally (mvals s)"
    using brokers_dra [of "[]" s env] assms n by (auto simp: annotated_locally_def dra_GetNodeAnnotations_def)
  moreover have "(\<exists>node \<in> set (mvals s). kn_Name node = h \<and> P node) \<longleftrightarrow> (\<exists>node. map_of s h = Some node \<and> P node)" for P
    unfolding map_of_eq_Some_iff [OF d] using n by force
  ultimately show ?thesis by (simp only: local_dra_hosts)
qed

definition sample_nodes :: node_store where
  "sample_nodes = [(''n1'', \<lparr>kn_Name = ''n1'', kn_Annotations = [(KeyNodeRegion, ''old'')], kn_Labels = [(DomainLabel, ''uuid.7'')]\<rparr>),
     (''n2'', \<lparr>kn_Name = ''n2'', kn_Annotations = [], kn_Labels = []\<rparr>)]"

definition sample_env :: "(node_store, unit) broker_env" where
  "sample_env = \<lparr>be_send = (\<lambda>meth url headers s. (Inl ''no route'', s)), be_exec = (\<lambda>exe args s. (Inl ''not found'', s)),
     be_read_file = (\<lambda>path. Inl ''no such file''),
     be_pods = \<lparr>pe_get_ds = (\<lambda>ns name s. (Inl ''not found'', s)), pe_list_pods = (\<lambda>ns l f s. (Inr [], s)), pe_selector = (\<lambda>l. []),
       pe_new_executor = (\<lambda>name ns cmd. Inl ''no executor''), pe_stream = (\<lambda>e s. (Inr [], s))\<rparr>,
     be_get_node = (\<lambda>name s. (Inl ''not found'', s)), be_update_node = (\<lambda>node s. (None, s))\<rparr>"

lemma broker_dra_domains_witness:
  "host_of (fold (dra_node (getComputeInstances (mvals (fold (broker_on sample_env ''dra'') (mkeys sample_nodes) sample_nodes))))
      (mvals (fold (broker_on sample_env ''dra'') (mkeys sample_nodes) sample_nodes)) NewDomainMap) ''uuid.7'' ''n1'' = Some ''n1''"
proof -
  have "named_store sample_nodes" by (simp add: named_store_def sample_nodes_def)
  moreover have "map_of sample_nodes ''n1'' = Some \<lparr>kn_Name = ''n1'', kn_Annotations = [(KeyNodeRegion, ''old'')], kn_Labels = [(DomainLabel, ''uuid.7'')]\<rparr>"
    by (simp add: sample_nodes_def)
  ultimately show ?thesis by (subst broker_dra_domains) simp_all
qed

end
