(* ===== verification/Startup.thy ===== *)
theory Startup
  imports Server Observer Toposim Paging Broker
begin

text \<open>
  The programs: \<open>cmd/topograph\<close>, \<open>cmd/node-observer\<close> and \<open>cmd/toposim\<close>, with the start and the end of the
  two servers. Each program reads its configuration and runs two actors, a signal handler and its service, in a
  group of \<open>oklog/run\<close>; the group is an argument with the law of its documentation (locale \<open>actor_group\<close>).
  Listening and signals are arguments. An actor that is still running has no result, and neither has an interrupt that
  waits for ever or panics.
\<close>

section \<open>Actors\<close>

record 's actor =
  act_execute :: "('s, unit) service"
  act_interrupt :: "string option \<Rightarrow> 's \<Rightarrow> unit option \<times> 's"

type_synonym 's group_run = "'s actor list \<Rightarrow> ('s, unit) service"

definition returned :: "unit res \<Rightarrow> string option" where
  "returned r = (case r of Inl err \<Rightarrow> Some err | Inr _ \<Rightarrow> None)"

text \<open>The interrupts in turn; one of them may not return.\<close>

fun interrupts :: "'s actor list \<Rightarrow> string option \<Rightarrow> 's \<Rightarrow> unit option \<times> 's" where
  "interrupts [] err s = (Some (), s)"
| "interrupts (a # as) err s =
     (case act_interrupt a err s of
        (None, s) \<Rightarrow> (None, s)
      | (Some _, s) \<Rightarrow> interrupts as err s)"

definition interrupt_all :: "'s actor list \<Rightarrow> unit res \<Rightarrow> ('s, unit) service" where
  "interrupt_all as r s =
     (case interrupts as (returned r) s of
        (None, s) \<Rightarrow> (None, s)
      | (Some _, s) \<Rightarrow> (Some r, s))"

definition ignore_interrupt :: "string option \<Rightarrow> 's \<Rightarrow> unit option \<times> 's" where
  "ignore_interrupt err s = (Some (), s)"

text \<open>
  When the first actor returns, all are interrupted, the first one as well; the result is that of the first. An
  actor that has been interrupted is expected to return.
\<close>

locale actor_group =
  fixes run_group :: "'s group_run"
  assumes first_returns: "act_execute a s = (Some r, s') \<Longrightarrow> \<forall>b \<in> set (as @ bs). act_execute b s = (None, s) \<Longrightarrow>
    run_group (as @ a # bs) s = interrupt_all (as @ a # bs) r s'"
begin

lemma second_returns:
  assumes "act_execute a s = (None, s)" and "act_execute b s = (Some r, s')"
  shows "run_group [a, b] s = interrupt_all [a, b] r s'"
  using first_returns [OF assms(2), of "[a]" "[]"] assms(1) by simp

lemma first_of_two:
  assumes "act_execute a s = (Some r, s')" and "act_execute b s = (None, s)"
  shows "run_group [a, b] s = interrupt_all [a, b] r s'"
  using first_returns [OF assms(1), of "[]" "[b]"] assms(2) by simp

end

text \<open>A group that looks at its actors in turn.\<close>

definition turn_group :: "'s group_run" where
  "turn_group as s =
     (case find (\<lambda>a. fst (act_execute a s) \<noteq> None) as of
        None \<Rightarrow> (None, s)
      | Some a \<Rightarrow>
          (case act_execute a s of
             (None, s) \<Rightarrow> (None, s)
           | (Some r, s) \<Rightarrow> interrupt_all as r s))"

lemma find_skip: "\<forall>b \<in> set as. \<not> P b \<Longrightarrow> P a \<Longrightarrow> find P (as @ a # bs) = Some a"
  by (induction as) auto

interpretation turns: actor_group turn_group
proof
  fix a :: "'s actor" and s r s' and as bs :: "'s actor list"
  assume a: "act_execute a s = (Some r, s')" and waiting: "\<forall>b \<in> set (as @ bs). act_execute b s = (None, s)"
  have "find (\<lambda>a. fst (act_execute a s) \<noteq> None) (as @ a # bs) = Some a"
    using a waiting by (intro find_skip) auto
  then show "turn_group (as @ a # bs) s = interrupt_all (as @ a # bs) r s'"
    using a by (simp add: turn_group_def)
qed

text \<open>A program ends with status 1 after an error.\<close>

definition exit_status :: "unit res option \<Rightarrow> nat option" where
  "exit_status r = map_option (\<lambda>r. case r of Inl _ \<Rightarrow> 1 | Inr _ \<Rightarrow> 0) r"

section \<open>The server\<close>

record ('h, 's) listener =
  ListenAndServe :: "'h \<Rightarrow> string \<Rightarrow> ('s, unit) service"
  ListenAndServeTLS :: "'h \<Rightarrow> string \<Rightarrow> string \<Rightarrow> string \<Rightarrow> ('s, unit) service"
  ShutdownServer :: "'s \<Rightarrow> string option option \<times> 's"

definition server_Addr :: "server_config \<Rightarrow> string" where
  "server_Addr cfg = '':'' @ show_int (ep_Port (sc_HTTP cfg))"

text \<open>Without an \<open>ssl\<close> section there is no certificate to point to.\<close>

definition server_Start :: "(('s, 'v, 'c) HttpServer, 'w) listener \<Rightarrow> ('s, 'v, 'c) HttpServer \<Rightarrow> ('w, unit) service" where
  "server_Start ls srv =
     (let cfg = hs_cfg srv
      in if ep_SSL (sc_HTTP cfg)
         then (case sc_SSL cfg of
                 None \<Rightarrow> (\<lambda>s. (None, s))
               | Some ssl \<Rightarrow> ListenAndServeTLS ls srv (server_Addr cfg) (ssl_Cert ssl) (ssl_Key ssl))
         else ListenAndServe ls srv (server_Addr cfg))"

text \<open>The shutdown waits for the connections that are active; its error is only logged.\<close>

definition server_Stop :: "('h, 'w) listener \<Rightarrow> string option \<Rightarrow> 'w \<Rightarrow> unit option \<times> 'w" where
  "server_Stop ls err s = (case ShutdownServer ls s of (r, s) \<Rightarrow> (map_option (\<lambda>_. ()) r, s))"

definition GetRunGroup :: "(('s, 'v, 'c) HttpServer, 'w) listener \<Rightarrow> ('s, 'v, 'c) HttpServer \<Rightarrow> 'w actor" where
  "GetRunGroup ls srv = \<lparr>act_execute = server_Start ls srv, act_interrupt = server_Stop ls\<rparr>"

text \<open>The state of a process is its environment and the world outside.\<close>

definition topograph_mainInternal ::
  "(string \<Rightarrow> string option) \<Rightarrow> (string \<Rightarrow> string res) \<Rightarrow> (string \<Rightarrow> server_config res) \<Rightarrow>
   (string \<Rightarrow> (string, string) gomap res) \<Rightarrow> (nat \<Rightarrow> 'c) \<Rightarrow> (('s, 'v, 'c) HttpServer, env \<times> 'w) listener \<Rightarrow>
   (env \<times> 'w) actor \<Rightarrow> (env \<times> 'w) group_run \<Rightarrow> string \<Rightarrow> (env \<times> 'w, unit) service" where
  "topograph_mainInternal stat read_file unmarshal_config unmarshal_creds new ls signals run_group c s =
     (case NewFromFile stat read_file unmarshal_config unmarshal_creds c of
        Inl err \<Rightarrow> (Some (Inl err), s)
      | Inr cfg \<Rightarrow>
          (case UpdateEnv cfg (fst s) of
             Inl err \<Rightarrow> (Some (Inl err), s)
           | Inr env \<Rightarrow> run_group [signals, GetRunGroup ls (initHttpServer new cfg)] (env, snd s)))"

text \<open>The flags of the server with their defaults.\<close>

record topograph_flags =
  tf_c :: string
  tf_accelerator :: string
  tf_block :: string
  tf_spine :: string
  tf_datacenter :: string
  tf_version :: bool

definition topograph_defaults :: topograph_flags where
  "topograph_defaults =
     \<lparr>tf_c = ''/etc/topograph/topograph-config.yaml'', tf_accelerator = ''network.topology.nvidia.com/accelerator'',
      tf_block = ''network.topology.nvidia.com/block'', tf_spine = ''network.topology.nvidia.com/spine'',
      tf_datacenter = ''network.topology.nvidia.com/datacenter'', tf_version = False\<rparr>"

text \<open>
  The exit status and what is printed. The labels are global variables of the Kubernetes engine, so what runs
  after they are set gets them as an argument.
\<close>

definition topograph_main ::
  "string \<Rightarrow> (label_names \<Rightarrow> string \<Rightarrow> ('s, unit) service) \<Rightarrow> topograph_flags \<Rightarrow> 's \<Rightarrow> nat option \<times> string \<times> 's" where
  "topograph_main GitTag run f s =
     (if tf_version f then (Some 0, ''Version: '' @ GitTag @ newline, s)
      else case run (InitLabels (tf_accelerator f) (tf_block f) (tf_spine f) (tf_datacenter f)) (tf_c f) s of
             (r, s) \<Rightarrow> (exit_status r, [], s))"

lemma topograph_default_labels:
  "topograph_main GitTag run topograph_defaults s =
    (case run default_labels ''/etc/topograph/topograph-config.yaml'' s of (r, s) \<Rightarrow> (exit_status r, [], s))"
  by (simp add: topograph_main_def topograph_defaults_def default_labels_def)

section \<open>The node observer\<close>

text \<open>\<open>Start\<close> and \<open>Stop\<close> of the controller with the factories of a client; \<open>Stop\<close> may keep the group waiting.\<close>

definition observer_actor :: "'q queue_ops \<Rightarrow> 's factory_ops \<Rightarrow> 's factory_ops \<Rightarrow> ('q, 's) controller actor" where
  "observer_actor qs nf pf =
     \<lparr>act_execute = (\<lambda>co. case controller_Start qs nf pf co of
          (Some err, co) \<Rightarrow> (Some (Inl err), co)
        | (None, co) \<Rightarrow> (Some (Inr ()), co)),
      act_interrupt = (\<lambda>err co. controller_Stop qs nf pf co)\<rparr>"

text \<open>
  \<open>new_controller\<close> is \<open>NewController\<close> with a client; without a controller there is no state of one. \<open>cancel\<close> is
  what is deferred: the context of the controller is cancelled when the group has returned, not before.
\<close>

definition observer_mainInternal ::
  "(string \<Rightarrow> string res) \<Rightarrow> (string \<Rightarrow> ('l, 'v) observer_config res) \<Rightarrow> (unit \<Rightarrow> 'g res) \<Rightarrow> ('g \<Rightarrow> 'k res) \<Rightarrow>
   ('k \<Rightarrow> ('l, 'v) observer_config \<Rightarrow> ('q, 's) controller res) \<Rightarrow> ('k \<Rightarrow> ('q, 's) controller actor) \<Rightarrow>
   ('q, 's) controller actor \<Rightarrow> ('q, 's) controller group_run \<Rightarrow> (('q, 's) controller \<Rightarrow> ('q, 's) controller) \<Rightarrow> string \<Rightarrow>
   unit res option \<times> ('q, 's) controller option" where
  "observer_mainInternal read_file unmarshal in_cluster new_client new_controller actor_of signals run_group cancel c =
     (case bind_sum (NewConfigFromFile read_file unmarshal c) (\<lambda>cfg.
           bind_sum (in_cluster ()) (\<lambda>konfig.
           bind_sum (new_client konfig) (\<lambda>kubeClient.
           bind_sum (new_controller kubeClient cfg) (\<lambda>co. Inr (kubeClient, co))))) of
        Inl err \<Rightarrow> (Some (Inl err), None)
      | Inr (kubeClient, co) \<Rightarrow>
          (case run_group [signals, actor_of kubeClient] co of
             (None, co) \<Rightarrow> (None, Some co)
           | (Some r, co) \<Rightarrow> (Some r, Some (cancel co))))"

definition observer_main ::
  "string \<Rightarrow> (string \<Rightarrow> unit res option \<times> 'x) \<Rightarrow> bool \<Rightarrow> string \<Rightarrow> nat option \<times> string" where
  "observer_main GitTag run version c =
     (if version then (Some 0, ''Version: '' @ GitTag @ newline) else (exit_status (fst (run c)), []))"

text \<open>The data broker is run once, without a group; its argument is the name of the provider.\<close>

definition broker_main :: "string \<Rightarrow> (string \<Rightarrow> ('s, unit) service) \<Rightarrow> bool \<Rightarrow> string \<Rightarrow> 's \<Rightarrow> nat option \<times> string \<times> 's" where
  "broker_main GitTag run version provider s =
     (if version then (Some 0, ''Version: '' @ GitTag @ newline, s)
      else case run provider s of (r, s) \<Rightarrow> (exit_status r, [], s))"

text \<open>Outside a cluster the broker ends with status 1 and leaves the nodes alone.\<close>

lemma broker_without_cluster:
  assumes "in_cluster () = Inl err"
  shows "broker_main GitTag (broker_mainInternal in_cluster new_client getenv) False provider s = (Some 1, [], s)"
  using assms by (simp add: broker_main_def broker_mainInternal_def exit_status_def)

section \<open>The topology simulator\<close>

text \<open>The state of the process: whether the server has been made, and the world outside.\<close>

record 's grpc_ops =
  net_Listen :: "string \<Rightarrow> 's \<Rightarrow> string option \<times> 's"
  grpc_Serve :: "(pb_request \<Rightarrow> pb_instance list) \<Rightarrow> ('s, unit) service"
  grpc_GracefulStop :: "'s \<Rightarrow> unit option \<times> 's"

definition toposim_Start :: "'s grpc_ops \<Rightarrow> Model \<Rightarrow> int \<Rightarrow> (bool \<times> 's, unit) service" where
  "toposim_Start ops model port s =
     (case net_Listen ops ('':'' @ show_int port) (snd s) of
        (Some err, w) \<Rightarrow> (Some (Inl (''failed to listen to port '' @ show_int port @ '': '' @ err)), (fst s, w))
      | (None, w) \<Rightarrow> (case grpc_Serve ops (DescribeTopology model) w of (r, w) \<Rightarrow> (r, (True, w))))"

text \<open>
  The stop waits for the requests that are under way; stopping a server that has not been made dereferences a nil
  pointer.
\<close>

definition toposim_Stop :: "'s grpc_ops \<Rightarrow> string option \<Rightarrow> bool \<times> 's \<Rightarrow> unit option \<times> bool \<times> 's" where
  "toposim_Stop ops err s =
     (if fst s then (case grpc_GracefulStop ops (snd s) of (r, w) \<Rightarrow> (r, True, w)) else (None, s))"

definition toposim_mainInternal ::
  "(string \<Rightarrow> string res) \<Rightarrow> (string \<Rightarrow> Model res) \<Rightarrow> (model_switch \<Rightarrow> string) \<Rightarrow> 's grpc_ops \<Rightarrow> (bool \<times> 's) actor \<Rightarrow>
   (bool \<times> 's) group_run \<Rightarrow> string \<Rightarrow> int \<Rightarrow> ('s, unit) service" where
  "toposim_mainInternal read_file unmarshal fmt ops signals run_group path port s =
     (if length path = 0 \<or> port = 0 then (Some (Inl ''must specify topology model path and listening port''), s)
      else
        (case NewModelFromFile read_file unmarshal fmt path of
           Inl err \<Rightarrow> (Some (Inl err), s)
         | Inr model \<Rightarrow>
             (case run_group [signals, \<lparr>act_execute = toposim_Start ops model port, act_interrupt = toposim_Stop ops\<rparr>]
                     (False, s) of
                (r, (_, s)) \<Rightarrow> (r, s))))"

section \<open>From the configuration to the service\<close>







text \<open>A configuration that is refused starts nothing.\<close>

lemma topograph_refuses:
  assumes "NewFromFile stat read_file unmarshal_config unmarshal_creds c = Inl err"
  shows "topograph_mainInternal stat read_file unmarshal_config unmarshal_creds new ls signals run_group c s = (Some (Inl err), s)"
  using assms by (simp add: topograph_mainInternal_def)

text \<open>A signal stops a server that is listening once its connections are done; the program ends with status 1.\<close>

lemma topograph_signal:
  assumes "actor_group run_group" and "act_execute signals s = (Some (Inl sig), s')" and "act_interrupt signals = ignore_interrupt"
    and "act_execute (GetRunGroup ls srv) s = (None, s)" and "ShutdownServer ls s' = (Some err, s'')"
  shows "run_group [signals, GetRunGroup ls srv] s = (Some (Inl sig), s'')"
  using actor_group.first_of_two [OF assms(1,2,4)] assms(3,5)
  by (simp add: interrupt_all_def GetRunGroup_def server_Stop_def ignore_interrupt_def)

text \<open>A configuration that is accepted watches nodes or pods; its controller starts in the world it was made in.\<close>

lemma observer_watches:
  assumes "NewConfigFromFile read_file unmarshal c = Inr cfg"
    and "NewController marshal get_url new_request canonical node_selector pod_selector w cfg = Inr co"
  shows "ob_world (co_observer co) = w \<and>
    (si_nodeFactory (ob_si (co_observer co)) \<noteq> None \<or> si_podFactory (ob_si (co_observer co)) \<noteq> None)"
proof -
  have "\<not> (length (tr_NodeSelector (oc_Trigger cfg)) = 0 \<and> tr_PodSelector (oc_Trigger cfg) = None)"
    using assms(1) unfolding NewConfigFromFile_def by (elim bind_sum_InrE) (auto split: sum.splits if_splits)
  moreover obtain data si where si: "NewStatusInformer node_selector pod_selector (oc_Trigger cfg) = Inr si"
    and co: "ob_si (co_observer co) = si" "ob_world (co_observer co) = w"
    using assms(2) by (auto simp: NewController_def split: sum.splits elim!: bind_sum_InrE)
  ultimately have "si_nodeFactory si \<noteq> None \<or> si_podFactory si \<noteq> None"
    using NewStatusInformer_watches [OF si] by auto
  then show ?thesis using co by simp
qed

text \<open>
  C40. The node observer goes on serving once it has started. \<open>Start\<close> leaves the work to a goroutine and returns, so the
  group interrupts all actors, but \<open>Stop\<close> then waits for informers whose context is cancelled only after the group has
  returned: with every configuration that is accepted, whenever the controller starts without an error, the program
  does not return, the queue stays open and empty and the worker waits; and whatever is seen from then on,
  the worker waits or has a request under way, which returns, and when it waits it takes up work exactly when a
  relevant change was seen since it last did so, and never more often than there were relevant changes.
\<close>

theorem observer_keeps_serving:
  fixes co :: "('q, 's) controller"
  assumes group: "actor_group run_group" and queue: "work_queue qs pending processing closed"
    and factories: "informer_factories nf pf nodes_run pods_run cancelled"
    and config: "NewConfigFromFile read_file unmarshal c = Inr cfg" and cluster: "in_cluster () = Inr konfig" "new_client konfig = Inr k"
    and controller: "NewController marshal get_url new_request canonical node_selector pod_selector (world k) cfg = Inr co"
    and live: "\<not> cancelled (world k)" and start: "controller_Start qs nf pf co = (None, co')"
    and waiting: "act_execute signals co = (None, co)" "act_interrupt signals = ignore_interrupt"
  shows "\<exists>co1 q.
    observer_mainInternal read_file unmarshal in_cluster new_client
      (\<lambda>k. NewController marshal get_url new_request canonical node_selector pod_selector (world k))
      (\<lambda>_. observer_actor qs nf pf) signals run_group cancel c = (None, Some co1) \<and>
    ob_worker (co_observer co1) = Waiting \<and> si_queue (ob_si (co_observer co1)) = Some q \<and> \<not> closed q \<and> \<not> pending q \<and>
    (\<forall>ls ob. obs_run qs nf pf (DoRequestWithRetries send (co_reqFunc co) parse_time clock) (co_observer co1) ls ob \<longrightarrow>
       Stopping \<notin> set ls \<longrightarrow>
       ob_worker ob \<in> {Waiting, Sending} \<and>
       (ob_worker ob = Waiting \<longrightarrow>
         ((\<exists>ob'. obs_step qs nf pf (DoRequestWithRetries send (co_reqFunc co) parse_time clock) ob Took ob') \<longleftrightarrow>
          unserved (ob_si (co_observer co1)) ls)) \<and>
       (ob_worker ob = Sending \<longrightarrow>
         (\<exists>r ob'. obs_step qs nf pf (DoRequestWithRetries send (co_reqFunc co) parse_time clock) ob (Sent r) ob' \<and>
            ob_worker ob' = Waiting)) \<and>
       length (filter (\<lambda>l. l = Took) ls) \<le> length (filter (relevant (ob_si (co_observer co1))) ls))"
proof -
  let ?a = "observer_actor qs nf pf" and ?ob0 = "co_observer co'"
  have ob0: "Start qs nf pf (co_observer co) = (None, ?ob0)" and co': "co' = co\<lparr>co_observer := ?ob0\<rparr>"
    using start by (auto simp: controller_Start_def split: prod.splits)
  have ob: "ob_world (co_observer co) = world k"
    "si_nodeFactory (ob_si (co_observer co)) \<noteq> None \<or> si_podFactory (ob_si (co_observer co)) \<noteq> None"
    using observer_watches [OF config controller] by blast+
  then obtain s where stop: "Stop qs nf pf ?ob0 = (None, ?ob0\<lparr>ob_world := s\<rparr>)"
    using informer_factories.Stop_waits [OF factories ob0] live by auto
  let ?co1 = "co'\<lparr>co_observer := ?ob0\<lparr>ob_world := s\<rparr>\<rparr>"
  have "act_execute ?a co = (Some (Inr ()), co')" using start by (simp add: observer_actor_def)
  from actor_group.second_returns [OF group waiting(1) this]
  have "run_group [signals, ?a] co = (None, ?co1)"
    using waiting(2) stop by (simp add: interrupt_all_def observer_actor_def controller_Stop_def ignore_interrupt_def)
  then have main: "observer_mainInternal read_file unmarshal in_cluster new_client
      (\<lambda>k. NewController marshal get_url new_request canonical node_selector pod_selector (world k))
      (\<lambda>_. ?a) signals run_group cancel c = (None, Some ?co1)"
    using config cluster controller by (simp add: observer_mainInternal_def)
  have "work_queue.obs_inv pending processing closed (ob_si ?ob0) [] ?ob0"
    by (rule work_queue.obs_inv_start [OF queue ob0])
  then have inv: "work_queue.obs_inv pending processing closed (ob_si (co_observer ?co1)) [] (co_observer ?co1)"
    unfolding work_queue.obs_inv_def [OF queue] by simp
  note serves = work_queue.obs_serves [OF queue work_queue.obs_inv_run [OF queue _ _ inv] requests_return]
  have fresh: "ob_worker ?ob0 = Waiting" "si_queue (ob_si ?ob0) = Some (wq_new qs)"
    using Start_fresh [OF ob0] by blast+
  show ?thesis
  proof (intro exI conjI)
    show "observer_mainInternal read_file unmarshal in_cluster new_client
      (\<lambda>k. NewController marshal get_url new_request canonical node_selector pod_selector (world k))
      (\<lambda>_. ?a) signals run_group cancel c = (None, Some ?co1)" by (rule main)
    show "si_queue (ob_si (co_observer ?co1)) = Some (wq_new qs)" "ob_worker (co_observer ?co1) = Waiting" using fresh by simp_all
    show "\<not> closed (wq_new qs)" "\<not> pending (wq_new qs)" using work_queue.new [OF queue] by blast+
  qed (intro allI impI, rule serves)
qed

definition sample_observer_config :: "(unit, string) observer_config" where
  "sample_observer_config =
     \<lparr>oc_GenerateTopologyURL = ''http://topograph:49021/v1/generate'',
      oc_Trigger = \<lparr>tr_NodeSelector = [(''gpu'', ''true'')], tr_PodSelector = None\<rparr>,
      oc_Provider = \<lparr>prv_Name = ''dra'', prv_Creds = [], prv_Params = []\<rparr>, oc_Engine = \<lparr>eng_Name = ''k8s'', eng_Params = []\<rparr>,
      oc_Params = []\<rparr>"

definition sample_wait :: "'s actor" where
  "sample_wait = \<lparr>act_execute = (\<lambda>s. (None, s)), act_interrupt = ignore_interrupt\<rparr>"

theorem observer_keeps_serving_witness:
  "\<exists>co1. observer_mainInternal (\<lambda>_. Inr []) (\<lambda>_. Inr sample_observer_config) (\<lambda>_. Inr ()) (\<lambda>_. Inr ())
     (\<lambda>_. NewController (\<lambda>_. Inr ''{}'') (\<lambda>url. Inr url) (\<lambda>_ url. Inr url) (\<lambda>k. k) (\<lambda>_. ''gpu=true'') (\<lambda>_. Inr [])
        \<lparr>iw_nodes = False, iw_pods = False, iw_cancelled = False\<rparr>)
     (\<lambda>_. observer_actor flag_queue tracked_nodes tracked_pods) sample_wait turn_group (\<lambda>co. co) ''c.yaml'' = (None, Some co1) \<and>
   ob_worker (co_observer co1) = Waiting"
proof -
  have config: "NewConfigFromFile (\<lambda>_. Inr []) (\<lambda>_. Inr sample_observer_config) ''c.yaml'' = Inr sample_observer_config"
    by (simp add: NewConfigFromFile_def sample_observer_config_def)
  let ?w = "\<lparr>iw_nodes = False, iw_pods = False, iw_cancelled = False\<rparr>"
  obtain co :: "(bool \<times> bool \<times> bool, informer_world) controller" where co: "NewController (\<lambda>_. Inr ''{}'') (\<lambda>url. Inr url) (\<lambda>_ url. Inr url) (\<lambda>k. k) (\<lambda>_. ''gpu=true'') (\<lambda>_. Inr [])
      ?w sample_observer_config = Inr co"
    and ob: "co_observer co = \<lparr>ob_si = \<lparr>si_nodeFactory = Some ''gpu=true'', si_podFactory = None, si_queue = None\<rparr>,
      ob_worker = NotStarted, ob_world = ?w\<rparr>"
    by (simp add: NewController_def NewStatusInformer_def sample_observer_config_def Let_def)
  obtain co' where start: "controller_Start flag_queue tracked_nodes tracked_pods co = (None, co')"
    by (simp add: controller_Start_def ob Start_def startNodeInformer_def startPodInformer_def start_factory_def tracked_nodes_def Let_def)
  have waiting: "act_execute sample_wait co = (None, co)" "act_interrupt sample_wait = ignore_interrupt"
    by (simp_all add: sample_wait_def)
  have live: "\<not> iw_cancelled ?w" by simp
  show ?thesis
    using observer_keeps_serving [where world = "\<lambda>_. ?w" and in_cluster = "\<lambda>_. Inr ()" and konfig = "()" and new_client = "\<lambda>_. Inr ()"
        and k = "()" and cancel = "\<lambda>co. co", OF turns.actor_group_axioms flags.work_queue_axioms tracked.informer_factories_axioms config refl refl
        co live start waiting]
    by blast
qed

text \<open>A simulator that can not listen panics: the group interrupts also the actor that failed, which has no server.\<close>

lemma toposim_no_port:
  assumes "actor_group run_group" and "path \<noteq> []" and "port \<noteq> 0" and "NewModelFromFile read_file unmarshal fmt path = Inr model"
    and "net_Listen ops ('':'' @ show_int port) s = (Some err, s')"
    and "\<And>s. act_execute signals s = (None, s)" and "act_interrupt signals = ignore_interrupt"
  shows "fst (toposim_mainInternal read_file unmarshal fmt ops signals run_group path port s) = None"
proof -
  let ?a = "\<lparr>act_execute = toposim_Start ops model port, act_interrupt = toposim_Stop ops\<rparr>"
  have "act_execute ?a (False, s) =
      (Some (Inl (''failed to listen to port '' @ show_int port @ '': '' @ err)), (False, s'))"
    using assms(5) by (simp add: toposim_Start_def)
  from actor_group.second_returns [OF assms(1) assms(6) this] show ?thesis
    using assms(2,3,4,7) by (simp add: toposim_mainInternal_def interrupt_all_def toposim_Stop_def ignore_interrupt_def)
qed

end
