(* ===== verification/Spec2Isabelle.thy ===== *)
theory Spec2Isabelle
  imports Prelude Cluset Topology Graph Graph_Shape Merger Httperr TestSets Translate Output Queue Httpreq Registry Server_Config Server
    Exec Paging K8s Slurm Models Ib Decode Aws Nebius Gcp Oci Pods Slinky Observer Crusoe Httpenv Lambdai Netq Infiniband Toposim Dra Metrics Broker Startup
begin

text \<open>
  Topograph finds out how the nodes of a GPU cluster are connected, from the cloud that runs them or from the
  fabric itself, and writes this as the topology configuration of a workload manager: files or config maps for
  SLURM, labels for Kubernetes.

  \<^bold>\<open>How the parts work together\<close>

  A client posts a topology request to the HTTP server (\<open>pkg/server/http_server.go\<close>). The request is validated and
  put into a queue that waits until no request has arrived for a while and then handles the last one
  (\<open>trailing_delay_queue.go\<close>); the client asks for the result with the ID that it got. Handling a request
  (\<open>pkg/server/engine.go\<close>) is: look up the engine and the provider by name (\<open>pkg/registry\<close>,
  \<open>internal/component\<close>); take the compute instances of the request, or ask the provider or the engine for them; let
  the provider make a topology graph of them, or forward them to another service over gRPC (\<open>grpc_client.go\<close>); let
  the engine translate the graph into its output. All this is tried again up to five times when the error is worth
  it. Most providers collect one \<open>InstanceTopology\<close> per instance and call \<open>ToThreeTierGraph\<close>
  (\<open>pkg/topology/graph.go\<close>); those on premises read the fabric and merge equivalent switches
  (\<open>pkg/topology/merger.go\<close>). The SLURM engines validate the graph against the requested plugins and write it as
  tree, block or YAML text (\<open>pkg/translate\<close>), with the node lists in the compact notation of
  \<open>internal/cluset\<close>; the Kubernetes engine labels the nodes. A node observer watches a Kubernetes cluster and posts
  a request when nodes or pods change; a data broker on each node annotates it with what the provider needs to know; a
  simulator answers the gRPC service from a model of a cluster.

  \<^bold>\<open>Which theory models what\<close>

  Each theory follows one part of the code; its definitions are called like the functions and types they translate,
  with the name of the provider in front where several providers have one of the same name.

    \<^item> \<open>Prelude\<close>: Go maps, strings, \<open>strconv\<close>, \<open>fmt\<close>, scanners and sorting as far as the program uses them; the
      locale \<open>go_map\<close>.
    \<^item> \<open>Cluset\<close>: \<open>internal/cluset\<close>. \<open>Compact\<close> and \<open>ExpandList\<close> are a round trip, the order of the input does
      not matter, and when two names clash one is lost.
    \<^item> \<open>Topology\<close>, \<open>Graph\<close>, \<open>Merger\<close>: \<open>pkg/topology\<close>. Requests and what they print, block domains,
      normalisation, the three-tier graph of instances, and the merging of the switches of a multi-path fabric.
      \<open>Graph_Shape\<close> says which paths and which blocks the graph of instances has.
    \<^item> \<open>Httperr\<close>, \<open>Httpreq\<close>, \<open>Httpenv\<close>: \<open>internal/httperr\<close> and \<open>internal/httpreq\<close>, errors with a status code and
      requests with retries.
    \<^item> \<open>Translate\<close>, \<open>Output\<close>, \<open>TestSets\<close>: \<open>pkg/translate\<close>. The validation of the configuration, the block sizes
      and their fake nodes, and the writers for trees, blocks and YAML.
    \<^item> \<open>Queue\<close>, \<open>Server_Config\<close>, \<open>Server\<close>: \<open>pkg/server\<close> and \<open>pkg/config\<close>. The queue as a transition system, the
      handlers, the processing of a request from loading the provider to its output.
    \<^item> \<open>Registry\<close>, \<open>Exec\<close>, \<open>Pods\<close>: the interfaces of providers and engines (\<open>pkg/providers\<close>, \<open>pkg/engines\<close>,
      \<open>pkg/registry\<close>, \<open>internal/component\<close>), running commands (\<open>internal/exec\<close>), the calls to Kubernetes
      (\<open>internal/k8s\<close>).
    \<^item> \<open>K8s\<close>, \<open>Slurm\<close>, \<open>Slinky\<close>: the engines of \<open>pkg/engines\<close>.
    \<^item> \<open>Models\<close>, \<open>Paging\<close>, \<open>Decode\<close>: the models of clusters for simulation (\<open>pkg/models\<close>), the loop over the pages of a
      service that the cloud providers share, and the decoding of configuration values (\<open>internal/config\<close>).
    \<^item> \<open>Aws\<close>, \<open>Gcp\<close>, \<open>Oci\<close>, \<open>Nebius\<close>, \<open>Crusoe\<close>, \<open>Lambdai\<close>, \<open>Netq\<close>, \<open>Infiniband\<close>, \<open>Dra\<close>: the providers of
      \<open>pkg/providers\<close>, those of the clouds with their simulations; \<open>Ib\<close> is \<open>pkg/ib\<close>, the parser of the fabric that
      \<open>Infiniband\<close> (with the CoreWeave provider) builds on; \<open>Toposim\<close> is \<open>pkg/toposim\<close> and the test provider.
    \<^item> \<open>Observer\<close>, \<open>Broker\<close>, \<open>Metrics\<close>, \<open>Startup\<close>: \<open>pkg/node_observer\<close>, \<open>cmd/node-data-broker-initc\<close>,
      \<open>pkg/metrics\<close>, and the programs under \<open>cmd\<close> that read their configuration and run the servers.

  \<^bold>\<open>State, errors and effects\<close>

  Structs are records and unions are datatypes with the constructors of the code. A Go map is an association list; its
  order is one order in which the code may visit the map, so a theorem about every list is one about every order. What
  the code changes in place is returned changed: the queue, the metrics, the labels with the table of shortened values,
  the state of the observer. Shared pointers matter in two places, and there the vertices are cells of a store, from
  which a tree is unfolded at the end: in \<open>Graph\<close> (\<open>to_vertex\<close>) and in \<open>Models\<close> (\<open>child_vertex\<close>).

  An error is the left side of a sum: a text for an \<open>error\<close> of Go (\<open>res\<close>), a status code with a text for an HTTP error
  (\<open>http_res\<close>). A call into the world (a command, the API server, a service) is a function on a state \<open>'s\<close> that stands
  for the rest of the world (\<open>call\<close>). \<open>pcall\<close> and \<open>service\<close> have one more result, \<open>None\<close>, for a panic (an index out of
  range, a nil pointer, a failed type assertion) and for a call that does not return; theorems that a function
  returns say that its result is not \<open>None\<close>.

  Integers are \<open>int\<close> with the bounds of 64 bits written out where they can be reached (\<open>wrap64\<close>, \<open>strconv_atoi\<close>,
  \<open>ParseInt\<close>), words where the code hashes or converts (\<open>fnv64a\<close>, the page sizes of \<open>Gcp\<close>, the integers of
  \<open>Decode\<close>). Regular expressions are modelled by what they match.

  Two components run at the same time as others: the queue with its worker, and the observer with its informers.
  Their critical sections are the steps of the relations \<open>queue_step\<close> and \<open>obs_step\<close>, and the properties hold for all
  sequences of steps.

  \<^bold>\<open>Interfaces\<close>

  Where a component relies on another one only through what it promises, the promise is a locale: \<open>go_map\<close> (maps),
  \<open>go_writer\<close> (writers), \<open>lru_cache\<close> (the store of results), \<open>retry_loop\<close> (a loop that tries again; both loops of
  the code are instances), \<open>paged_source\<close> (a service that hands out its contents in pages; the simulation of AWS is
  one), \<open>config_store\<close> (the config maps of the API server), \<open>work_queue\<close> (the queue of the observer),
  \<open>informer_factory\<close> and \<open>informer_factories\<close> (its informers) and \<open>actor_group\<close> (the group that runs the actors of a
  program). Each is interpreted in the theory of the component that
  provides it; for the libraries that are not part of the repository the instance is a small model that keeps the
  documented promises, which shows that they can be kept.

  \<^bold>\<open>What the theorems show\<close>

    \<^item> Round trips: node lists through \<open>Compact\<close> and \<open>ExpandList\<close>, the printed output of \<open>ibnetdiscover\<close> and of the
      cluster ID command through their parsers.
    \<^item> What the graph holds: every instance with a topology is below its block, spine and datacenter and nothing else
      is, and the blocks are the accelerator domains with their hosts; the result of normalising depends on the set of instances only; merging keeps the nodes and leaves one switch
      for each set of nodes; the NetQ tree has the nodes that have a path of links; no node is lost or made up when blocks
      are written.
    \<^item> What the outputs say: the switches and nodes of the tree output, which blocks are listed and in which order, the
      block sizes and the padding with fake nodes, the labels of a node and the bound of 63 characters on their values.
    \<^item> The server: a request is refused or queued, its result is kept and served, processing and retries end after at
      most five attempts; the program listens as configured.
    \<^item> The providers: paging does not change what is found; the fabric is asked at no node twice; a model has the layers
      and regions that its switches say; the simulator and the forwarding client, and the data broker, the Kubernetes engine and the DRA provider, agree from one end to the other.
    \<^item> The observer serves every change while it runs, and its program goes on serving: the group stops its actors as
      soon as \<open>Start\<close> has returned, but \<open>Stop\<close> then waits for informers that run as long as the program.
    \<^item> Lemmas that are not among these describe the behaviour of single operations on every branch, among them the inputs
      on which the code panics or does not return.

  \<^bold>\<open>Bounds and termination\<close>

  Loops over data recurse over the data. Loops that end for a reason of their own are functions with a measure (the
  rounds of \<open>Netq\<close> place a switch each, those of \<open>Ib\<close> a level). Loops that may not end are partial functions into
  \<open>option\<close> (\<open>page_loop\<close>, \<open>aws_fill\<close>, \<open>tree_loop\<close>, \<open>request_loop\<close>, \<open>process_loop\<close>), with theorems that they do end
  under the conditions that the code can expect. Fuel occurs where a graph of cells is unfolded, and is the number of
  cells plus one or two: a path that is longer has a cell twice, so the graph is cyclic and the code would recurse for ever;
  then the result is \<open>None\<close>. A line of a scanner has less than 64 kB (\<open>max_token\<close>), as in \<open>bufio\<close>; longer ones are an
  error. A request is tried five times.

  \<^bold>\<open>Not modelled\<close>

  Logging; the buckets and the exposition of the metrics; the parsing of flags and the delivery of signals; the time that
  sleeps take (the list of sleeps is a result). Third-party code is a parameter: the SDKs of the clouds, the client of
  Kubernetes with its informers, gRPC and the code generated from the protocol, YAML and JSON decoders,
  \<open>mapstructure\<close>, the printing of label selectors, parsing of dates and floats, the operating system. Left out as
  they do nothing on their own: declarations of interfaces, the pairs of a name and a loader, constructors that store
  their arguments, getters, the names of the credentials and of the providers where they are used as literals, and the
  helper that finds a free port for tests (\<open>pkg/test\<close>).
\<close>

end
